(* ===== verification/Ringnet_Prelude.thy ===== *)
theory Ringnet_Prelude
  imports Main "HOL-Library.Word"
begin

text \<open>
  Shared vocabulary of the development: addresses, the ways a run of the program can stop, the
  error monad the stateful code is written in, decimal printing (\<open>std::to_string\<close> and the stream
  operators on integers), and generic list lemmas.

  A C++ function that mutates its object is a function from states to \<open>stop + state\<close>. \<open>Inr\<close> is a
  normal return. \<open>Inl\<close> is a run that never gets back to its caller: undefined behaviour the C++
  standard attaches to a dead or null object, a self-deadlock on a mutex, a failed \<open>assert\<close>,
  \<open>std::terminate\<close>, \<open>std::exit\<close> (with the standard output up to then) or an escaping \<open>std::runtime_error\<close>.
\<close>

section \<open>Addresses, spans, stops\<close>

text \<open>Object addresses are natural numbers; \<open>0\<close> is \<open>nullptr\<close>.\<close>

type_synonym ptr = nat

abbreviation (input) nullptr :: ptr where
  "nullptr \<equiv> 0"

datatype stop =
    NullDeref
  | UseAfterFree ptr
  | BadFree ptr
  | Uninitialised ptr
  | BadCast ptr
  | OutOfBounds
  | Deadlock
  | AssertFailed string
  | Terminate
  | ExitProcess int string
  | RuntimeError string

text \<open>A \<open>std::span\<close> of bytes is a base address and a length; \<open>subspan(0, n)\<close> needs \<open>n \<le> size()\<close>.\<close>

record span =
  sp_base :: ptr
  sp_len :: nat

definition subspan0 :: "span \<Rightarrow> nat \<Rightarrow> stop + span" where
  "subspan0 s n = (if n \<le> sp_len s then Inr (s\<lparr>sp_len := n\<rparr>) else Inl OutOfBounds)"

section \<open>The error monad\<close>

named_theorems res_simps \<open>equations and inversions of the error monad\<close>

definition bindE :: "'e + 'a \<Rightarrow> ('a \<Rightarrow> 'e + 'b) \<Rightarrow> 'e + 'b" where
  "bindE m f = (case m of Inl e \<Rightarrow> Inl e | Inr a \<Rightarrow> f a)"

lemma bindE_simps [simp]:
  "bindE (Inl e) f = Inl e"
  "bindE (Inr a) f = f a"
  by (simp_all add: bindE_def)

lemma bindE_Inr_right [simp]: "bindE m Inr = m"
  by (cases m) simp_all

lemma bindE_assoc: "bindE (bindE m f) g = bindE m (\<lambda>x. bindE (f x) g)"
  by (cases m) simp_all

lemma bindE_eq_Inr [res_simps]: "bindE m f = Inr y \<longleftrightarrow> (\<exists>x. m = Inr x \<and> f x = Inr y)"
  by (cases m) auto

lemma bindE_eq_Inl [res_simps]:
  "bindE m f = Inl e \<longleftrightarrow> m = Inl e \<or> (\<exists>x. m = Inr x \<and> f x = Inl e)"
  by (cases m) auto

lemma bindE_split: "P (bindE m f) \<longleftrightarrow> (\<forall>e. m = Inl e \<longrightarrow> P (Inl e)) \<and> (\<forall>x. m = Inr x \<longrightarrow> P (f x))"
  by (cases m) auto

lemma bindE_split_asm:
  "P (bindE m f) \<longleftrightarrow> \<not> ((\<exists>e. m = Inl e \<and> \<not> P (Inl e)) \<or> (\<exists>x. m = Inr x \<and> \<not> P (f x)))"
  by (cases m) auto

lemmas bindE_splits = bindE_split bindE_split_asm

text \<open>\<open>assert(b)\<close> in a build without \<open>NDEBUG\<close>.\<close>

definition assertE :: "bool \<Rightarrow> string \<Rightarrow> stop + unit" where
  "assertE b msg = (if b then Inr () else Inl (AssertFailed msg))"

lemma assertE_simps [simp]:
  "assertE True msg = Inr ()"
  "assertE False msg = Inl (AssertFailed msg)"
  by (simp_all add: assertE_def)

lemma assertE_eq_Inr [res_simps]: "assertE b msg = Inr u \<longleftrightarrow> b"
  by (simp add: assertE_def)

text \<open>A \<open>noexcept\<close> function turns an escaping exception into \<open>std::terminate\<close>.\<close>

definition noexceptE :: "stop + 'a \<Rightarrow> stop + 'a" where
  "noexceptE m = (case m of Inl (RuntimeError msg) \<Rightarrow> Inl Terminate | _ \<Rightarrow> m)"

lemma noexceptE_simps [simp]:
  "noexceptE (Inr a) = Inr a"
  "noexceptE (Inl (RuntimeError msg)) = Inl Terminate"
  by (simp_all add: noexceptE_def)

lemma noexceptE_eq_Inr [res_simps]: "noexceptE m = Inr y \<longleftrightarrow> m = Inr y"
  by (auto simp: noexceptE_def split: sum.splits stop.splits)

section \<open>Decimal printing\<close>

definition newline :: string where "newline = [CHR 0x0A]"

fun show_nat :: "nat \<Rightarrow> string" where
  "show_nat n = (if n < 10 then [char_of (48 + n)] else show_nat (n div 10) @ [char_of (48 + n mod 10)])"

declare show_nat.simps [simp del]

definition show_int :: "int \<Rightarrow> string" where
  "show_int i = (if i < 0 then CHR ''-'' # show_nat (nat (- i)) else show_nat (nat i))"

section \<open>Words and lists\<close>

text \<open>\<open>static_cast<int>\<close> of a \<open>size_t\<close>.\<close>

definition size_as_int :: "nat \<Rightarrow> int" where
  "size_as_int n = sint (word_of_nat n :: 32 word)"

lemma unat_of_nat_small: "n < 2 ^ LENGTH('a) \<Longrightarrow> unat (of_nat n :: 'a::len word) = n"
  by (simp add: unat_of_nat)

lemma of_nat_small_eq_0: "n < 2 ^ LENGTH('a) \<Longrightarrow> (of_nat n :: 'a::len word) = 0 \<longleftrightarrow> n = 0"
proof
  assume "n < 2 ^ LENGTH('a)" "(of_nat n :: 'a word) = 0"
  then show "n = 0" using unat_of_nat_small [of n, where 'a = 'a] by simp
qed simp

lemma size_as_int_small: "n < 2 ^ 31 \<Longrightarrow> size_as_int n = int n"
  by (simp add: size_as_int_def sint_uint unat_of_nat_small signed_take_bit_int_eq_self uint_nat)

lemma size_as_int_le: "size_as_int n \<le> int n"
proof -
  have "sint (word_of_nat n :: 32 word) \<le> uint (word_of_nat n :: 32 word)"
    using order_trans [OF _ unsigned_greater_eq [of "word_of_nat n :: 32 word", where 'a = int], of "- 2147483648"]
    by (simp add: sint_uint signed_take_bit_int_less_eq_self_iff)
  also have "\<dots> \<le> int n" by (simp add: unsigned_of_nat take_bit_eq_mod zmod_le_nonneg_dividend)
  finally show ?thesis by (simp add: size_as_int_def)
qed

lemma size_as_int_negative:
  assumes "2 ^ 31 \<le> n mod 2 ^ 32"
  shows "size_as_int n < 0"
proof -
  have "n div 2 ^ 31 mod 2 = n mod (2 ^ 31 * 2) div 2 ^ 31" by (simp only: mod_mult2_eq) simp
  also have "\<dots> = 1" using assms mod_less_divisor [of "2 ^ 32" n] by (intro div_nat_eqI) simp_all
  finally have "bit n 31" by (simp add: bit_iff_odd odd_iff_mod_2_eq_one)
  then have "bit (int n) 31" by (simp add: bit_of_nat_iff)
  then show ?thesis by (simp add: size_as_int_def signed_of_nat)
qed

lemma map_of_filter_key:
  "map_of (filter (\<lambda>kv. fst kv \<noteq> a) xs) = (map_of xs)(a := None)"
  by (induction xs) (auto simp: fun_eq_iff)

lemma map_fst_filter_key:
  "map fst (filter (\<lambda>kv. fst kv \<noteq> a) xs) = filter (\<lambda>k. k \<noteq> a) (map fst xs)"
  by (induction xs) auto

lemma map_of_None_iff_fst: "map_of xs a = None \<longleftrightarrow> a \<notin> set (map fst xs)"
  by (simp add: map_of_eq_None_iff image_iff)

end
