(* ===== verification/Command_Line.thy ===== *)
theory Command_Line
  imports Ringnet_Prelude
begin

text \<open>
  \<open>app/samples/benchmarks/include/{echoCLI,readerCLI,writerCLI}.h\<close>: the command lines of the sample
  programs. The option parser is the third-party library \<open>cxxopts\<close>, a parameter \<open>C :: 'r cxxopts\<close> of the
  definitions; \<open>'r\<close> is its \<open>ParseResult\<close>. What the programs rely on is the predicate \<open>cxxopts_contract\<close>.
\<close>

section \<open>The option parser\<close>

text \<open>What \<open>add_options\<close> is told of an option: its names (\<open>"p,port"\<close>), its description, and for an option with a
  value the type of the value and the text of its default.\<close>

datatype value_type = Uint16 | Uint64

record option_spec =
  opt_names :: string
  opt_description :: string
  opt_value :: "(value_type \<times> string) option"

record cli_options =
  program_name :: string
  program_help :: string
  option_specs :: "option_spec list"

definition long_name :: "option_spec \<Rightarrow> string" where
  "long_name s = tl (dropWhile (\<lambda>c. c \<noteq> CHR '','') (opt_names s))"

text \<open>The entry points; \<open>Inl\<close> is the text of an exception.\<close>

record 'r cxxopts =
  cli_parse :: "cli_options \<Rightarrow> string list \<Rightarrow> string + 'r"
  cli_count :: "'r \<Rightarrow> string \<Rightarrow> nat"
  cli_as_uint16 :: "'r \<Rightarrow> string \<Rightarrow> string + 16 word"
  cli_as_uint64 :: "'r \<Rightarrow> string \<Rightarrow> string + 64 word"
  cli_help :: "cli_options \<Rightarrow> string"

definition throwsE :: "string + 'a \<Rightarrow> stop + 'a" where
  "throwsE m = (case m of Inl what \<Rightarrow> Inl (RuntimeError what) | Inr a \<Rightarrow> Inr a)"

text \<open>
  Documented behaviour. Once the arguments have been parsed, an option declared with a value and a default,
  here a number in decimal that the type can hold, can be read at its declared type; when it does not
  occur among the arguments (its count is 0), what is read is its default.
\<close>

definition cxxopts_contract :: "'r cxxopts \<Rightarrow> bool" where
  "cxxopts_contract C \<longleftrightarrow>
     (\<forall>opts argv r s n. cli_parse C opts argv = Inr r \<longrightarrow> s \<in> set (option_specs opts) \<longrightarrow>
        distinct (map long_name (option_specs opts)) \<longrightarrow>
        (opt_value s = Some (Uint16, show_nat n) \<longrightarrow> n < 2 ^ 16 \<longrightarrow>
           (\<exists>v. cli_as_uint16 C r (long_name s) = Inr v \<and> (cli_count C r (long_name s) = 0 \<longrightarrow> v = word_of_nat n))) \<and>
        (opt_value s = Some (Uint64, show_nat n) \<longrightarrow> n < 2 ^ 64 \<longrightarrow>
           (\<exists>v. cli_as_uint64 C r (long_name s) = Inr v \<and> (cli_count C r (long_name s) = 0 \<longrightarrow> v = word_of_nat n))))"

text \<open>The body the three \<open>parse\<close> members share: parse, and on \<open>--help\<close> print the help and leave.\<close>

definition parse_or_help :: "'r cxxopts \<Rightarrow> cli_options \<Rightarrow> string list \<Rightarrow> stop + 'r" where
  "parse_or_help C options argv =
     bindE (throwsE (cli_parse C options argv)) (\<lambda>arguments.
       if cli_count C arguments ''help'' \<noteq> 0 then Inl (ExitProcess 0 (cli_help C options @ newline))
       else Inr arguments)"

definition help_option :: option_spec where
  "help_option = \<lparr>opt_names = ''h,help'', opt_description = ''Print help and exit'', opt_value = None\<rparr>"

section \<open>EchoCLI\<close>

definition Echo_DEFAULT_PORT :: nat where "Echo_DEFAULT_PORT = 6789"
definition Echo_DEFAULT_BYTES_COUNT :: nat where "Echo_DEFAULT_BYTES_COUNT = 1000000000"
definition Echo_DEFAULT_CLIENTS_COUNT :: nat where "Echo_DEFAULT_CLIENTS_COUNT = 10"

definition EchoCLI_options :: cli_options where
  "EchoCLI_options =
     \<lparr>program_name = ''echo-tcp'', program_help = ''Measure network throughput between local TCP client/server.'',
      option_specs =
        [\<lparr>opt_names = ''p,port'', opt_description = ''Port'', opt_value = Some (Uint16, show_nat Echo_DEFAULT_PORT)\<rparr>,
         \<lparr>opt_names = ''b,bytes_count'', opt_description = ''Bytes count'', opt_value = Some (Uint64, show_nat Echo_DEFAULT_BYTES_COUNT)\<rparr>,
         \<lparr>opt_names = ''c,clients_count'', opt_description = ''Max concurrent clients allowed'',
            opt_value = Some (Uint64, show_nat Echo_DEFAULT_CLIENTS_COUNT)\<rparr>,
         help_option]\<rparr>"

definition new_EchoCLI :: "'r cxxopts \<Rightarrow> string list \<Rightarrow> stop + 'r" where
  "new_EchoCLI C argv = parse_or_help C EchoCLI_options argv"

definition EchoCLI_address :: string where "EchoCLI_address = ''127.0.0.1''"

definition EchoCLI_port :: "'r cxxopts \<Rightarrow> 'r \<Rightarrow> stop + 16 word" where
  "EchoCLI_port C cli = throwsE (cli_as_uint16 C cli ''port'')"

definition EchoCLI_bytes_count :: "'r cxxopts \<Rightarrow> 'r \<Rightarrow> stop + 64 word" where
  "EchoCLI_bytes_count C cli = throwsE (cli_as_uint64 C cli ''bytes_count'')"

definition EchoCLI_clients_count :: "'r cxxopts \<Rightarrow> 'r \<Rightarrow> stop + 64 word" where
  "EchoCLI_clients_count C cli = throwsE (cli_as_uint64 C cli ''clients_count'')"

section \<open>ReaderCLI\<close>

definition Reader_DEFAULT_PORT :: nat where "Reader_DEFAULT_PORT = 6789"
definition Reader_DEFAULT_BYTES_COUNT :: nat where "Reader_DEFAULT_BYTES_COUNT = 10000000000"
definition Reader_DEFAULT_CLIENTS_COUNT :: nat where "Reader_DEFAULT_CLIENTS_COUNT = 10"

definition ReaderCLI_options :: cli_options where
  "ReaderCLI_options =
     \<lparr>program_name = ''tcp-reader'',
      program_help = ''TCP server receiving data until enough bytes are received, compute throughput.'',
      option_specs =
        [\<lparr>opt_names = ''p,port'', opt_description = ''Port'', opt_value = Some (Uint16, show_nat Reader_DEFAULT_PORT)\<rparr>,
         \<lparr>opt_names = ''b,bytes_count'', opt_description = ''Bytes count'', opt_value = Some (Uint64, show_nat Reader_DEFAULT_BYTES_COUNT)\<rparr>,
         \<lparr>opt_names = ''c,clients_count'', opt_description = ''Max concurrent clients allowed'',
            opt_value = Some (Uint64, show_nat Reader_DEFAULT_CLIENTS_COUNT)\<rparr>,
         help_option]\<rparr>"

definition new_ReaderCLI :: "'r cxxopts \<Rightarrow> string list \<Rightarrow> stop + 'r" where
  "new_ReaderCLI C argv = parse_or_help C ReaderCLI_options argv"

definition ReaderCLI_address :: string where "ReaderCLI_address = ''127.0.0.1''"

definition ReaderCLI_port :: "'r cxxopts \<Rightarrow> 'r \<Rightarrow> stop + 16 word" where
  "ReaderCLI_port C cli = throwsE (cli_as_uint16 C cli ''port'')"

definition ReaderCLI_bytes_count :: "'r cxxopts \<Rightarrow> 'r \<Rightarrow> stop + 64 word" where
  "ReaderCLI_bytes_count C cli = throwsE (cli_as_uint64 C cli ''bytes_count'')"

definition ReaderCLI_clients_count :: "'r cxxopts \<Rightarrow> 'r \<Rightarrow> stop + 64 word" where
  "ReaderCLI_clients_count C cli = throwsE (cli_as_uint64 C cli ''clients_count'')"

section \<open>WriterCLI\<close>

definition Writer_DEFAULT_PORT :: nat where "Writer_DEFAULT_PORT = 6789"
definition Writer_DEFAULT_CHUNK_SIZE :: nat where "Writer_DEFAULT_CHUNK_SIZE = 1024"

definition WriterCLI_options :: cli_options where
  "WriterCLI_options =
     \<lparr>program_name = ''tcp-writer'', program_help = ''TCP client sending data until stopped.'',
      option_specs =
        [\<lparr>opt_names = ''p,port'', opt_description = ''Port'', opt_value = Some (Uint16, show_nat Writer_DEFAULT_PORT)\<rparr>,
         \<lparr>opt_names = ''c,chunk_size'', opt_description = ''Chunk size (bytes per write operation)'',
            opt_value = Some (Uint64, show_nat Writer_DEFAULT_CHUNK_SIZE)\<rparr>,
         help_option]\<rparr>"

definition new_WriterCLI :: "'r cxxopts \<Rightarrow> string list \<Rightarrow> stop + 'r" where
  "new_WriterCLI C argv = parse_or_help C WriterCLI_options argv"

definition WriterCLI_address :: string where "WriterCLI_address = ''127.0.0.1''"

definition WriterCLI_port :: "'r cxxopts \<Rightarrow> 'r \<Rightarrow> stop + 16 word" where
  "WriterCLI_port C cli = throwsE (cli_as_uint16 C cli ''port'')"

definition WriterCLI_chunk_size :: "'r cxxopts \<Rightarrow> 'r \<Rightarrow> stop + 64 word" where
  "WriterCLI_chunk_size C cli = throwsE (cli_as_uint64 C cli ''chunk_size'')"

lemmas cli_accessor_defs =
  EchoCLI_port_def EchoCLI_bytes_count_def EchoCLI_clients_count_def
  ReaderCLI_port_def ReaderCLI_bytes_count_def ReaderCLI_clients_count_def WriterCLI_port_def WriterCLI_chunk_size_def

lemmas new_CLI_defs = new_EchoCLI_def new_ReaderCLI_def new_WriterCLI_def

section \<open>Processes\<close>

text \<open>
  A \<open>main\<close> reads its command line, sets its objects up and runs a loop. Its value is \<open>None\<close> when it never ends,
  \<open>Some (Inl s)\<close> when it ends with the stop \<open>s\<close>, and \<open>Some (Inr w)\<close> when the loop comes back.
\<close>

text \<open>An exception that leaves \<open>main\<close> ends in \<open>std::terminate\<close>.\<close>

definition process :: "stop + 'w \<Rightarrow> ('w \<Rightarrow> (stop + 'w) option) \<Rightarrow> (stop + 'w) option" where
  "process before loop_run = (case before of Inl e \<Rightarrow> Some (noexceptE (Inl e)) | Inr w \<Rightarrow> map_option noexceptE (loop_run w))"

lemma process_simps [simp]:
  "process (Inl e) loop_run = Some (noexceptE (Inl e))" "process (Inr w) loop_run = map_option noexceptE (loop_run w)"
  by (simp_all add: process_def)

section \<open>What a program finds on its command line\<close>

lemma throwsE_simps [simp]: "throwsE (Inr a) = Inr a" "throwsE (Inl what) = Inl (RuntimeError what)"
  by (simp_all add: throwsE_def)

lemma throwsE_eq [res_simps]:
  "throwsE m = Inr a \<longleftrightarrow> m = Inr a" "throwsE m = Inl e \<longleftrightarrow> (\<exists>what. m = Inl what \<and> e = RuntimeError what)"
  by (auto simp: throwsE_def split: sum.splits)

lemma parse_or_help_cases:
  "parse_or_help C options argv = Inr r \<longleftrightarrow> cli_parse C options argv = Inr r \<and> cli_count C r ''help'' = 0"
  "parse_or_help C options argv = Inl e \<longleftrightarrow>
     (\<exists>what. cli_parse C options argv = Inl what \<and> e = RuntimeError what) \<or>
     (\<exists>r. cli_parse C options argv = Inr r \<and> cli_count C r ''help'' \<noteq> 0 \<and> e = ExitProcess 0 (cli_help C options @ newline))"
  by (auto simp: parse_or_help_def res_simps split: if_splits)

text \<open>The value of a declared option: it can be read, and without an occurrence it is the default.\<close>

definition reads_option :: "nat \<Rightarrow> ('a :: len) word \<Rightarrow> nat \<Rightarrow> bool" where
  "reads_option occurrences v n \<longleftrightarrow> (occurrences = 0 \<longrightarrow> unat v = n)"

lemma cxxopts_value:
  assumes "cxxopts_contract C" "cli_parse C opts argv = Inr r" "distinct (map long_name (option_specs opts))"
    "s \<in> set (option_specs opts)" "long_name s = l"
  shows "opt_value s = Some (Uint16, show_nat n) \<Longrightarrow> n < 2 ^ 16 \<Longrightarrow>
      \<exists>v. throwsE (cli_as_uint16 C r l) = Inr v \<and> reads_option (cli_count C r l) v n"
    "opt_value s = Some (Uint64, show_nat n) \<Longrightarrow> n < 2 ^ 64 \<Longrightarrow>
      \<exists>v. throwsE (cli_as_uint64 C r l) = Inr v \<and> reads_option (cli_count C r l) v n"
proof -
  note val = assms(1) [unfolded cxxopts_contract_def, rule_format, OF assms(2,4,3), unfolded assms(5)]
  show "\<exists>v. throwsE (cli_as_uint16 C r l) = Inr v \<and> reads_option (cli_count C r l) v n"
    if "opt_value s = Some (Uint16, show_nat n)" "n < 2 ^ 16"
    using val [THEN conjunct1, rule_format, OF that] that(2) by (auto simp: reads_option_def unat_of_nat_small)
  show "\<exists>v. throwsE (cli_as_uint64 C r l) = Inr v \<and> reads_option (cli_count C r l) v n"
    if "opt_value s = Some (Uint64, show_nat n)" "n < 2 ^ 64"
    using val [THEN conjunct2, rule_format, OF that] that(2) by (auto simp: reads_option_def unat_of_nat_small)
qed

section \<open>A parser for the instances\<close>

text \<open>
  A small parser that behaves as the contract says: arguments \<open>--name=value\<close> and \<open>--help\<close>. It is not a model of
  \<open>cxxopts\<close>; it shows that the contract can hold.
\<close>

definition is_digit :: "char \<Rightarrow> bool" where
  "is_digit c \<longleftrightarrow> 48 \<le> (of_char c :: nat) \<and> of_char c \<le> (57 :: nat)"

definition digits_value :: "nat \<Rightarrow> string \<Rightarrow> nat" where
  "digits_value = foldl (\<lambda>n c. 10 * n + (of_char c - 48))"

definition read_nat :: "string \<Rightarrow> nat option" where
  "read_nat t = (if t \<noteq> [] \<and> list_all is_digit t then Some (digits_value 0 t) else None)"

lemma read_show_nat [simp]: "read_nat (show_nat n) = Some n"
proof -
  have digit: "of_char (char_of (48 + m) :: char) = 48 + m" if "m < 10" for m :: nat
    using that by simp
  have "show_nat n \<noteq> [] \<and> list_all is_digit (show_nat n) \<and> digits_value 0 (show_nat n) = n"
  proof (induction n rule: show_nat.induct)
    case (1 n)
    then show ?case
      by (cases "n < 10") (simp_all add: show_nat.simps [of n] is_digit_def digits_value_def digit)
  qed
  then show ?thesis by (simp add: read_nat_def)
qed

definition value_ok :: "option_spec \<Rightarrow> string \<Rightarrow> bool" where
  "value_ok s t = (case opt_value s of
       None \<Rightarrow> t = []
     | Some (Uint16, _) \<Rightarrow> (case read_nat t of Some n \<Rightarrow> n < 2 ^ 16 | None \<Rightarrow> False)
     | Some (Uint64, _) \<Rightarrow> (case read_nat t of Some n \<Rightarrow> n < 2 ^ 64 | None \<Rightarrow> False))"

definition split_argument :: "string \<Rightarrow> string \<times> string" where
  "split_argument arg = (takeWhile (\<lambda>c. c \<noteq> CHR ''='') (drop 2 arg), tl (dropWhile (\<lambda>c. c \<noteq> CHR ''='') arg))"

definition ref_parse :: "cli_options \<Rightarrow> string list \<Rightarrow> string + ((string \<times> string) list \<times> (string \<times> string) list)" where
  "ref_parse options argv =
     (let given = map split_argument (tl argv)
      in if list_all (\<lambda>(l, t). list_ex (\<lambda>s. long_name s = l \<and> value_ok s t) (option_specs options)) given
         then Inr (given, map (\<lambda>s. (long_name s, case opt_value s of Some (_, d) \<Rightarrow> d | None \<Rightarrow> [])) (option_specs options))
         else Inl ''option error'')"

definition ref_value :: "(string \<times> string) list \<times> (string \<times> string) list \<Rightarrow> string \<Rightarrow> nat option" where
  "ref_value r l = (case map_of (fst r @ snd r) l of None \<Rightarrow> None | Some t \<Rightarrow> read_nat t)"

definition ref_cxxopts :: "((string \<times> string) list \<times> (string \<times> string) list) cxxopts" where
  "ref_cxxopts =
     \<lparr>cli_parse = ref_parse,
      cli_count = (\<lambda>r l. length (filter (\<lambda>a. fst a = l) (fst r))),
      cli_as_uint16 = (\<lambda>r l. case ref_value r l of Some n \<Rightarrow> if n < 2 ^ 16 then Inr (word_of_nat n) else Inl ''range'' | None \<Rightarrow> Inl ''value''),
      cli_as_uint64 = (\<lambda>r l. case ref_value r l of Some n \<Rightarrow> if n < 2 ^ 64 then Inr (word_of_nat n) else Inl ''range'' | None \<Rightarrow> Inl ''value''),
      cli_help = program_help\<rparr>"

lemma ref_value_given:
  assumes "ref_parse options argv = Inr r" "distinct (map long_name (option_specs options))" "s \<in> set (option_specs options)"
  shows "case map_of (fst r) (long_name s) of
      Some t \<Rightarrow> value_ok s t \<and> ref_value r (long_name s) = read_nat t
    | None \<Rightarrow> length (filter (\<lambda>a. fst a = long_name s) (fst r)) = 0 \<and>
        ref_value r (long_name s) = read_nat (case opt_value s of Some (_, d) \<Rightarrow> d | None \<Rightarrow> [])"
proof (cases "map_of (fst r) (long_name s)")
  case None
  have "map_of (snd r) (long_name s) = Some (case opt_value s of Some (_, d) \<Rightarrow> d | None \<Rightarrow> [])"
    using assms by (auto simp: ref_parse_def Let_def comp_def split: if_splits intro!: map_of_is_SomeI image_eqI [of _ _ s])
  moreover have "length (filter (\<lambda>a. fst a = long_name s) (fst r)) = 0"
    using None by (force simp: filter_empty_conv map_of_eq_None_iff)
  ultimately show ?thesis using None by (simp add: ref_value_def map_add_def)
next
  case (Some t)
  then have "(long_name s, t) \<in> set (fst r)" by (rule map_of_SomeD)
  then obtain s' where "s' \<in> set (option_specs options)" "long_name s' = long_name s" "value_ok s' t"
    using assms(1) by (fastforce simp: ref_parse_def Let_def list_all_iff list_ex_iff split: if_splits)
  moreover from this have "s' = s" using assms(2,3) by (auto simp: distinct_map inj_on_def)
  ultimately show ?thesis using Some by (simp add: ref_value_def map_add_def)
qed

lemma ref_cxxopts_contract: "cxxopts_contract ref_cxxopts"
proof -
  have "(opt_value s = Some (Uint16, show_nat n) \<longrightarrow> n < 2 ^ 16 \<longrightarrow>
           (\<exists>v. cli_as_uint16 ref_cxxopts r (long_name s) = Inr v \<and> (cli_count ref_cxxopts r (long_name s) = 0 \<longrightarrow> v = word_of_nat n))) \<and>
        (opt_value s = Some (Uint64, show_nat n) \<longrightarrow> n < 2 ^ 64 \<longrightarrow>
           (\<exists>v. cli_as_uint64 ref_cxxopts r (long_name s) = Inr v \<and> (cli_count ref_cxxopts r (long_name s) = 0 \<longrightarrow> v = word_of_nat n)))"
    if "ref_parse opts argv = Inr r" "s \<in> set (option_specs opts)" "distinct (map long_name (option_specs opts))" for opts argv r s n
    using ref_value_given [OF that(1,3,2)]
    by (cases "map_of (fst r) (long_name s)")
       (fastforce simp: ref_cxxopts_def value_ok_def filter_empty_conv split: option.splits dest: map_of_SomeD)+
  then show ?thesis by (simp add: cxxopts_contract_def ref_cxxopts_def)
qed

section \<open>Properties of the command lines\<close>

lemma cli_options_facts:
  "distinct (map long_name (option_specs EchoCLI_options))" "distinct (map long_name (option_specs ReaderCLI_options))"
  "distinct (map long_name (option_specs WriterCLI_options))"
  by (simp_all add: EchoCLI_options_def ReaderCLI_options_def WriterCLI_options_def help_option_def long_name_def)

text \<open>An option of the list at index \<open>i\<close>.\<close>

lemma cxxopts_nth:
  assumes "cxxopts_contract C" "cli_parse C opts argv = Inr r" "distinct (map long_name (option_specs opts))"
    "i < length (option_specs opts)" "long_name (option_specs opts ! i) = l"
  shows "opt_value (option_specs opts ! i) = Some (Uint16, show_nat n) \<Longrightarrow> n < 2 ^ 16 \<Longrightarrow>
      \<exists>v. throwsE (cli_as_uint16 C r l) = Inr v \<and> reads_option (cli_count C r l) v n"
    "opt_value (option_specs opts ! i) = Some (Uint64, show_nat n) \<Longrightarrow> n < 2 ^ 64 \<Longrightarrow>
      \<exists>v. throwsE (cli_as_uint64 C r l) = Inr v \<and> reads_option (cli_count C r l) v n"
  using cxxopts_value [OF assms(1-3) nth_mem [OF assms(4)] assms(5)] by blast+

lemma echo_settings:
  assumes "cxxopts_contract C" "new_EchoCLI C argv = Inr cli"
  shows "\<exists>p b c. EchoCLI_port C cli = Inr p \<and> EchoCLI_bytes_count C cli = Inr b \<and> EchoCLI_clients_count C cli = Inr c \<and>
    reads_option (cli_count C cli ''port'') p 6789 \<and> reads_option (cli_count C cli ''bytes_count'') b 1000000000 \<and>
    reads_option (cli_count C cli ''clients_count'') c 10"
proof -
  note val = cxxopts_nth [OF assms(1) assms(2) [unfolded new_EchoCLI_def parse_or_help_cases, THEN conjunct1] cli_options_facts(1)]
  show ?thesis
    using val(1) [of 0 "''port''" 6789] val(2) [of 1 "''bytes_count''" 1000000000] val(2) [of 2 "''clients_count''" 10]
    by (auto simp: cli_accessor_defs EchoCLI_options_def long_name_def Echo_DEFAULT_PORT_def Echo_DEFAULT_BYTES_COUNT_def
        Echo_DEFAULT_CLIENTS_COUNT_def)
qed

lemma reader_settings:
  assumes "cxxopts_contract C" "new_ReaderCLI C argv = Inr cli"
  shows "\<exists>p b c. ReaderCLI_port C cli = Inr p \<and> ReaderCLI_bytes_count C cli = Inr b \<and> ReaderCLI_clients_count C cli = Inr c \<and>
    reads_option (cli_count C cli ''port'') p 6789 \<and> reads_option (cli_count C cli ''bytes_count'') b 10000000000 \<and>
    reads_option (cli_count C cli ''clients_count'') c 10"
proof -
  note val = cxxopts_nth [OF assms(1) assms(2) [unfolded new_ReaderCLI_def parse_or_help_cases, THEN conjunct1] cli_options_facts(2)]
  show ?thesis
    using val(1) [of 0 "''port''" 6789] val(2) [of 1 "''bytes_count''" 10000000000] val(2) [of 2 "''clients_count''" 10]
    by (auto simp: cli_accessor_defs ReaderCLI_options_def long_name_def Reader_DEFAULT_PORT_def Reader_DEFAULT_BYTES_COUNT_def
        Reader_DEFAULT_CLIENTS_COUNT_def)
qed

lemma writer_settings:
  assumes "cxxopts_contract C" "new_WriterCLI C argv = Inr cli"
  shows "\<exists>p n. WriterCLI_port C cli = Inr p \<and> WriterCLI_chunk_size C cli = Inr n \<and>
    reads_option (cli_count C cli ''port'') p 6789 \<and> reads_option (cli_count C cli ''chunk_size'') n 1024"
proof -
  note val = cxxopts_nth [OF assms(1) assms(2) [unfolded new_WriterCLI_def parse_or_help_cases, THEN conjunct1] cli_options_facts(3)]
  show ?thesis
    using val(1) [of 0 "''port''" 6789] val(2) [of 1 "''chunk_size''" 1024]
    by (auto simp: cli_accessor_defs WriterCLI_options_def long_name_def Writer_DEFAULT_PORT_def Writer_DEFAULT_CHUNK_SIZE_def)
qed

lemma cli_refusals:
  "new_EchoCLI C argv = Inl e \<Longrightarrow> e = ExitProcess 0 (cli_help C EchoCLI_options @ newline) \<or> (\<exists>what. e = RuntimeError what)"
  "new_ReaderCLI C argv = Inl e \<Longrightarrow> e = ExitProcess 0 (cli_help C ReaderCLI_options @ newline) \<or> (\<exists>what. e = RuntimeError what)"
  "new_WriterCLI C argv = Inl e \<Longrightarrow> e = ExitProcess 0 (cli_help C WriterCLI_options @ newline) \<or> (\<exists>what. e = RuntimeError what)"
  by (auto simp: new_CLI_defs parse_or_help_cases)

text \<open>C29. Whatever the arguments, a program either leaves with its help text and status 0, or is refused by an
  exception of the parser, or reads all its settings without a further exception; a setting that does not
  occur among the arguments has its documented default: port 6789, ten thousand million bytes for the reader
  and one thousand million for the echo pair, ten clients, packets of 1024 bytes.\<close>

theorem command_line_settings:
  assumes "cxxopts_contract C"
  shows "(case new_EchoCLI C argv of
       Inl e \<Rightarrow> e = ExitProcess 0 (cli_help C EchoCLI_options @ newline) \<or> (\<exists>what. e = RuntimeError what)
     | Inr cli \<Rightarrow> \<exists>p b c. EchoCLI_port C cli = Inr p \<and> EchoCLI_bytes_count C cli = Inr b \<and> EchoCLI_clients_count C cli = Inr c \<and>
         reads_option (cli_count C cli ''port'') p 6789 \<and> reads_option (cli_count C cli ''bytes_count'') b 1000000000 \<and>
         reads_option (cli_count C cli ''clients_count'') c 10) \<and>
    (case new_ReaderCLI C argv of
       Inl e \<Rightarrow> e = ExitProcess 0 (cli_help C ReaderCLI_options @ newline) \<or> (\<exists>what. e = RuntimeError what)
     | Inr cli \<Rightarrow> \<exists>p b c. ReaderCLI_port C cli = Inr p \<and> ReaderCLI_bytes_count C cli = Inr b \<and> ReaderCLI_clients_count C cli = Inr c \<and>
         reads_option (cli_count C cli ''port'') p 6789 \<and> reads_option (cli_count C cli ''bytes_count'') b 10000000000 \<and>
         reads_option (cli_count C cli ''clients_count'') c 10) \<and>
    (case new_WriterCLI C argv of
       Inl e \<Rightarrow> e = ExitProcess 0 (cli_help C WriterCLI_options @ newline) \<or> (\<exists>what. e = RuntimeError what)
     | Inr cli \<Rightarrow> \<exists>p n. WriterCLI_port C cli = Inr p \<and> WriterCLI_chunk_size C cli = Inr n \<and>
         reads_option (cli_count C cli ''port'') p 6789 \<and> reads_option (cli_count C cli ''chunk_size'') n 1024)"
  by (intro conjI; split sum.split; intro conjI allI impI)
     (use cli_refusals echo_settings [OF assms] reader_settings [OF assms] writer_settings [OF assms] in blast)+

theorem command_line_settings_witness:
  "\<exists>cli n. new_WriterCLI ref_cxxopts [''tcp-writer'', ''--port=8080''] = Inr cli \<and> WriterCLI_chunk_size ref_cxxopts cli = Inr n \<and> unat n = 1024"
proof -
  obtain cli where cli: "new_WriterCLI ref_cxxopts [''tcp-writer'', ''--port=8080''] = Inr cli" "cli_count ref_cxxopts cli ''chunk_size'' = 0"
    by (simp add: new_WriterCLI_def parse_or_help_def ref_cxxopts_def ref_parse_def split_argument_def Let_def WriterCLI_options_def
        long_name_def value_ok_def read_nat_def is_digit_def digits_value_def)
  from command_line_settings [OF ref_cxxopts_contract, of "[''tcp-writer'', ''--port=8080'']"] cli show ?thesis
    by (auto simp: reads_option_def)
qed

end
