(* ===== verification/Requests.thy ===== *)
theory Requests
  imports Ringnet_Prelude
begin

text \<open>
  \<open>include/ringnet/uring/requests.hpp\<close>: the request structures handed to io_uring. Every structure
  starts with a \<open>RequestHeader\<close>, so the \<open>user_data\<close> of a completion can be read back as a header
  before the request's own type is known. \<open>request\<close> is the tagged view of the five structures: the
  constructor is the static C++ type, the header's \<open>op\<close> field is the run-time tag.
\<close>

definition HEADER_MAGIC_VALUE :: "32 word" where
  "HEADER_MAGIC_VALUE = 0xA1B2C3D4"

datatype Operation = ACCEPT | CONNECT | READ | READ_MULTISHOT | WRITE

primrec op_code :: "Operation \<Rightarrow> 32 word" where
  "op_code ACCEPT = 0xA1A1A1A1"
| "op_code CONNECT = 0xB2B2B2B2"
| "op_code READ = 0xC3C3C3C3"
| "op_code READ_MULTISHOT = 0xD4D4D4D4"
| "op_code WRITE = 0xE5E5E5E5"

declare op_code.simps [simp del]

text \<open>The \<open>switch\<close> on a header's \<open>op\<close>: the \<open>case\<close> label that matches, \<open>None\<close> for \<open>default\<close>.\<close>

definition operation_of :: "32 word \<Rightarrow> Operation option" where
  "operation_of w =
     (if w = op_code ACCEPT then Some ACCEPT
      else if w = op_code CONNECT then Some CONNECT
      else if w = op_code READ then Some READ
      else if w = op_code READ_MULTISHOT then Some READ_MULTISHOT
      else if w = op_code WRITE then Some WRITE
      else None)"

lemma operation_of_op_code [simp]: "operation_of (op_code k) = Some k"
  by (cases k) (simp_all add: operation_of_def op_code.simps)

lemma operation_of_Some: "operation_of w = Some k \<longleftrightarrow> w = op_code k"
proof
  assume "operation_of w = Some k"
  then show "w = op_code k"
    by (auto simp: operation_of_def split: if_splits)
qed simp

lemma op_code_inject [simp]: "op_code a = op_code b \<longleftrightarrow> a = b"
  by (metis operation_of_op_code option.inject)

section \<open>Structures\<close>

record RequestHeader =
  magic :: "32 word"
  op :: "32 word"
  user_data :: ptr

definition RequestHeader_of :: "Operation \<Rightarrow> RequestHeader" where
  "RequestHeader_of k = \<lparr>magic = HEADER_MAGIC_VALUE, op = op_code k, user_data = nullptr\<rparr>"

definition valid :: "RequestHeader \<Rightarrow> bool" where
  "valid h \<longleftrightarrow> magic h = HEADER_MAGIC_VALUE"

record AcceptRequest =
  accept_header :: RequestHeader
  listening_socket_fd :: int

record ConnectRequest =
  connect_header :: RequestHeader
  connect_fd :: int
  connect_addr :: ptr
  connect_addrlen :: nat

record ReadRequest =
  read_header :: RequestHeader
  read_fd :: int
  reception_buffer :: span

record MultiShotReadRequest =
  multishot_header :: RequestHeader
  multishot_fd :: int
  buffer_group_id :: "16 word"

record WriteRequest =
  write_header :: RequestHeader
  write_fd :: int
  bytes_written :: span

text \<open>Default-constructed requests (the default member initialisers).\<close>

definition empty_span :: span where
  "empty_span = \<lparr>sp_base = nullptr, sp_len = 0\<rparr>"

definition new_AcceptRequest :: AcceptRequest where
  "new_AcceptRequest = \<lparr>accept_header = RequestHeader_of ACCEPT, listening_socket_fd = -1\<rparr>"

definition new_ConnectRequest :: ConnectRequest where
  "new_ConnectRequest =
     \<lparr>connect_header = RequestHeader_of CONNECT, connect_fd = -1, connect_addr = nullptr, connect_addrlen = 0\<rparr>"

definition new_ReadRequest :: ReadRequest where
  "new_ReadRequest = \<lparr>read_header = RequestHeader_of READ, read_fd = -1, reception_buffer = empty_span\<rparr>"

definition new_MultiShotReadRequest :: MultiShotReadRequest where
  "new_MultiShotReadRequest =
     \<lparr>multishot_header = RequestHeader_of READ_MULTISHOT, multishot_fd = -1, buffer_group_id = -1\<rparr>"

definition new_WriteRequest :: WriteRequest where
  "new_WriteRequest = \<lparr>write_header = RequestHeader_of WRITE, write_fd = -1, bytes_written = empty_span\<rparr>"

datatype request =
    AcceptR AcceptRequest
  | ConnectR ConnectRequest
  | ReadR ReadRequest
  | MultiShotReadR MultiShotReadRequest
  | WriteR WriteRequest

text \<open>The static type of a request, and the header every structure starts with.\<close>

primrec kind :: "request \<Rightarrow> Operation" where
  "kind (AcceptR r) = ACCEPT"
| "kind (ConnectR r) = CONNECT"
| "kind (ReadR r) = READ"
| "kind (MultiShotReadR r) = READ_MULTISHOT"
| "kind (WriteR r) = WRITE"

primrec header :: "request \<Rightarrow> RequestHeader" where
  "header (AcceptR r) = accept_header r"
| "header (ConnectR r) = connect_header r"
| "header (ReadR r) = read_header r"
| "header (MultiShotReadR r) = multishot_header r"
| "header (WriteR r) = write_header r"

text \<open>\<open>request.header.user_data = p\<close>, for a request of any type.\<close>

primrec set_user_data :: "ptr \<Rightarrow> request \<Rightarrow> request" where
  "set_user_data p (AcceptR r) = AcceptR (r\<lparr>accept_header := (accept_header r)\<lparr>user_data := p\<rparr>\<rparr>)"
| "set_user_data p (ConnectR r) = ConnectR (r\<lparr>connect_header := (connect_header r)\<lparr>user_data := p\<rparr>\<rparr>)"
| "set_user_data p (ReadR r) = ReadR (r\<lparr>read_header := (read_header r)\<lparr>user_data := p\<rparr>\<rparr>)"
| "set_user_data p (MultiShotReadR r) =
     MultiShotReadR (r\<lparr>multishot_header := (multishot_header r)\<lparr>user_data := p\<rparr>\<rparr>)"
| "set_user_data p (WriteR r) = WriteR (r\<lparr>write_header := (write_header r)\<lparr>user_data := p\<rparr>\<rparr>)"

text \<open>\<open>sizeof\<close> of the five structures on an LP64 target (16-byte header, 16-byte span).\<close>

primrec sizeof_request :: "Operation \<Rightarrow> nat" where
  "sizeof_request ACCEPT = 24"
| "sizeof_request CONNECT = 40"
| "sizeof_request READ = 40"
| "sizeof_request READ_MULTISHOT = 24"
| "sizeof_request WRITE = 40"

text \<open>
  Access through a pointer of a given static type: reading a request as another structure than the
  one stored there is undefined.
\<close>

definition as_AcceptRequest :: "ptr \<Rightarrow> request \<Rightarrow> stop + AcceptRequest" where
  "as_AcceptRequest p r = (case r of AcceptR q \<Rightarrow> Inr q | _ \<Rightarrow> Inl (BadCast p))"

definition as_ConnectRequest :: "ptr \<Rightarrow> request \<Rightarrow> stop + ConnectRequest" where
  "as_ConnectRequest p r = (case r of ConnectR q \<Rightarrow> Inr q | _ \<Rightarrow> Inl (BadCast p))"

definition as_ReadRequest :: "ptr \<Rightarrow> request \<Rightarrow> stop + ReadRequest" where
  "as_ReadRequest p r = (case r of ReadR q \<Rightarrow> Inr q | _ \<Rightarrow> Inl (BadCast p))"

definition as_MultiShotReadRequest :: "ptr \<Rightarrow> request \<Rightarrow> stop + MultiShotReadRequest" where
  "as_MultiShotReadRequest p r = (case r of MultiShotReadR q \<Rightarrow> Inr q | _ \<Rightarrow> Inl (BadCast p))"

definition as_WriteRequest :: "ptr \<Rightarrow> request \<Rightarrow> stop + WriteRequest" where
  "as_WriteRequest p r = (case r of WriteR q \<Rightarrow> Inr q | _ \<Rightarrow> Inl (BadCast p))"

lemmas as_request_defs = as_AcceptRequest_def as_ConnectRequest_def as_ReadRequest_def
  as_MultiShotReadRequest_def as_WriteRequest_def

lemma as_request_simps [simp]:
  "as_AcceptRequest p (AcceptR a) = Inr a"
  "as_ConnectRequest p (ConnectR c) = Inr c"
  "as_ReadRequest p (ReadR d) = Inr d"
  "as_MultiShotReadRequest p (MultiShotReadR m) = Inr m"
  "as_WriteRequest p (WriteR w) = Inr w"
  by (simp_all add: as_request_defs)

section \<open>The type invariant of a request\<close>

text \<open>
  The run-time tag agrees with the static type and the magic number is intact: what makes the
  \<open>reinterpret_cast\<close>s on \<open>cqe->user_data\<close> land on the right structure.
\<close>

definition wf_request :: "request \<Rightarrow> bool" where
  "wf_request r \<longleftrightarrow> valid (header r) \<and> op (header r) = op_code (kind r)"

lemma kind_set_user_data [simp]: "kind (set_user_data p r) = kind r"
  by (cases r) simp_all

lemma header_set_user_data [simp]: "header (set_user_data p r) = (header r)\<lparr>user_data := p\<rparr>"
  by (cases r) simp_all

lemma wf_set_user_data [simp]: "wf_request (set_user_data p r) = wf_request r"
  by (simp add: wf_request_def valid_def)

lemma valid_RequestHeader_of [simp]:
  "valid (RequestHeader_of k)" "op (RequestHeader_of k) = op_code k"
  by (simp_all add: valid_def RequestHeader_of_def)

lemma wf_request_operation: "wf_request r \<Longrightarrow> operation_of (op (header r)) = Some (kind r)"
  by (simp add: wf_request_def)

lemma sizeof_request_pos [simp]: "0 < sizeof_request k"
  by (cases k) simp_all

section \<open>Stream output\<close>

primrec print_request :: "request \<Rightarrow> string" where
  "print_request (AcceptR r) = ''accept request for listening socket '' @ show_int (listening_socket_fd r)"
| "print_request (ConnectR r) = ''connect request for socket '' @ show_int (connect_fd r)"
| "print_request (ReadR r) =
     ''single shot read request using buffer of size '' @ show_nat (sp_len (reception_buffer r)) @
     '' bytes for socket '' @ show_int (read_fd r)"
| "print_request (MultiShotReadR r) =
     ''multi shot read request using buffer group ID '' @ show_nat (unat (buffer_group_id r)) @
     '' for socket '' @ show_int (multishot_fd r)"
| "print_request (WriteR r) =
     ''write request of '' @ show_nat (sp_len (bytes_written r)) @ '' bytes for socket '' @
     show_int (write_fd r)"

section \<open>Property of the requests\<close>

text \<open>The tag in a request's header identifies its type: five distinct 32-bit codes, each decoded by
  the dispatch to the type that was encoded and no other code decoded to any type; a default-constructed
  request of each type carries the tag of that type and the magic value.\<close>

lemma request_tags_identify_types:
  "(operation_of w = Some k \<longleftrightarrow> w = op_code k) \<and>
   wf_request (AcceptR new_AcceptRequest) \<and> wf_request (ConnectR new_ConnectRequest) \<and> wf_request (ReadR new_ReadRequest) \<and>
   wf_request (MultiShotReadR new_MultiShotReadRequest) \<and> wf_request (WriteR new_WriteRequest)"
  by (simp add: operation_of_Some wf_request_def new_AcceptRequest_def new_ConnectRequest_def new_ReadRequest_def
      new_MultiShotReadRequest_def new_WriteRequest_def)

end
