(* ===== verification/Request_Pool.thy ===== *)
theory Request_Pool
  imports Ringnet_Prelude
begin

text \<open>
  \<open>include/ringnet/uring/requestPool.hpp\<close>: typed allocation on top of a
  \<open>std::pmr::unsynchronized_pool_resource\<close>. The pool hands out blocks of a given size, keeps the
  blocks given back and reuses them for later requests of the same size, so a stale pointer can
  come to denote another request. Reads, writes and deallocations of an address that is not a live
  block of the right size are undefined behaviour in C++ and stop the model.

  The same structure serves as the C++ heap for the objects \<open>std::make_unique\<close> creates.
\<close>

record 'a pool =
  blocks :: "(ptr \<times> (nat \<times> 'a option)) list"
  free_blocks :: "(ptr \<times> nat) list"
  pool_brk :: ptr

definition empty_pool :: "'a pool" where
  "empty_pool = \<lparr>blocks = [], free_blocks = [], pool_brk = 1\<rparr>"

definition allocate :: "nat \<Rightarrow> 'a pool \<Rightarrow> ptr \<times> 'a pool" where
  "allocate sz p =
     (case find (\<lambda>b. snd b = sz) (free_blocks p) of
        Some b \<Rightarrow> (fst b, p\<lparr>free_blocks := remove1 b (free_blocks p),
                           blocks := (fst b, (sz, None)) # blocks p\<rparr>)
      | None \<Rightarrow> (pool_brk p, p\<lparr>pool_brk := pool_brk p + sz,
                              blocks := (pool_brk p, (sz, None)) # blocks p\<rparr>))"

definition deallocate :: "nat \<Rightarrow> ptr \<Rightarrow> 'a pool \<Rightarrow> stop + 'a pool" where
  "deallocate sz a p =
     (case map_of (blocks p) a of
        Some (s, _) \<Rightarrow>
          (if s = sz
           then Inr (p\<lparr>blocks := filter (\<lambda>b. fst b \<noteq> a) (blocks p), free_blocks := (a, sz) # free_blocks p\<rparr>)
           else Inl (BadFree a))
      | None \<Rightarrow> Inl (BadFree a))"

text \<open>\<open>*ptr = value\<close> and the read \<open>*ptr\<close>.\<close>

definition store :: "ptr \<Rightarrow> 'a \<Rightarrow> 'a pool \<Rightarrow> stop + 'a pool" where
  "store a v p =
     (if a = nullptr then Inl NullDeref
      else case map_of (blocks p) a of
        Some (s, _) \<Rightarrow> Inr (p\<lparr>blocks := map (\<lambda>b. if fst b = a then (a, (fst (snd b), Some v)) else b) (blocks p)\<rparr>)
      | None \<Rightarrow> Inl (UseAfterFree a))"

definition deref :: "'a pool \<Rightarrow> ptr \<Rightarrow> stop + 'a" where
  "deref p a =
     (if a = nullptr then Inl NullDeref
      else case map_of (blocks p) a of
        Some (s, Some v) \<Rightarrow> Inr v
      | Some (s, None) \<Rightarrow> Inl (Uninitialised a)
      | None \<Rightarrow> Inl (UseAfterFree a))"

section \<open>Abstraction and invariant\<close>

definition live :: "'a pool \<Rightarrow> ptr set" where
  "live p = set (map fst (blocks p))"

definition block_size :: "'a pool \<Rightarrow> ptr \<Rightarrow> nat option" where
  "block_size p a = map_option fst (map_of (blocks p) a)"

definition contents :: "'a pool \<Rightarrow> ptr \<Rightarrow> 'a option" where
  "contents p a = Option.bind (map_of (blocks p) a) snd"

definition freed :: "'a pool \<Rightarrow> ptr set" where
  "freed p = set (map fst (free_blocks p))"

definition pool_inv :: "'a pool \<Rightarrow> bool" where
  "pool_inv p \<longleftrightarrow>
     distinct (map fst (blocks p)) \<and> distinct (map fst (free_blocks p)) \<and>
     live p \<inter> freed p = {} \<and>
     (\<forall>a \<in> live p \<union> freed p. 0 < a \<and> a < pool_brk p) \<and>
     0 < pool_brk p"

lemma pool_inv_empty [simp]: "pool_inv empty_pool"
  by (simp add: pool_inv_def empty_pool_def live_def freed_def)

lemma find_in_set: "find P xs = Some x \<Longrightarrow> x \<in> set xs \<and> P x"
  by (auto simp: find_Some_iff)

lemma distinct_map_remove1:
  assumes "distinct (map f xs)" "x \<in> set xs"
  shows "distinct (map f (remove1 x xs))" "f x \<notin> set (map f (remove1 x xs))"
    "set (map f (remove1 x xs)) \<subseteq> set (map f xs)"
proof -
  have d: "distinct xs" and i: "inj_on f (set xs)" using assms(1) by (simp_all add: distinct_map)
  show "distinct (map f (remove1 x xs))"
    using d i by (auto simp: distinct_map inj_on_diff)
  show "f x \<notin> set (map f (remove1 x xs))"
    using d i assms(2) by (auto simp: inj_on_def)
  show "set (map f (remove1 x xs)) \<subseteq> set (map f xs)"
    using set_remove1_subset by fastforce
qed

lemma allocate_cases:
  assumes "allocate sz p = (a, p')"
  obtains (reuse) "(a, sz) \<in> set (free_blocks p)"
      "p' = p\<lparr>free_blocks := remove1 (a, sz) (free_blocks p), blocks := (a, (sz, None)) # blocks p\<rparr>"
  | (grow) "a = pool_brk p" "p' = p\<lparr>pool_brk := pool_brk p + sz, blocks := (a, (sz, None)) # blocks p\<rparr>"
proof (cases "find (\<lambda>b. snd b = sz) (free_blocks p)")
  case None
  with assms show ?thesis by (intro grow) (auto simp: allocate_def)
next
  case (Some b)
  then have "b \<in> set (free_blocks p)" "snd b = sz" by (auto dest: find_in_set)
  with Some assms show ?thesis
    by (intro reuse) (auto simp: allocate_def)
qed

lemma allocate_fresh:
  assumes "pool_inv p" "allocate sz p = (a, p')"
  shows "a \<notin> live p \<and> a \<noteq> nullptr"
  using assms(2)
proof (cases rule: allocate_cases)
  case reuse
  then have "a \<in> freed p" by (force simp: freed_def)
  with assms(1) show ?thesis unfolding pool_inv_def by blast
next
  case grow
  with assms(1) show ?thesis unfolding pool_inv_def by blast
qed

lemma allocate_inv:
  assumes "pool_inv p" "allocate sz p = (a, p')" "0 < sz"
  shows "pool_inv p'"
proof -
  have fresh: "a \<notin> set (map fst (blocks p))" and pos: "a \<noteq> 0"
    using allocate_fresh [OF assms(1,2)] by (simp_all add: live_def)
  from assms(2) show ?thesis
  proof (cases rule: allocate_cases)
    case reuse
    have d: "distinct (map fst (free_blocks p))" using assms(1) by (simp add: pool_inv_def)
    have a: "a \<in> freed p" using reuse(1) by (force simp: freed_def)
    have views: "live p' = insert a (live p)" "freed p' \<subseteq> freed p" "a \<notin> freed p'"
        "pool_brk p' = pool_brk p"
      using distinct_map_remove1 [OF d reuse(1)] unfolding reuse(2) by (simp_all add: live_def freed_def)
    have dist: "distinct (map fst (blocks p'))" "distinct (map fst (free_blocks p'))"
      using assms(1) fresh distinct_map_remove1 [OF d reuse(1)] unfolding reuse(2)
      by (simp_all add: pool_inv_def)
    have inv: "live p \<inter> freed p = {}" "\<And>x. x \<in> live p \<union> freed p \<Longrightarrow> 0 < x \<and> x < pool_brk p"
      using assms(1) by (simp_all add: pool_inv_def)
    have "live p' \<inter> freed p' = {}"
      using inv(1) views(2,3) unfolding views(1) by blast
    moreover have "\<forall>x \<in> live p' \<union> freed p'. 0 < x \<and> x < pool_brk p'"
    proof
      fix x assume "x \<in> live p' \<union> freed p'"
      then have "x \<in> live p \<union> freed p" using a views(1,2) by auto
      then show "0 < x \<and> x < pool_brk p'" using inv(2) views(4) by simp
    qed
    ultimately show ?thesis
      using assms(1) dist views(4) unfolding pool_inv_def by simp
  next
    case grow
    have views: "live p' = insert a (live p)" "freed p' = freed p" "pool_brk p' = pool_brk p + sz"
      unfolding grow by (simp_all add: live_def freed_def)
    have dist: "distinct (map fst (blocks p'))" "distinct (map fst (free_blocks p'))"
      using assms(1) fresh unfolding grow by (simp_all add: pool_inv_def)
    have "\<forall>x \<in> live p \<union> freed p. x < pool_brk p" using assms(1) by (simp add: pool_inv_def)
    then have "\<forall>x \<in> live p' \<union> freed p'. x < pool_brk p'" "a \<notin> freed p'"
      using assms(3) unfolding views grow(1) by (auto simp: trans_less_add1)
    then show ?thesis
      using assms(1) pos views dist unfolding pool_inv_def by auto
  qed
qed

lemma allocate_views:
  assumes "allocate sz p = (a, p')"
  shows "live p' = insert a (live p)"
    "block_size p' = (block_size p)(a \<mapsto> sz)"
    "contents p' = (contents p)(a := None)"
  using assms
  by (cases rule: allocate_cases; simp add: live_def block_size_def contents_def fun_eq_iff)+

lemma map_of_assign:
  "map_of (map (\<lambda>b. if fst b = a then (a, (fst (snd b), Some v)) else b) xs) =
     (map_of xs)(a := map_option (\<lambda>b. (fst b, Some v)) (map_of xs a))"
  by (induction xs) (auto simp: fun_eq_iff)

lemma store_views:
  assumes "a \<in> live p" "a \<noteq> nullptr"
  obtains p' where "store a v p = Inr p'" "live p' = live p" "block_size p' = block_size p"
    "contents p' = (contents p)(a \<mapsto> v)" "pool_inv p \<Longrightarrow> pool_inv p'"
proof -
  from assms obtain s c where m: "map_of (blocks p) a = Some (s, c)"
    unfolding live_def by (metis map_of_None_iff_fst not_None_eq surj_pair)
  let ?p' = "p\<lparr>blocks := map (\<lambda>b. if fst b = a then (a, (fst (snd b), Some v)) else b) (blocks p)\<rparr>"
  have eq: "store a v p = Inr ?p'" using m assms(2) by (simp add: store_def)
  have keys: "map fst (blocks ?p') = map fst (blocks p)" by simp
  then have live: "live ?p' = live p" by (simp only: live_def)
  have look: "map_of (blocks ?p') = (map_of (blocks p))(a \<mapsto> (s, Some v))"
    using m by (simp add: map_of_assign)
  have size: "block_size ?p' = block_size p"
    using m unfolding block_size_def look by (auto simp: fun_eq_iff)
  have conts: "contents ?p' = (contents p)(a \<mapsto> v)"
    unfolding contents_def look by (auto simp: fun_eq_iff)
  have inv: "pool_inv ?p'" if "pool_inv p"
    using that unfolding pool_inv_def live keys by (simp add: freed_def)
  show thesis using that eq live size conts inv by blast
qed

lemma deallocate_views:
  assumes "block_size p a = Some sz"
  obtains p' where "deallocate sz a p = Inr p'" "live p' = live p - {a}"
    "block_size p' = (block_size p)(a := None)" "contents p' = (contents p)(a := None)"
    "pool_inv p \<Longrightarrow> pool_inv p'"
proof -
  from assms obtain c where m: "map_of (blocks p) a = Some (sz, c)"
    by (auto simp: block_size_def)
  let ?p' = "p\<lparr>blocks := filter (\<lambda>b. fst b \<noteq> a) (blocks p), free_blocks := (a, sz) # free_blocks p\<rparr>"
  have eq: "deallocate sz a p = Inr ?p'" using m by (simp add: deallocate_def)
  have live: "live ?p' = live p - {a}" by (auto simp: live_def map_fst_filter_key)
  have a: "a \<in> set (map fst (blocks p))" using m by (metis map_of_None_iff_fst option.discI)
  have inv: "pool_inv ?p'" if "pool_inv p"
  proof -
    have "freed ?p' = insert a (freed p)" "a \<in> live p" "a \<notin> freed p" "pool_brk ?p' = pool_brk p"
      using that a by (auto simp: freed_def live_def pool_inv_def)
    moreover have "distinct (map fst (blocks ?p'))" "distinct (map fst (free_blocks ?p'))"
      using that \<open>a \<notin> freed p\<close> by (simp_all add: pool_inv_def freed_def map_fst_filter_key)
    ultimately show ?thesis using that live unfolding pool_inv_def by auto
  qed
  show thesis
    using that eq live inv by (simp add: block_size_def contents_def map_of_filter_key fun_eq_iff)
qed

lemma deallocate_dead: "block_size p a \<noteq> Some sz \<Longrightarrow> deallocate sz a p = Inl (BadFree a)"
  by (auto simp: block_size_def deallocate_def split: option.splits)

lemma store_twice:
  assumes "store a v p = Inr p1"
  shows "store a w p1 = store a w p"
proof -
  obtain s c where m: "a \<noteq> nullptr" "map_of (blocks p) a = Some (s, c)"
    and p1: "p1 = p\<lparr>blocks := map (\<lambda>b. if fst b = a then (a, (fst (snd b), Some v)) else b) (blocks p)\<rparr>"
    using assms by (auto simp: store_def split: if_splits option.splits)
  have "map_of (blocks p1) a = Some (s, Some v)" using m unfolding p1 by (simp add: map_of_assign)
  with m show ?thesis unfolding p1 by (simp add: store_def)
qed

lemma store_same:
  assumes "pool_inv p" "deref p a = Inr v"
  shows "store a v p = Inr p"
proof -
  obtain s where m: "a \<noteq> nullptr" "map_of (blocks p) a = Some (s, Some v)"
    using assms(2) by (auto simp: deref_def split: if_splits option.splits)
  have d: "distinct (map fst (blocks p))" using assms(1) by (simp add: pool_inv_def)
  have "map (\<lambda>b. if fst b = a then (a, (fst (snd b), Some v)) else b) (blocks p) = blocks p"
  proof (intro map_idI)
    fix b assume "b \<in> set (blocks p)"
    with d m(2) show "(if fst b = a then (a, (fst (snd b), Some v)) else b) = b"
      by (cases b) (fastforce dest: map_of_is_SomeI)
  qed
  with m show ?thesis by (simp add: store_def)
qed

lemma deref_contents: "deref p a = Inr v \<longleftrightarrow> a \<noteq> nullptr \<and> contents p a = Some v"
  by (auto simp: deref_def contents_def split: option.splits)

lemma deref_null [simp]: "deref p nullptr = Inl NullDeref"
  by (simp add: deref_def)

lemma contents_live: "contents p a = Some v \<Longrightarrow> a \<in> live p"
  unfolding contents_def live_def
  by (metis Option.bind.simps(1) map_of_None_iff_fst option.discI)

lemma pool_inv_live_nonnull: "pool_inv p \<Longrightarrow> a \<in> live p \<Longrightarrow> a \<noteq> nullptr"
  unfolding pool_inv_def by blast

lemma store_deref:
  assumes "pool_inv p" "deref p a = Inr v"
  obtains p' where "store a w p = Inr p'" "pool_inv p'" "contents p' = (contents p)(a \<mapsto> w)"
    "block_size p' = block_size p"
proof -
  have "a \<in> live p" "a \<noteq> nullptr" using assms(2) contents_live [of p a] by (auto simp: deref_contents)
  with store_views [of a p w] assms(1) show thesis using that by metis
qed

section \<open>The pool as a store of objects\<close>

text \<open>
  What the clients of the pool (the submission queue, \<open>std::make_unique\<close>) rely on: a new object gets
  an address no live object has, assigning one object leaves every other one alone, and an object
  can be given back once.
\<close>

locale object_store =
  fixes alloc :: "nat \<Rightarrow> 's \<Rightarrow> ptr \<times> 's"
    and free :: "nat \<Rightarrow> ptr \<Rightarrow> 's \<Rightarrow> stop + 's"
    and put :: "ptr \<Rightarrow> 'a \<Rightarrow> 's \<Rightarrow> stop + 's"
    and size_at :: "'s \<Rightarrow> ptr \<Rightarrow> nat option"
    and value_at :: "'s \<Rightarrow> ptr \<Rightarrow> 'a option"
    and inv :: "'s \<Rightarrow> bool"
  assumes alloc_new: "inv s \<Longrightarrow> 0 < sz \<Longrightarrow> alloc sz s = (a, s') \<Longrightarrow>
      a \<noteq> nullptr \<and> size_at s a = None \<and> inv s' \<and>
      size_at s' = (size_at s)(a \<mapsto> sz) \<and> value_at s' = (value_at s)(a := None)"
    and put_live: "inv s \<Longrightarrow> size_at s a = Some sz \<Longrightarrow>
      \<exists>s'. put a v s = Inr s' \<and> inv s' \<and> size_at s' = size_at s \<and> value_at s' = (value_at s)(a \<mapsto> v)"
    and free_live: "inv s \<Longrightarrow> size_at s a = Some sz \<Longrightarrow>
      \<exists>s'. free sz a s = Inr s' \<and> inv s' \<and> size_at s' = (size_at s)(a := None) \<and>
           value_at s' = (value_at s)(a := None)"
    and free_dead: "size_at s a \<noteq> Some sz \<Longrightarrow> free sz a s = Inl (BadFree a)"
    and value_sized: "value_at s a = Some v \<Longrightarrow> size_at s a \<noteq> None"
begin

lemma new_object:
  assumes "inv s" "0 < sz" "alloc sz s = (a, s1)"
  obtains s2 where "put a v s1 = Inr s2" "inv s2" "a \<noteq> nullptr" "size_at s a = None"
    "size_at s2 = (size_at s)(a \<mapsto> sz)" "value_at s2 = (value_at s)(a \<mapsto> v)"
proof -
  note n = alloc_new [OF assms]
  then obtain s2 where "put a v s1 = Inr s2" "inv s2" "size_at s2 = size_at s1"
      "value_at s2 = (value_at s1)(a \<mapsto> v)"
    using put_live [of s1 a sz v] by auto
  with n show thesis using that by simp
qed

lemma new_object_keeps_others:
  assumes "inv s" "0 < sz" "alloc sz s = (a, s1)" "put a v s1 = Inr s2" "value_at s b = Some w"
  shows "value_at s2 b = Some w" "a \<noteq> b"
proof -
  obtain s2' where *: "put a v s1 = Inr s2'" "size_at s a = None"
      "value_at s2' = (value_at s)(a \<mapsto> v)"
    using new_object [OF assms(1-3)] by metis
  show "a \<noteq> b" using value_sized [OF assms(5)] *(2) by auto
  with * assms(4,5) show "value_at s2 b = Some w" by auto
qed

lemma free_once:
  assumes "inv s" "size_at s a = Some sz" "free sz a s = Inr s'"
  shows "free sz a s' = Inl (BadFree a)" "value_at s' a = None"
proof -
  obtain s'' where "free sz a s = Inr s''" "size_at s'' = (size_at s)(a := None)"
      "value_at s'' = (value_at s)(a := None)"
    using free_live [OF assms(1,2)] by blast
  with assms(3) show "free sz a s' = Inl (BadFree a)" "value_at s' a = None"
    using free_dead [of s' a sz] by auto
qed

end

lemma block_size_None: "block_size p a = None \<longleftrightarrow> a \<notin> live p"
  by (simp add: block_size_def live_def map_of_eq_None_iff)

lemma live_dom: "live p = dom (block_size p)"
proof (rule set_eqI)
  show "a \<in> live p \<longleftrightarrow> a \<in> dom (block_size p)" for a
    using block_size_None [of p a] by (simp add: domIff)
qed

interpretation pool: object_store allocate deallocate store block_size contents pool_inv
proof
  fix p p' :: "'a pool" and sz a
  assume *: "pool_inv p" "0 < sz" "allocate sz p = (a, p')"
  show "a \<noteq> nullptr \<and> block_size p a = None \<and> pool_inv p' \<and>
      block_size p' = (block_size p)(a \<mapsto> sz) \<and> contents p' = (contents p)(a := None)"
    using allocate_fresh [OF *(1,3)] allocate_inv [OF *(1,3,2)] allocate_views [OF *(3)]
    by (simp add: block_size_None)
next
  fix p :: "'a pool" and a sz v
  assume *: "pool_inv p" "block_size p a = Some sz"
  have "a \<in> live p" using *(2) block_size_None [of p a] by simp
  then show "\<exists>p'. store a v p = Inr p' \<and> pool_inv p' \<and> block_size p' = block_size p \<and>
      contents p' = (contents p)(a \<mapsto> v)"
    using * store_views [of a p v] pool_inv_live_nonnull [of p a] by metis
next
  fix p :: "'a pool" and a sz
  assume "pool_inv p" "block_size p a = Some sz"
  then show "\<exists>p'. deallocate sz a p = Inr p' \<and> pool_inv p' \<and>
      block_size p' = (block_size p)(a := None) \<and> contents p' = (contents p)(a := None)"
    by (metis deallocate_views)
next
  fix p :: "'a pool" and a sz
  assume "block_size p a \<noteq> Some sz"
  then show "deallocate sz a p = Inl (BadFree a)" by (rule deallocate_dead)
next
  fix p :: "'a pool" and a v
  assume "contents p a = Some v"
  then show "block_size p a \<noteq> None" by (simp add: block_size_None contents_live)
qed

section \<open>One object of a heap\<close>

text \<open>An object in memory: what reading and writing it promise, as long as it lives.\<close>

locale memory_cell =
  fixes get :: "'w \<Rightarrow> stop + 'a"
    and put :: "'a \<Rightarrow> 'w \<Rightarrow> stop + 'w"
    and ok :: "'w \<Rightarrow> bool"
  assumes put_total: "ok w \<Longrightarrow> get w = Inr a \<Longrightarrow> \<exists>w'. put b w = Inr w' \<and> ok w' \<and> get w' = Inr b"
    and put_put: "put a w = Inr w' \<Longrightarrow> put b w' = put b w"
    and put_same: "ok w \<Longrightarrow> get w = Inr a \<Longrightarrow> put a w = Inr w"
begin

lemma put_get: "ok w \<Longrightarrow> get w = Inr a \<Longrightarrow> put b w = Inr w' \<Longrightarrow> ok w' \<and> get w' = Inr b"
  using put_total [of w a b] by auto

end

text \<open>A heap is a pool kept in a field of the state of the program.\<close>

locale object_heap =
  fixes pool_of :: "'w \<Rightarrow> 'a pool"
    and set_pool :: "'a pool \<Rightarrow> 'w \<Rightarrow> 'w"
  assumes pool_of_set: "pool_of (set_pool q w) = q"
    and set_set: "set_pool q (set_pool q' w) = set_pool q w"
    and set_same: "set_pool (pool_of w) w = w"
begin

lemma object_at:
  "memory_cell (\<lambda>w. deref (pool_of w) p) (\<lambda>v w. bindE (store p v (pool_of w)) (\<lambda>q. Inr (set_pool q w)))
     (\<lambda>w. pool_inv (pool_of w))"
proof
  fix w a b
  assume *: "pool_inv (pool_of w)" "deref (pool_of w) p = Inr a"
  obtain q where "store p b (pool_of w) = Inr q" "pool_inv q" "contents q = (contents (pool_of w))(p \<mapsto> b)"
    using store_deref [OF *] by metis
  moreover have "p \<noteq> nullptr" using *(2) by (simp add: deref_contents)
  ultimately show "\<exists>w'. bindE (store p b (pool_of w)) (\<lambda>q. Inr (set_pool q w)) = Inr w' \<and> pool_inv (pool_of w') \<and>
      deref (pool_of w') p = Inr b"
    by (simp add: pool_of_set deref_contents)
next
  fix a b w w'
  assume "bindE (store p a (pool_of w)) (\<lambda>q. Inr (set_pool q w)) = Inr w'"
  then obtain q where "store p a (pool_of w) = Inr q" "w' = set_pool q w" by (auto simp: res_simps)
  then show "bindE (store p b (pool_of w')) (\<lambda>q. Inr (set_pool q w')) = bindE (store p b (pool_of w)) (\<lambda>q. Inr (set_pool q w))"
    using store_twice [of p a "pool_of w" q b] by (simp add: pool_of_set set_set)
next
  fix w a
  assume "pool_inv (pool_of w)" "deref (pool_of w) p = Inr a"
  then show "bindE (store p a (pool_of w)) (\<lambda>q. Inr (set_pool q w)) = Inr w"
    using store_same [of "pool_of w" p a] by (simp add: set_same)
qed

end

section \<open>Property of the pool\<close>

text \<open>The life of a pooled object: a block is handed out at an address no live object has, holds what
  is written there while every other object keeps its value, can be given back once, and giving it back
  a second time is an error the pool does not survive.\<close>

lemma pool_object_life:
  assumes "pool_inv p" "0 < sz" "allocate sz p = (a, p1)"
  shows "\<exists>p2 p3. store a v p1 = Inr p2 \<and> deref p2 a = Inr v \<and> a \<notin> live p \<and>
     (\<forall>b u. deref p b = Inr u \<longrightarrow> deref p2 b = Inr u) \<and>
     deallocate sz a p2 = Inr p3 \<and> pool_inv p3 \<and> contents p3 = contents p \<and> deallocate sz a p3 = Inl (BadFree a)"
proof -
  obtain p2 where p2: "store a v p1 = Inr p2" "pool_inv p2" "a \<noteq> nullptr" "block_size p a = None"
      "block_size p2 = (block_size p)(a \<mapsto> sz)" "contents p2 = (contents p)(a \<mapsto> v)"
    by (rule pool.new_object [OF assms])
  have size: "block_size p2 a = Some sz" using p2(5) by simp
  then obtain p3 where p3: "deallocate sz a p2 = Inr p3" "pool_inv p3" "contents p3 = (contents p2)(a := None)"
    using pool.free_live [OF p2(2) size] by blast
  have fresh: "contents p a = None" using pool.value_sized [of p a] p2(4) by (cases "contents p a") auto
  have restored: "contents p3 = contents p" using p3(3) p2(6) fresh by (auto simp: fun_eq_iff)
  have keep: "\<forall>b u. deref p b = Inr u \<longrightarrow> deref p2 b = Inr u" using p2(6) fresh by (auto simp: deref_contents)
  have "deref p2 a = Inr v" using p2(3,6) by (simp add: deref_contents)
  with p2(1,4) p3(1,2) restored keep pool.free_once(1) [OF p2(2) size p3(1)] show ?thesis
    by (intro exI [of _ p2] exI [of _ p3]) (simp add: block_size_None)
qed

end
