(* ===== verification/Pending_Requests.thy ===== *)
theory Pending_Requests
  imports Requests
begin

text \<open>
  \<open>include/ringnet/uring/pendingRequests.hpp\<close>, at the instance the submission queue uses:
  \<open>PendingRequests<AcceptRequest, ConnectRequest, ReadRequest, MultiShotReadRequest, WriteRequest>\<close>,
  a tuple of one \<open>std::vector\<close> of request pointers per request type.
\<close>

record pending =
  pending_accept :: "ptr list"
  pending_connect :: "ptr list"
  pending_read :: "ptr list"
  pending_multishot :: "ptr list"
  pending_write :: "ptr list"

definition no_pending :: pending where
  "no_pending = \<lparr>pending_accept = [], pending_connect = [], pending_read = [],
                 pending_multishot = [], pending_write = []\<rparr>"

text \<open>\<open>std::get<std::vector<Request *>>(requests).push_back(request)\<close>.\<close>

primrec pending_push :: "Operation \<Rightarrow> ptr \<Rightarrow> pending \<Rightarrow> pending" where
  "pending_push ACCEPT p q = q\<lparr>pending_accept := pending_accept q @ [p]\<rparr>"
| "pending_push CONNECT p q = q\<lparr>pending_connect := pending_connect q @ [p]\<rparr>"
| "pending_push READ p q = q\<lparr>pending_read := pending_read q @ [p]\<rparr>"
| "pending_push READ_MULTISHOT p q = q\<lparr>pending_multishot := pending_multishot q @ [p]\<rparr>"
| "pending_push WRITE p q = q\<lparr>pending_write := pending_write q @ [p]\<rparr>"

definition pending_clear :: "pending \<Rightarrow> pending" where
  "pending_clear q = q\<lparr>pending_accept := [], pending_connect := [], pending_read := [],
                       pending_multishot := [], pending_write := []\<rparr>"

text \<open>
  \<open>for_each\<close> visits the vectors in the order of the tuple and each vector from its first element;
  the visitor is an overload set, chosen by the element type.
\<close>

definition pending_entries :: "pending \<Rightarrow> (Operation \<times> ptr) list" where
  "pending_entries q =
     map (Pair ACCEPT) (pending_accept q) @ map (Pair CONNECT) (pending_connect q) @
     map (Pair READ) (pending_read q) @ map (Pair READ_MULTISHOT) (pending_multishot q) @
     map (Pair WRITE) (pending_write q)"

primrec for_each_entry :: "(Operation \<times> ptr) list \<Rightarrow> (Operation \<Rightarrow> ptr \<Rightarrow> 's \<Rightarrow> stop + 's) \<Rightarrow> 's \<Rightarrow> stop + 's" where
  "for_each_entry [] f s = Inr s"
| "for_each_entry (e # es) f s = bindE (f (fst e) (snd e) s) (for_each_entry es f)"

definition pending_for_each :: "(Operation \<Rightarrow> ptr \<Rightarrow> 's \<Rightarrow> stop + 's) \<Rightarrow> pending \<Rightarrow> 's \<Rightarrow> stop + 's" where
  "pending_for_each f q s = for_each_entry (pending_entries q) f s"

section \<open>A batch of typed entries\<close>

text \<open>
  The contract of the container: within one request type the order of insertion is kept, nothing
  is lost or duplicated, and clearing leaves nothing.
\<close>

locale request_batch =
  fixes add :: "'k \<Rightarrow> 'p \<Rightarrow> 'b \<Rightarrow> 'b"
    and none :: "'b \<Rightarrow> 'b"
    and entries :: "'b \<Rightarrow> ('k \<times> 'p) list"
  assumes entries_add_same: "filter (\<lambda>e. fst e = k) (entries (add k p b)) = filter (\<lambda>e. fst e = k) (entries b) @ [(k, p)]"
    and entries_add_other: "k' \<noteq> k \<Longrightarrow> filter (\<lambda>e. fst e = k') (entries (add k p b)) = filter (\<lambda>e. fst e = k') (entries b)"
    and entries_add_set: "set (entries (add k p b)) = insert (k, p) (set (entries b))"
    and entries_add_length: "length (entries (add k p b)) = Suc (length (entries b))"
    and entries_none: "entries (none b) = []"
begin

lemma fifo_per_kind:
  "filter (\<lambda>e. fst e = k) (entries (fold (\<lambda>e. add (fst e) (snd e)) es b)) =
   filter (\<lambda>e. fst e = k) (entries b) @ filter (\<lambda>e. fst e = k) es"
proof (induction es arbitrary: b)
  case (Cons e es)
  show ?case
  proof (cases "fst e = k")
    case True
    have "(k, snd e) = e" using True by (cases e) simp
    with True Cons show ?thesis using entries_add_same [of k "snd e" b] by simp
  next
    case False
    then show ?thesis using Cons entries_add_other [of k "fst e" "snd e" b] by simp
  qed
qed simp

lemma count_of_adds:
  "length (entries (fold (\<lambda>e. add (fst e) (snd e)) es b)) = length (entries b) + length es"
  by (induction es arbitrary: b) (simp_all add: entries_add_length)

end

interpretation pend: request_batch pending_push pending_clear pending_entries
proof
  show "filter (\<lambda>e. fst e = k) (pending_entries (pending_push k p b)) =
      filter (\<lambda>e. fst e = k) (pending_entries b) @ [(k, p)]" for k p b
    by (cases k) (simp_all add: pending_entries_def filter_map o_def)
  show "filter (\<lambda>e. fst e = k') (pending_entries (pending_push k p b)) =
      filter (\<lambda>e. fst e = k') (pending_entries b)" if "k' \<noteq> k" for k k' p b
    using that by (cases k) (simp_all add: pending_entries_def filter_map o_def)
  show "set (pending_entries (pending_push k p b)) = insert (k, p) (set (pending_entries b))" for k p b
    by (cases k) (auto simp: pending_entries_def)
  show "length (pending_entries (pending_push k p b)) = Suc (length (pending_entries b))" for k p b
    by (cases k) (simp_all add: pending_entries_def)
  show "pending_entries (pending_clear b) = []" for b
    by (simp add: pending_entries_def pending_clear_def)
qed

lemma pending_entries_no_pending [simp]: "pending_entries no_pending = []"
  by (simp add: pending_entries_def no_pending_def)

lemma pending_entries_empty_iff: "pending_entries q = [] \<longleftrightarrow> q = no_pending"
  by (cases q) (auto simp: pending_entries_def no_pending_def)

lemma pending_clear_eq [simp]: "pending_clear q = no_pending"
  by (simp add: pending_clear_def no_pending_def)

lemma for_each_entry_append:
  "for_each_entry (xs @ ys) f s = bindE (for_each_entry xs f s) (for_each_entry ys f)"
proof (induction xs arbitrary: s)
  case (Cons e xs)
  then have "for_each_entry (xs @ ys) f = (\<lambda>s. bindE (for_each_entry xs f s) (for_each_entry ys f))"
    by (rule ext)
  then show ?case by (simp add: bindE_assoc)
qed simp

section \<open>Property of the pending requests\<close>

text \<open>Whatever sequence of requests is pushed, each type's requests are visited in the order they were
  pushed, after those that were already waiting, and none is lost or repeated; clearing leaves none.\<close>

lemma pending_requests_fifo:
  "filter (\<lambda>e. fst e = k) (pending_entries (fold (\<lambda>e. pending_push (fst e) (snd e)) es q)) =
     filter (\<lambda>e. fst e = k) (pending_entries q) @ filter (\<lambda>e. fst e = k) es \<and>
   length (pending_entries (fold (\<lambda>e. pending_push (fst e) (snd e)) es q)) = length (pending_entries q) + length es \<and>
   pending_entries (pending_clear q) = []"
  using pend.fifo_per_kind pend.count_of_adds pend.entries_none by blast

end
