(* ===== verification/Chrono_Utils.thy ===== *)
theory Chrono_Utils
  imports Ringnet_Prelude "HOL-Library.Signed_Division"
begin

text \<open>
  \<open>include/ringnet/time/chronoUtils.hpp\<close>: the conversion of a \<open>std::chrono::duration\<close> to the
  \<open>__kernel_timespec\<close> handed to \<open>io_uring_submit_and_wait_timeout\<close>. A duration with a period of one
  nanosecond times \<open>ns_per_tick\<close> is its tick count; \<open>duration_cast\<close> to a coarser unit truncates
  towards zero. Counts are unbounded here; the code's are 64 bits, enough for every duration under
  292 years.
\<close>

record timespec =
  tv_sec :: int
  tv_nsec :: int

definition to_timespec :: "int \<Rightarrow> int \<Rightarrow> timespec" where
  "to_timespec ns_per_tick ticks =
     (let total = ticks * ns_per_tick;
          s = total sdiv 1000000000;
          ns = total - s * 1000000000
      in \<lparr>tv_sec = s, tv_nsec = ns\<rparr>)"

text \<open>\<open>std::chrono::milliseconds(n)\<close>, the unit \<open>SubmissionQueue::submit\<close> takes its timeout in.\<close>

abbreviation milliseconds_to_timespec :: "int \<Rightarrow> timespec" where
  "milliseconds_to_timespec \<equiv> to_timespec 1000000"

lemma sdiv_rem_bound:
  fixes a b :: int
  assumes "0 < b"
  shows "\<bar>a - (a sdiv b) * b\<bar> < b"
proof -
  have "a - (a sdiv b) * b = sgn a * (\<bar>a\<bar> mod b)"
  proof -
    have "a = sgn a * \<bar>a\<bar>" by (simp add: sgn_mult_abs)
    moreover have "(a sdiv b) * b = sgn a * ((\<bar>a\<bar> div b) * b)"
      using assms by (simp add: signed_divide_int_def)
    ultimately show ?thesis
      by (metis minus_div_mult_eq_mod right_diff_distrib)
  qed
  moreover have "\<bar>a\<bar> mod b < b" "0 \<le> \<bar>a\<bar> mod b"
    using assms by simp_all
  ultimately show ?thesis
    using assms by (simp add: abs_mult abs_sgn_eq)
qed

lemma to_timespec_total:
  "tv_sec (to_timespec p t) * 1000000000 + tv_nsec (to_timespec p t) = t * p"
  by (simp add: to_timespec_def Let_def)

lemma to_timespec_nsec_bound: "\<bar>tv_nsec (to_timespec p t)\<bar> < 1000000000"
  using sdiv_rem_bound [of 1000000000 "t * p"] by (simp add: to_timespec_def Let_def)

lemma to_timespec_nonneg:
  assumes "0 \<le> t" "0 \<le> p"
  shows "0 \<le> tv_sec (to_timespec p t)" "0 \<le> tv_nsec (to_timespec p t)"
proof -
  have "0 \<le> t * p" using assms by simp
  moreover from this have "(t * p) sdiv 1000000000 = (t * p) div 1000000000"
    by (simp add: signed_divide_int_def sgn_if)
  ultimately show "0 \<le> tv_sec (to_timespec p t)" "0 \<le> tv_nsec (to_timespec p t)"
    by (simp_all add: to_timespec_def Let_def pos_imp_zdiv_nonneg_iff minus_div_mult_eq_mod)
qed

text \<open>A non-negative timeout becomes a valid kernel timespec (nanoseconds below one second, nothing
  negative) that stands for exactly the same length of time.\<close>

lemma to_timespec_exact:
  assumes "0 \<le> t" "0 \<le> p"
  shows "0 \<le> tv_sec (to_timespec p t) \<and> 0 \<le> tv_nsec (to_timespec p t) \<and> tv_nsec (to_timespec p t) < 1000000000 \<and>
     tv_sec (to_timespec p t) * 1000000000 + tv_nsec (to_timespec p t) = t * p"
  using to_timespec_nonneg [OF assms] to_timespec_nsec_bound [of p t] to_timespec_total [of p t] by simp

end
