(* ===== verification/Sys_Env.thy ===== *)
theory Sys_Env
  imports Chrono_Utils
begin

text \<open>
  The code ringnet calls and does not contain: liburing (with the kernel's io_uring behind it) and
  the POSIX socket calls. It is a parameter of the model: \<open>'x\<close> is the state of that environment
  (submission and completion rings, provided-buffer ring, file descriptors, \<open>errno\<close>) and a value of
  \<open>'x sys\<close> gives its entry points. Nothing is assumed of them here. What a theorem needs of their
  documented behaviour is one of the named predicates at the end of this theory.

  The setters liburing offers on a submission entry (\<open>io_uring_prep_*\<close>, \<open>io_uring_sqe_set_data\<close> and the
  direct field writes) are one entry point, \<open>sqe_apply\<close>, which is told which setter is called with
  which arguments.
\<close>

section \<open>Constants of the kernel and libc headers\<close>

definition ETIME :: int where "ETIME = 62"
definition EINTR :: int where "EINTR = 4"
definition EAGAIN :: int where "EAGAIN = 11"

definition IORING_CQE_F_BUFFER :: "32 word" where "IORING_CQE_F_BUFFER = 1"
definition IORING_CQE_BUFFER_SHIFT :: nat where "IORING_CQE_BUFFER_SHIFT = 16"
definition IORING_ASYNC_CANCEL_ALL :: "32 word" where "IORING_ASYNC_CANCEL_ALL = 1"
definition IORING_ASYNC_CANCEL_FD :: "32 word" where "IORING_ASYNC_CANCEL_FD = 2"
definition IOSQE_BUFFER_SELECT :: "8 word" where "IOSQE_BUFFER_SELECT = 32"

definition AF_UNSPEC :: int where "AF_UNSPEC = 0"
definition AF_INET :: int where "AF_INET = 2"
definition AF_INET6 :: int where "AF_INET6 = 10"
definition SOCK_STREAM :: int where "SOCK_STREAM = 1"
definition SOCK_DGRAM :: int where "SOCK_DGRAM = 2"
definition SOL_SOCKET :: int where "SOL_SOCKET = 1"
definition SO_REUSEADDR :: int where "SO_REUSEADDR = 2"
definition AI_PASSIVE :: int where "AI_PASSIVE = 1"

section \<open>Data crossing the boundary\<close>

record cqe =
  cqe_user_data :: ptr
  cqe_res :: int
  cqe_flags :: "32 word"

datatype sqe_call =
    Prep_multishot_accept int
  | Prep_connect int ptr nat
  | Prep_write int ptr "32 word" "64 word"
  | Prep_read int ptr "32 word" "64 word"
  | Or_sqe_flags "8 word"
  | Set_buf_group "16 word"
  | Prep_read_multishot int "32 word" "64 word" int
  | Prep_cancel_fd int "32 word"
  | Set_data ptr

text \<open>A result of \<open>getaddrinfo\<close>: its family and the bytes of its socket address.\<close>

record addrinfo =
  ai_family :: int
  ai_addr :: "8 word list"

record addrinfo_hints =
  hint_family :: int
  hint_socktype :: int
  hint_flags :: int

section \<open>The entry points\<close>

record 'x sys =
  io_uring_queue_init :: "32 word \<Rightarrow> 'x \<Rightarrow> int \<times> 'x"
  io_uring_queue_exit :: "'x \<Rightarrow> 'x"
  io_uring_get_sqe :: "'x \<Rightarrow> nat option \<times> 'x"
  sqe_apply :: "nat \<Rightarrow> sqe_call \<Rightarrow> 'x \<Rightarrow> 'x"
  io_uring_submit :: "'x \<Rightarrow> int \<times> 'x"
  io_uring_submit_and_wait :: "nat \<Rightarrow> 'x \<Rightarrow> int \<times> 'x"
  io_uring_submit_and_wait_timeout :: "nat \<Rightarrow> timespec \<Rightarrow> 'x \<Rightarrow> int \<times> ptr \<times> 'x"
  io_uring_peek_cqe :: "'x \<Rightarrow> int \<times> 'x"
  cq_khead :: "'x \<Rightarrow> 32 word"
  cqe_at :: "'x \<Rightarrow> 32 word \<Rightarrow> cqe option"
  io_uring_cq_advance :: "32 word \<Rightarrow> 'x \<Rightarrow> 'x"
  io_uring_setup_buf_ring :: "32 word \<Rightarrow> int \<Rightarrow> 32 word \<Rightarrow> 'x \<Rightarrow> ptr \<times> int \<times> 'x"
  io_uring_free_buf_ring :: "ptr \<Rightarrow> 32 word \<Rightarrow> int \<Rightarrow> 'x \<Rightarrow> 'x"
  io_uring_buf_ring_mask :: "32 word \<Rightarrow> int"
  io_uring_buf_ring_add :: "ptr \<Rightarrow> span \<Rightarrow> 16 word \<Rightarrow> int \<Rightarrow> int \<Rightarrow> 'x \<Rightarrow> 'x"
  io_uring_buf_ring_advance :: "ptr \<Rightarrow> int \<Rightarrow> 'x \<Rightarrow> 'x"
  sys_getaddrinfo :: "string \<Rightarrow> string \<Rightarrow> addrinfo_hints \<Rightarrow> 'x \<Rightarrow> int \<times> addrinfo list \<times> 'x"
  sys_freeaddrinfo :: "addrinfo list \<Rightarrow> 'x \<Rightarrow> 'x"
  sys_socket :: "int \<Rightarrow> int \<Rightarrow> int \<Rightarrow> 'x \<Rightarrow> int \<times> 'x"
  sys_setsockopt :: "int \<Rightarrow> int \<Rightarrow> int \<Rightarrow> int \<Rightarrow> 'x \<Rightarrow> int \<times> 'x"
  sys_bind :: "int \<Rightarrow> 8 word list \<Rightarrow> nat \<Rightarrow> 'x \<Rightarrow> int \<times> 'x"
  sys_connect :: "int \<Rightarrow> 8 word list \<Rightarrow> nat \<Rightarrow> 'x \<Rightarrow> int \<times> 'x"
  sys_listen :: "int \<Rightarrow> int \<Rightarrow> 'x \<Rightarrow> int \<times> 'x"
  sys_close :: "int \<Rightarrow> 'x \<Rightarrow> 'x"
  sys_errno :: "'x \<Rightarrow> int"
  sys_strerror :: "int \<Rightarrow> string"
  sys_gai_strerror :: "int \<Rightarrow> string"

section \<open>Documented behaviour, as named hypotheses\<close>

text \<open>
  The submission ring, seen through \<open>sq\<close>: the entries obtained and not yet submitted, oldest first,
  each with the setters called on it, \<open>cap\<close> of them at most. \<open>io_uring_get_sqe\<close> fails exactly when
  the ring is full; \<open>io_uring_submit\<close> reports how many of the oldest entries the kernel consumed or
  a negative error, in which case it consumed none.
\<close>

definition sq_contract :: "'x sys \<Rightarrow> ('x \<Rightarrow> (nat \<times> sqe_call list) list) \<Rightarrow> nat \<Rightarrow> bool" where
  "sq_contract X sq cap \<longleftrightarrow>
     (\<forall>x e x'. io_uring_get_sqe X x = (Some e, x') \<longrightarrow>
        length (sq x) < cap \<and> e \<notin> fst ` set (sq x) \<and> sq x' = sq x @ [(e, [])]) \<and>
     (\<forall>x x'. io_uring_get_sqe X x = (None, x') \<longrightarrow> cap \<le> length (sq x) \<and> sq x' = sq x) \<and>
     (\<forall>x e c. sq (sqe_apply X e c x) = map (\<lambda>q. if fst q = e then (e, snd q @ [c]) else q) (sq x)) \<and>
     (\<forall>x n x'. io_uring_submit X x = (n, x') \<longrightarrow>
        (if n < 0 then sq x' = sq x else nat n \<le> length (sq x) \<and> sq x' = drop (nat n) (sq x)))"

text \<open>
  The completion ring, seen through \<open>cq\<close>: the completions posted and not yet marked as seen.
  \<open>io_uring_for_each_cqe\<close> walks them from the ring's head and \<open>io_uring_cq_advance\<close> drops the oldest.
\<close>

definition cq_contract :: "'x sys \<Rightarrow> ('x \<Rightarrow> cqe list) \<Rightarrow> bool" where
  "cq_contract X cq \<longleftrightarrow>
     (\<forall>x. length (cq x) < 2 ^ 32) \<and>
     (\<forall>x i. i \<le> length (cq x) \<longrightarrow>
        cqe_at X x (cq_khead X x + of_nat i) = (if i < length (cq x) then Some (cq x ! i) else None)) \<and>
     (\<forall>x n. unat n \<le> length (cq x) \<longrightarrow> cq (io_uring_cq_advance X n x) = drop (unat n) (cq x))"

text \<open>
  The provided-buffer ring, seen through \<open>avail\<close> (the buffer identifiers the kernel may pick, oldest
  first) and \<open>staged\<close> (what was written at an offset past the ring's tail). An entry added at an
  offset below the ring's size becomes available when the tail moves past it.
\<close>

definition br_contract :: "'x sys \<Rightarrow> ptr \<Rightarrow> nat \<Rightarrow> ('x \<Rightarrow> (16 word \<times> span) list) \<Rightarrow> ('x \<Rightarrow> nat \<Rightarrow> (16 word \<times> span) option) \<Rightarrow> bool" where
  "br_contract X br n avail staged \<longleftrightarrow>
     (\<forall>x sp bid i. i < n \<longrightarrow>
        avail (io_uring_buf_ring_add X br sp bid (io_uring_buf_ring_mask X (word_of_nat n)) (int i) x) = avail x \<and>
        staged (io_uring_buf_ring_add X br sp bid (io_uring_buf_ring_mask X (word_of_nat n)) (int i) x) =
          (staged x)(i \<mapsto> (bid, sp))) \<and>
     (\<forall>x k. k \<le> n \<longrightarrow> (\<forall>i < k. staged x i \<noteq> None) \<longrightarrow>
        avail (io_uring_buf_ring_advance X br (int k) x) = avail x @ map (\<lambda>i. the (staged x i)) [0..<k])"

lemma br_contract_add:
  assumes "br_contract X br n avail staged" "i < n"
  shows "avail (io_uring_buf_ring_add X br sp bid (io_uring_buf_ring_mask X (word_of_nat n)) (int i) x) = avail x"
    "staged (io_uring_buf_ring_add X br sp bid (io_uring_buf_ring_mask X (word_of_nat n)) (int i) x) =
       (staged x)(i \<mapsto> (bid, sp))"
  using assms unfolding br_contract_def by blast+

lemma br_contract_advance:
  assumes "br_contract X br n avail staged" "k \<le> n" "\<forall>i < k. staged x i \<noteq> None"
  shows "avail (io_uring_buf_ring_advance X br (int k) x) = avail x @ map (\<lambda>i. the (staged x i)) [0..<k]"
  using assms unfolding br_contract_def by blast

text \<open>
  \<open>bind\<close> refuses an IPv6 address shorter than 24 bytes (\<open>SIN6_LEN_RFC2133\<close>). The family is the first,
  little-endian, field of the address.
\<close>

definition sockaddr_family :: "8 word list \<Rightarrow> int" where
  "sockaddr_family b = (case b of lo # hi # _ \<Rightarrow> uint lo + 256 * uint hi | _ \<Rightarrow> 0)"

definition inet6_bind_needs_full_address :: "'x sys \<Rightarrow> bool" where
  "inet6_bind_needs_full_address X \<longleftrightarrow>
     (\<forall>n b len x rc x'. sockaddr_family b = AF_INET6 \<longrightarrow> len < 24 \<longrightarrow> sys_bind X n b len x = (rc, x') \<longrightarrow>
        rc = -1 \<and> sys_errno X x' \<noteq> 0)"

end
