(* ===== verification/Reference_Env.thy ===== *)
theory Reference_Env
  imports Sys_Env
begin

text \<open>
  A small executable environment that behaves as the contracts of \<open>Sys_Env\<close> say: bounded submission
  ring, completion ring, provided-buffer ring, a resolver and socket calls that succeed. It is not a
  model of liburing or of the kernel; it shows that the hypotheses of the theorems can hold together
  and gives their instances something to run on.
\<close>

record ref_env =
  ref_sq :: "(nat \<times> sqe_call list) list"
  ref_submitted :: "sqe_call list list"
  ref_head :: "32 word"
  ref_cq :: "cqe list"
  ref_avail :: "(16 word \<times> span) list"
  ref_staged :: "nat \<Rightarrow> (16 word \<times> span) option"
  ref_errno :: int
  ref_next_fd :: int
  ref_closed :: "int list"

definition ref_init :: ref_env where
  "ref_init = \<lparr>ref_sq = [], ref_submitted = [], ref_head = 0, ref_cq = [], ref_avail = [],
               ref_staged = (\<lambda>_. None), ref_errno = 0, ref_next_fd = 3, ref_closed = []\<rparr>"

definition ref_cq_view :: "ref_env \<Rightarrow> cqe list" where
  "ref_cq_view x = take 4096 (ref_cq x)"

definition ref_flush :: "ref_env \<Rightarrow> ref_env" where
  "ref_flush x = x\<lparr>ref_submitted := ref_submitted x @ map snd (ref_sq x), ref_sq := []\<rparr>"

text \<open>\<open>cap\<close> is the size of the submission ring and \<open>n\<close> the size of the buffer ring.\<close>

definition ref_sys :: "nat \<Rightarrow> ref_env sys" where
  "ref_sys cap =
     \<lparr>io_uring_queue_init = (\<lambda>_ x. (0, x\<lparr>ref_sq := [], ref_submitted := [], ref_cq := []\<rparr>)),
      io_uring_queue_exit = (\<lambda>x. x),
      io_uring_get_sqe = (\<lambda>x. if length (ref_sq x) < cap
         then let e = Suc (sum_list (map fst (ref_sq x))) in (Some e, x\<lparr>ref_sq := ref_sq x @ [(e, [])]\<rparr>)
         else (None, x)),
      sqe_apply = (\<lambda>e c x. x\<lparr>ref_sq := map (\<lambda>q. if fst q = e then (e, snd q @ [c]) else q) (ref_sq x)\<rparr>),
      io_uring_submit = (\<lambda>x. (int (length (ref_sq x)), ref_flush x)),
      io_uring_submit_and_wait = (\<lambda>_ x. (int (length (ref_sq x)), ref_flush x)),
      io_uring_submit_and_wait_timeout = (\<lambda>_ _ x. (int (length (ref_sq x)), 1, ref_flush x)),
      io_uring_peek_cqe = (\<lambda>x. (0, x)),
      cq_khead = ref_head,
      cqe_at = (\<lambda>x h. let i = unat (h - ref_head x) in
         if i < length (ref_cq_view x) then Some (ref_cq_view x ! i) else None),
      io_uring_cq_advance = (\<lambda>n x. x\<lparr>ref_head := ref_head x + n, ref_cq := drop (unat n) (ref_cq_view x)\<rparr>),
      io_uring_setup_buf_ring = (\<lambda>_ _ _ x. (1, 0, x)),
      io_uring_free_buf_ring = (\<lambda>_ _ _ x. x\<lparr>ref_avail := []\<rparr>),
      io_uring_buf_ring_mask = (\<lambda>n. uint n - 1),
      io_uring_buf_ring_add = (\<lambda>_ sp bid _ off x. x\<lparr>ref_staged := (ref_staged x)(nat off \<mapsto> (bid, sp))\<rparr>),
      io_uring_buf_ring_advance = (\<lambda>_ k x. x\<lparr>ref_avail := ref_avail x @ map (\<lambda>i. the (ref_staged x i)) [0..<nat k],
                                             ref_staged := (\<lambda>i. ref_staged x (i + nat k))\<rparr>),
      sys_getaddrinfo = (\<lambda>_ _ _ x. (0, [\<lparr>ai_family = AF_INET, ai_addr = replicate 16 0\<rparr>], x)),
      sys_freeaddrinfo = (\<lambda>_ x. x),
      sys_socket = (\<lambda>_ _ _ x. (ref_next_fd x, x\<lparr>ref_next_fd := ref_next_fd x + 1\<rparr>)),
      sys_setsockopt = (\<lambda>_ _ _ _ x. (0, x)),
      sys_bind = (\<lambda>_ _ _ x. (0, x)),
      sys_connect = (\<lambda>_ _ _ x. (0, x)),
      sys_listen = (\<lambda>_ _ x. (0, x)),
      sys_close = (\<lambda>fd x. x\<lparr>ref_closed := ref_closed x @ [fd]\<rparr>),
      sys_errno = ref_errno,
      sys_strerror = (\<lambda>n. ''error '' @ show_int n),
      sys_gai_strerror = (\<lambda>n. ''resolver error '' @ show_int n)\<rparr>"

lemma sum_list_fresh: "Suc (sum_list (map fst xs)) \<notin> fst ` set xs"
  for xs :: "(nat \<times> 'b) list"
proof
  assume "Suc (sum_list (map fst xs)) \<in> fst ` set xs"
  then have "Suc (sum_list (map fst xs)) \<le> sum_list (map fst xs)"
    by (intro member_le_sum_list) simp_all
  then show False by simp
qed

lemma ref_sq_contract: "sq_contract (ref_sys cap) ref_sq cap"
  using sum_list_fresh
  by (auto simp: sq_contract_def ref_sys_def ref_flush_def Let_def split: if_splits)

lemma ref_cq_contract: "cq_contract (ref_sys cap) ref_cq_view"
proof -
  have len: "length (ref_cq_view x) < 2 ^ 32" for x
    by (simp add: ref_cq_view_def min_def)
  have idx: "unat (word_of_nat i :: 32 word) = i" if "i \<le> length (ref_cq_view x)" for i x
    using that len [of x] by (simp add: unat_of_nat_small)
  have adv: "ref_cq_view (x\<lparr>ref_head := h, ref_cq := drop n (ref_cq_view x)\<rparr>) = drop n (ref_cq_view x)" for x h n
    by (simp add: ref_cq_view_def)
  show ?thesis
    unfolding cq_contract_def
    by (intro conjI allI impI len) (auto simp: ref_sys_def Let_def idx adv)
qed

lemma ref_br_contract: "br_contract (ref_sys cap) br n ref_avail ref_staged"
  by (simp add: br_contract_def ref_sys_def)

text \<open>The same environment on a host that resolves to IPv6 addresses and checks their length.\<close>

definition ref_addr6 :: "8 word list" where
  "ref_addr6 = 10 # 0 # replicate 26 0"

definition ref6_sys :: "nat \<Rightarrow> ref_env sys" where
  "ref6_sys cap = (ref_sys cap)\<lparr>
     sys_getaddrinfo := (\<lambda>_ _ _ x. (0, [\<lparr>ai_family = AF_INET6, ai_addr = ref_addr6\<rparr>], x)),
     sys_bind := (\<lambda>_ b len x. if sockaddr_family b = AF_INET6 \<and> len < 24 then (-1, x\<lparr>ref_errno := 22\<rparr>) else (0, x))\<rparr>"

lemma ref6_bind: "inet6_bind_needs_full_address (ref6_sys cap)"
  by (auto simp: inet6_bind_needs_full_address_def ref6_sys_def ref_sys_def)

lemma ref_addr6_family: "sockaddr_family ref_addr6 = AF_INET6"
  by (simp add: sockaddr_family_def ref_addr6_def AF_INET6_def)

end
