(* ===== verification/Submission_Queue.thy ===== *)
theory Submission_Queue
  imports Requests Request_Pool Pending_Requests Reference_Env "HOL-Library.Multiset"
begin

text \<open>
  \<open>include/ringnet/uring/submissionQueue.hpp\<close> and \<open>src/ringnet/uring/submissionQueue.cpp\<close>: requests
  are copied into the pool, wait in a per-type list, are turned into submission entries in one
  batch and submitted; completions are walked, handed to a function and their requests released.

  The state record is extended by the records of the objects that contain a submission queue (the
  buffer ring's and the event loop's members), so every operation here works on all of them. The
  \<open>io_uring\<close> member is part of the environment \<open>env\<close>.
\<close>

record 'x submission_queue =
  env :: 'x
  request_pool :: "request pool"
  pending_requests :: pending

datatype AddRequestStatus = OK | QUEUE_FULL

text \<open>\<open>SubmitStatus\<close> is an \<open>int\<close> with three named values.\<close>

definition TIMEOUT :: int where "TIMEOUT = - ETIME"
definition INTERRUPTED_SYSCALL :: int where "INTERRUPTED_SYSCALL = - EINTR"
definition NOT_READY :: int where "NOT_READY = - EAGAIN"

definition shouldContinueSubmitting :: "int \<Rightarrow> bool" where
  "shouldContinueSubmitting status \<longleftrightarrow>
     status = TIMEOUT \<or> status = INTERRUPTED_SYSCALL \<or> status = NOT_READY"

section \<open>Operations\<close>

definition throwOnError :: "'x sys \<Rightarrow> int \<Rightarrow> string \<Rightarrow> stop + unit" where
  "throwOnError X liburing_error message =
     (if liburing_error < 0
      then Inl (RuntimeError (message @ '': '' @ sys_strerror X (- liburing_error)))
      else Inr ())"

definition new_SubmissionQueue :: "'x sys \<Rightarrow> nat \<Rightarrow> 'x \<Rightarrow> stop + 'x submission_queue" where
  "new_SubmissionQueue X queue_size x =
     (case io_uring_queue_init X (word_of_nat queue_size) x of (status, x1) \<Rightarrow>
        bindE (throwOnError X status ''Error initializing io_uring'') (\<lambda>_.
          Inr \<lparr>env = x1, request_pool = empty_pool, pending_requests = no_pending\<rparr>))"

definition delete_SubmissionQueue :: "'x sys \<Rightarrow> ('x, 'z) submission_queue_scheme \<Rightarrow> ('x, 'z) submission_queue_scheme" where
  "delete_SubmissionQueue X s = s\<lparr>env := io_uring_queue_exit X (env s)\<rparr>"

definition push :: "request \<Rightarrow> ('x, 'z) submission_queue_scheme \<Rightarrow> stop + ('x, 'z) submission_queue_scheme" where
  "push r s =
     (case allocate (sizeof_request (kind r)) (request_pool s) of (p, pool1) \<Rightarrow>
        bindE (store p r pool1) (\<lambda>pool2.
          Inr (s\<lparr>request_pool := pool2,
                 pending_requests := pending_push (kind r) p (pending_requests s)\<rparr>)))"

definition getNewSubmissionQueueEntry ::
    "'x sys \<Rightarrow> ('x, 'z) submission_queue_scheme \<Rightarrow> nat option \<times> ('x, 'z) submission_queue_scheme" where
  "getNewSubmissionQueueEntry X s =
     (case io_uring_get_sqe X (env s) of
        (Some e, x1) \<Rightarrow> (Some e, s\<lparr>env := x1\<rparr>)
      | (None, x1) \<Rightarrow>
          (case io_uring_submit X x1 of (_, x2) \<Rightarrow>
             (case io_uring_get_sqe X x2 of (e2, x3) \<Rightarrow> (e2, s\<lparr>env := x3\<rparr>))))"

definition sq_cancel :: "'x sys \<Rightarrow> int \<Rightarrow> ('x, 'z) submission_queue_scheme \<Rightarrow> ('x, 'z) submission_queue_scheme" where
  "sq_cancel X fd s =
     (case getNewSubmissionQueueEntry X s of
        (None, s1) \<Rightarrow> s1
      | (Some e, s1) \<Rightarrow>
          s1\<lparr>env := sqe_apply X e (Prep_cancel_fd fd (or IORING_ASYNC_CANCEL_ALL IORING_ASYNC_CANCEL_FD)) (env s1)\<rparr>)"

text \<open>The five overloads of \<open>prepare\<close>.\<close>

definition prepare_AcceptRequest ::
    "'x sys \<Rightarrow> ptr \<Rightarrow> ('x, 'z) submission_queue_scheme \<Rightarrow> stop + (AddRequestStatus \<times> ('x, 'z) submission_queue_scheme)" where
  "prepare_AcceptRequest X p s =
     (case getNewSubmissionQueueEntry X s of
        (None, s1) \<Rightarrow> Inr (QUEUE_FULL, s1)
      | (Some e, s1) \<Rightarrow>
          bindE (bindE (deref (request_pool s1) p) (as_AcceptRequest p)) (\<lambda>r.
            let x1 = sqe_apply X e (Prep_multishot_accept (listening_socket_fd r)) (env s1);
                x2 = sqe_apply X e (Set_data p) x1
            in Inr (OK, s1\<lparr>env := x2\<rparr>)))"

definition prepare_ConnectRequest ::
    "'x sys \<Rightarrow> ptr \<Rightarrow> ('x, 'z) submission_queue_scheme \<Rightarrow> stop + (AddRequestStatus \<times> ('x, 'z) submission_queue_scheme)" where
  "prepare_ConnectRequest X p s =
     (case getNewSubmissionQueueEntry X s of
        (None, s1) \<Rightarrow> Inr (QUEUE_FULL, s1)
      | (Some e, s1) \<Rightarrow>
          bindE (bindE (deref (request_pool s1) p) (as_ConnectRequest p)) (\<lambda>r.
            let x1 = sqe_apply X e (Prep_connect (connect_fd r) (connect_addr r) (connect_addrlen r)) (env s1);
                x2 = sqe_apply X e (Set_data p) x1
            in Inr (OK, s1\<lparr>env := x2\<rparr>)))"

definition prepare_WriteRequest ::
    "'x sys \<Rightarrow> ptr \<Rightarrow> ('x, 'z) submission_queue_scheme \<Rightarrow> stop + (AddRequestStatus \<times> ('x, 'z) submission_queue_scheme)" where
  "prepare_WriteRequest X p s =
     (case getNewSubmissionQueueEntry X s of
        (None, s1) \<Rightarrow> Inr (QUEUE_FULL, s1)
      | (Some e, s1) \<Rightarrow>
          bindE (bindE (deref (request_pool s1) p) (as_WriteRequest p)) (\<lambda>r.
            let x1 = sqe_apply X e (Prep_write (write_fd r) (sp_base (bytes_written r))
                                      (word_of_nat (sp_len (bytes_written r))) 0) (env s1);
                x2 = sqe_apply X e (Set_data p) x1
            in Inr (OK, s1\<lparr>env := x2\<rparr>)))"

definition prepare_ReadRequest ::
    "'x sys \<Rightarrow> ptr \<Rightarrow> ('x, 'z) submission_queue_scheme \<Rightarrow> stop + (AddRequestStatus \<times> ('x, 'z) submission_queue_scheme)" where
  "prepare_ReadRequest X p s =
     (case getNewSubmissionQueueEntry X s of
        (None, s1) \<Rightarrow> Inr (QUEUE_FULL, s1)
      | (Some e, s1) \<Rightarrow>
          bindE (bindE (deref (request_pool s1) p) (as_ReadRequest p)) (\<lambda>r.
            let x1 = sqe_apply X e (Prep_read (read_fd r) (sp_base (reception_buffer r))
                                      (word_of_nat (sp_len (reception_buffer r))) 0) (env s1);
                x2 = sqe_apply X e (Set_data p) x1
            in Inr (OK, s1\<lparr>env := x2\<rparr>)))"

definition prepare_MultiShotReadRequest ::
    "'x sys \<Rightarrow> ptr \<Rightarrow> ('x, 'z) submission_queue_scheme \<Rightarrow> stop + (AddRequestStatus \<times> ('x, 'z) submission_queue_scheme)" where
  "prepare_MultiShotReadRequest X p s =
     (case getNewSubmissionQueueEntry X s of
        (None, s1) \<Rightarrow> Inr (QUEUE_FULL, s1)
      | (Some e, s1) \<Rightarrow>
          bindE (bindE (deref (request_pool s1) p) (as_MultiShotReadRequest p)) (\<lambda>r.
            let x1 = sqe_apply X e (Or_sqe_flags IOSQE_BUFFER_SELECT) (env s1);
                x2 = sqe_apply X e (Set_buf_group (buffer_group_id r)) x1;
                x3 = sqe_apply X e (Prep_read_multishot (multishot_fd r) 0 0 (uint (buffer_group_id r))) x2;
                x4 = sqe_apply X e (Set_data p) x3
            in Inr (OK, s1\<lparr>env := x4\<rparr>)))"

primrec prepare ::
    "Operation \<Rightarrow> 'x sys \<Rightarrow> ptr \<Rightarrow> ('x, 'z) submission_queue_scheme \<Rightarrow> stop + (AddRequestStatus \<times> ('x, 'z) submission_queue_scheme)" where
  "prepare ACCEPT = prepare_AcceptRequest"
| "prepare CONNECT = prepare_ConnectRequest"
| "prepare READ = prepare_ReadRequest"
| "prepare READ_MULTISHOT = prepare_MultiShotReadRequest"
| "prepare WRITE = prepare_WriteRequest"

text \<open>
  The visitor counts a pending request and prepares it; the status \<open>prepare\<close> returns is not looked
  at. The list is cleared afterwards.
\<close>

definition prepare_and_count ::
    "'x sys \<Rightarrow> Operation \<Rightarrow> ptr \<Rightarrow> nat \<times> ('x, 'z) submission_queue_scheme \<Rightarrow> stop + (nat \<times> ('x, 'z) submission_queue_scheme)" where
  "prepare_and_count X k p st =
     bindE (prepare k X p (snd st)) (\<lambda>(_, s'). Inr (Suc (fst st), s'))"

definition preparePendingRequests ::
    "'x sys \<Rightarrow> ('x, 'z) submission_queue_scheme \<Rightarrow> stop + (nat \<times> ('x, 'z) submission_queue_scheme)" where
  "preparePendingRequests X s =
     bindE (pending_for_each (prepare_and_count X) (pending_requests s) (0, s)) (\<lambda>(n, s').
       Inr (n, s'\<lparr>pending_requests := pending_clear (pending_requests s')\<rparr>))"

definition submit ::
    "'x sys \<Rightarrow> int \<Rightarrow> ('x, 'z) submission_queue_scheme \<Rightarrow> stop + (int \<times> ('x, 'z) submission_queue_scheme)" where
  "submit X timeout s =
     bindE (preparePendingRequests X s) (\<lambda>(prepared_requests_count, s1).
       if prepared_requests_count = 0 then Inr (NOT_READY, s1)
       else if timeout \<le> 0 then
         (case io_uring_submit_and_wait X 1 (env s1) of (n, x1) \<Rightarrow> Inr (n, s1\<lparr>env := x1\<rparr>))
       else
         (case io_uring_submit_and_wait_timeout X 1 (milliseconds_to_timespec timeout) (env s1) of
            (completions, completed_events, x1) \<Rightarrow>
              if 0 < completions \<and> completed_events = nullptr then
                (case io_uring_peek_cqe X x1 of (peek_status, x2) \<Rightarrow>
                   if peek_status < 0 then Inr (peek_status, s1\<lparr>env := x2\<rparr>)
                   else Inr (completions, s1\<lparr>env := x2\<rparr>))
              else Inr (completions, s1\<lparr>env := x1\<rparr>)))"

definition release :: "cqe \<Rightarrow> ('x, 'z) submission_queue_scheme \<Rightarrow> stop + ('x, 'z) submission_queue_scheme" where
  "release c s =
     bindE (deref (request_pool s) (cqe_user_data c)) (\<lambda>r.
       if \<not> valid (header r) then Inr s
       else (case operation_of (op (header r)) of
          Some ACCEPT \<Rightarrow> Inr s
        | Some READ_MULTISHOT \<Rightarrow> Inr s
        | Some READ \<Rightarrow> bindE (deallocate (sizeof_request READ) (cqe_user_data c) (request_pool s))
                              (\<lambda>pool. Inr (s\<lparr>request_pool := pool\<rparr>))
        | Some WRITE \<Rightarrow> bindE (deallocate (sizeof_request WRITE) (cqe_user_data c) (request_pool s))
                               (\<lambda>pool. Inr (s\<lparr>request_pool := pool\<rparr>))
        | Some CONNECT \<Rightarrow> bindE (deallocate (sizeof_request CONNECT) (cqe_user_data c) (request_pool s))
                                 (\<lambda>pool. Inr (s\<lparr>request_pool := pool\<rparr>))
        | None \<Rightarrow> Inr s))"

text \<open>
  \<open>forEachCompletion\<close>: the \<open>io_uring_for_each_cqe\<close> loop reads the ring's tail on every turn, so a
  completion posted while the loop runs is seen too and the loop need not end; \<open>None\<close> is a run that
  never leaves it. \<open>head\<close> and \<open>processed\<close> are \<open>uint\<close>s.
\<close>

partial_function (option) for_each_cqe ::
    "'x sys \<Rightarrow> (cqe \<Rightarrow> ('x, 'z) submission_queue_scheme \<Rightarrow> stop + ('x, 'z) submission_queue_scheme) \<Rightarrow>
     32 word \<Rightarrow> 32 word \<Rightarrow> ('x, 'z) submission_queue_scheme \<Rightarrow> (stop + ('x, 'z) submission_queue_scheme) option" where
  "for_each_cqe X f head processed s =
     (case cqe_at X (env s) head of
        None \<Rightarrow> Some (Inr (if processed \<noteq> 0 then s\<lparr>env := io_uring_cq_advance X processed (env s)\<rparr> else s))
      | Some c \<Rightarrow>
          (case bindE (f c s) (release c) of
             Inl e \<Rightarrow> Some (Inl e)
           | Inr s' \<Rightarrow> for_each_cqe X f (head + 1) (processed + 1) s'))"

definition forEachCompletion ::
    "'x sys \<Rightarrow> (cqe \<Rightarrow> ('x, 'z) submission_queue_scheme \<Rightarrow> stop + ('x, 'z) submission_queue_scheme) \<Rightarrow>
     ('x, 'z) submission_queue_scheme \<Rightarrow> (stop + ('x, 'z) submission_queue_scheme) option" where
  "forEachCompletion X f s = for_each_cqe X f (cq_khead X (env s)) 0 s"

section \<open>Getting and filling submission entries\<close>

lemma getNew_frame: "getNewSubmissionQueueEntry X s = (e, s') \<Longrightarrow> \<exists>x. s' = s\<lparr>env := x\<rparr>"
  by (auto simp: getNewSubmissionQueueEntry_def split: prod.splits option.splits)

text \<open>With room in the ring the entry is new, last and empty; nothing is submitted.\<close>

lemma getNew_room:
  assumes "sq_contract X sq cap" "length (sq (env s)) < cap"
  obtains e x where "getNewSubmissionQueueEntry X s = (Some e, s\<lparr>env := x\<rparr>)"
    "e \<notin> fst ` set (sq (env s))" "sq x = sq (env s) @ [(e, [])]"
proof (cases "io_uring_get_sqe X (env s)")
  case (Pair o' x)
  with assms have "o' \<noteq> None" unfolding sq_contract_def by (metis not_less)
  then obtain e where "o' = Some e" by blast
  with Pair assms(1) show thesis
    by (intro that [of e x]) (auto simp: getNewSubmissionQueueEntry_def sq_contract_def)
qed

text \<open>A full ring whose submission fails yields no entry and keeps its entries.\<close>

lemma getNew_stuck:
  assumes "sq_contract X sq cap" "cap \<le> length (sq (env s))" "\<forall>x. fst (io_uring_submit X x) < 0"
  obtains x where "getNewSubmissionQueueEntry X s = (None, s\<lparr>env := x\<rparr>)" "sq x = sq (env s)"
proof -
  have full: "\<And>x. cap \<le> length (sq x) \<Longrightarrow> \<exists>x'. io_uring_get_sqe X x = (None, x') \<and> sq x' = sq x"
    using assms(1) unfolding sq_contract_def by (metis not_le old.prod.exhaust option.exhaust)
  obtain x1 where 1: "io_uring_get_sqe X (env s) = (None, x1)" "sq x1 = sq (env s)"
    using full assms(2) by blast
  obtain n x2 where 2: "io_uring_submit X x1 = (n, x2)" by (cases "io_uring_submit X x1")
  then have "n < 0" using assms(3) by (metis fst_conv)
  with 2 assms(1) have sq2: "sq x2 = sq x1" unfolding sq_contract_def by (metis (full_types))
  obtain x3 where "io_uring_get_sqe X x2 = (None, x3)" "sq x3 = sq x2"
    using full [of x2] assms(2) 1 sq2 by auto
  with 1 2 sq2 show thesis by (intro that [of x3]) (simp_all add: getNewSubmissionQueueEntry_def)
qed

text \<open>A full ring whose submission makes progress yields an entry.\<close>

lemma getNew_progress:
  assumes "sq_contract X sq cap" "0 < cap" "length (sq (env s)) \<le> cap"
    "\<forall>x. sq x \<noteq> [] \<longrightarrow> 0 < fst (io_uring_submit X x)"
  shows "\<exists>e s'. getNewSubmissionQueueEntry X s = (Some e, s')"
proof (cases "length (sq (env s)) < cap")
  case True
  with assms(1) show ?thesis by (metis getNew_room)
next
  case False
  obtain o' x1 where 1: "io_uring_get_sqe X (env s) = (o', x1)" by (cases "io_uring_get_sqe X (env s)")
  have none: "o' = None"
  proof (rule ccontr)
    assume "o' \<noteq> None"
    then obtain e where "o' = Some e" by blast
    with 1 assms(1) False show False unfolding sq_contract_def by metis
  qed
  with 1 assms(1) have sq1: "sq x1 = sq (env s)" unfolding sq_contract_def by metis
  obtain n x2 where 2: "io_uring_submit X x1 = (n, x2)" by (cases "io_uring_submit X x1")
  have "sq x1 \<noteq> []" using sq1 False assms(2) by auto
  then have "0 < n" using assms(4) 2 by (metis fst_conv)
  moreover have "\<not> n < 0 \<Longrightarrow> nat n \<le> length (sq x1) \<and> sq x2 = drop (nat n) (sq x1)"
    using 2 assms(1) unfolding sq_contract_def by (metis (full_types))
  ultimately have "length (sq x2) < cap" using sq1 assms(2,3) by auto
  then obtain e x3 where "io_uring_get_sqe X x2 = (Some e, x3)"
    using assms(1) unfolding sq_contract_def by (metis not_less option.exhaust surj_pair)
  with 1 2 none show ?thesis by (simp add: getNewSubmissionQueueEntry_def)
qed

lemma sqe_apply_fold:
  assumes "sq_contract X sq cap" "sq x = q @ [(e, ds)]" "e \<notin> fst ` set q"
  shows "sq (fold (sqe_apply X e) cs x) = q @ [(e, ds @ cs)]"
  using assms(2)
proof (induction cs arbitrary: x ds)
  case (Cons c cs)
  have "map (\<lambda>b. if fst b = e then (e, snd b @ [c]) else b) q = q"
    using assms(3) by (intro map_idI) auto
  then have "sq (sqe_apply X e c x) = q @ [(e, ds @ [c])]"
    using assms(1) Cons.prems unfolding sq_contract_def by simp
  from Cons.IH [OF this] show ?case by simp
qed simp

section \<open>What a request asks of the ring\<close>

text \<open>
  The setters a submission entry for the request at \<open>p\<close> receives: the operation with the request's
  own arguments, and \<open>p\<close> as the user data that comes back with its completion.
\<close>

primrec request_calls :: "ptr \<Rightarrow> request \<Rightarrow> sqe_call list" where
  "request_calls p (AcceptR r) = [Prep_multishot_accept (listening_socket_fd r), Set_data p]"
| "request_calls p (ConnectR r) =
     [Prep_connect (connect_fd r) (connect_addr r) (connect_addrlen r), Set_data p]"
| "request_calls p (ReadR r) =
     [Prep_read (read_fd r) (sp_base (reception_buffer r)) (word_of_nat (sp_len (reception_buffer r))) 0, Set_data p]"
| "request_calls p (MultiShotReadR r) =
     [Or_sqe_flags IOSQE_BUFFER_SELECT, Set_buf_group (buffer_group_id r),
      Prep_read_multishot (multishot_fd r) 0 0 (uint (buffer_group_id r)), Set_data p]"
| "request_calls p (WriteR r) =
     [Prep_write (write_fd r) (sp_base (bytes_written r)) (word_of_nat (sp_len (bytes_written r))) 0, Set_data p]"

lemmas prepare_defs = prepare_AcceptRequest_def prepare_ConnectRequest_def prepare_ReadRequest_def
  prepare_MultiShotReadRequest_def prepare_WriteRequest_def

lemma prepare_entry:
  assumes "getNewSubmissionQueueEntry X s = (Some e, s1)" "deref (request_pool s) p = Inr r"
  shows "prepare (kind r) X p s = Inr (OK, s1\<lparr>env := fold (sqe_apply X e) (request_calls p r) (env s1)\<rparr>)"
proof -
  from getNew_frame [OF assms(1)] have "request_pool s1 = request_pool s" by auto
  with assms show ?thesis by (cases r) (simp_all add: prepare_defs Let_def)
qed

lemma prepare_full:
  "getNewSubmissionQueueEntry X s = (None, s1) \<Longrightarrow> prepare k X p s = Inr (QUEUE_FULL, s1)"
  by (cases k) (simp_all add: prepare_defs)

section \<open>The invariant of the queue\<close>

text \<open>
  The pool is consistent, every initialised block holds a well-formed request of the block's size,
  and the pending lists hold distinct addresses of such requests, each in the list of its type.
\<close>

definition typed_pool :: "request pool \<Rightarrow> bool" where
  "typed_pool pool \<longleftrightarrow> (\<forall>a r. contents pool a = Some r \<longrightarrow>
     wf_request r \<and> block_size pool a = Some (sizeof_request (kind r)))"

definition entries_ok :: "request pool \<Rightarrow> (Operation \<times> ptr) list \<Rightarrow> bool" where
  "entries_ok pool es \<longleftrightarrow>
     (\<forall>e \<in> set es. \<exists>r. deref pool (snd e) = Inr r \<and> kind r = fst e)"

definition sq_inv :: "('x, 'z) submission_queue_scheme \<Rightarrow> bool" where
  "sq_inv s \<longleftrightarrow> pool_inv (request_pool s) \<and> typed_pool (request_pool s) \<and>
     distinct (map snd (pending_entries (pending_requests s))) \<and>
     entries_ok (request_pool s) (pending_entries (pending_requests s))"

lemma new_SubmissionQueue_inv: "new_SubmissionQueue X n x = Inr s \<Longrightarrow> sq_inv s"
  by (auto simp: new_SubmissionQueue_def sq_inv_def typed_pool_def entries_ok_def contents_def
      empty_pool_def pool_inv_def live_def freed_def res_simps split: prod.splits)

lemma pending_push_mset:
  "image_mset snd (mset (pending_entries (pending_push k p q))) = add_mset p (image_mset snd (mset (pending_entries q)))"
  by (cases k) (simp_all add: pending_entries_def o_def)

lemma distinct_pending_push:
  "distinct (map snd (pending_entries (pending_push k p q))) \<longleftrightarrow>
     p \<notin> snd ` set (pending_entries q) \<and> distinct (map snd (pending_entries q))"
proof -
  have "distinct (map snd (pending_entries (pending_push k p q))) = distinct (p # map snd (pending_entries q))"
    using pending_push_mset [of k p q] by (intro mset_eq_imp_distinct_iff) simp
  then show ?thesis by simp
qed

text \<open>A pushed request sits at a fresh address, intact, and waits in the list of its type.\<close>

lemma push_spec:
  assumes "sq_inv s" "wf_request r"
  obtains p pool where "push r s = Inr (s\<lparr>request_pool := pool, pending_requests := pending_push (kind r) p (pending_requests s)\<rparr>)"
    "p \<noteq> nullptr" "block_size (request_pool s) p = None"
    "contents pool = (contents (request_pool s))(p \<mapsto> r)"
    "sq_inv (s\<lparr>request_pool := pool, pending_requests := pending_push (kind r) p (pending_requests s)\<rparr>)"
proof -
  let ?pool = "request_pool s" and ?q = "pending_requests s"
  obtain p pool1 where a: "allocate (sizeof_request (kind r)) ?pool = (p, pool1)"
    by (cases "allocate (sizeof_request (kind r)) ?pool")
  have inv: "pool_inv ?pool" using assms(1) by (simp add: sq_inv_def)
  obtain pool where pool: "store p r pool1 = Inr pool" "pool_inv pool" "p \<noteq> nullptr"
      "block_size ?pool p = None" "block_size pool = (block_size ?pool)(p \<mapsto> sizeof_request (kind r))"
      "contents pool = (contents ?pool)(p \<mapsto> r)"
    using pool.new_object [OF inv sizeof_request_pos a, of r] by metis
  have fresh: "contents ?pool p = None"
    using pool(4) pool.value_sized by fastforce
  have old: "deref pool a = Inr v" if "deref ?pool a = Inr v" for a v
    using that fresh by (auto simp: deref_contents pool(6))
  have notin: "p \<notin> snd ` set (pending_entries ?q)"
    using assms(1) fresh by (fastforce simp: sq_inv_def entries_ok_def deref_contents)
  have typed: "typed_pool pool"
    using assms by (auto simp: sq_inv_def typed_pool_def pool(5,6))
  have new: "deref pool p = Inr r" using pool(3,6) by (simp add: deref_contents)
  have entries: "entries_ok pool (pending_entries (pending_push (kind r) p ?q))"
    using assms(1) old new unfolding sq_inv_def entries_ok_def pend.entries_add_set by fastforce
  have "sq_inv (s\<lparr>request_pool := pool, pending_requests := pending_push (kind r) p ?q\<rparr>)"
    using pool(2) typed entries notin assms(1) by (simp add: sq_inv_def distinct_pending_push)
  then show thesis using that a pool by (simp add: push_def)
qed

section \<open>Preparing the batch\<close>

lemma prepare_and_count_Inr:
  "prepare k X p s = Inr (st, s') \<Longrightarrow> prepare_and_count X k p (n, s) = Inr (Suc n, s')"
  by (simp add: prepare_and_count_def)

lemma prepare_batch:
  assumes "sq_contract X sq cap" "entries_ok (request_pool s) es"
    "length (sq (env s)) + length es \<le> cap"
  obtains x where "for_each_entry es (prepare_and_count X) (n, s) = Inr (n + length es, s\<lparr>env := x\<rparr>)"
    "map snd (sq x) = map snd (sq (env s)) @
       map (\<lambda>e. request_calls (snd e) (the (contents (request_pool s) (snd e)))) es"
  using assms(2,3)
proof (induction es arbitrary: n s thesis)
  case Nil
  have "s = s\<lparr>env := env s\<rparr>" by simp
  then show ?case using Nil(1) [of "env s"] by simp
next
  case (Cons e es)
  from Cons.prems(2) obtain r where r: "deref (request_pool s) (snd e) = Inr r" "kind r = fst e"
    by (auto simp: entries_ok_def)
  then have c: "contents (request_pool s) (snd e) = Some r" by (simp add: deref_contents)
  have "length (sq (env s)) < cap" using Cons.prems(3) by simp
  then obtain i x where g: "getNewSubmissionQueueEntry X s = (Some i, s\<lparr>env := x\<rparr>)"
      "i \<notin> fst ` set (sq (env s))" "sq x = sq (env s) @ [(i, [])]"
    by (rule getNew_room [OF assms(1)])
  let ?x1 = "fold (sqe_apply X i) (request_calls (snd e) r) x"
  have p: "prepare (fst e) X (snd e) s = Inr (OK, s\<lparr>env := ?x1\<rparr>)"
    using prepare_entry [OF g(1) r(1)] r(2) by simp
  have sq1: "sq ?x1 = sq (env s) @ [(i, request_calls (snd e) r)]"
    using sqe_apply_fold [OF assms(1) g(3,2)] by simp
  obtain y where y: "for_each_entry es (prepare_and_count X) (Suc n, s\<lparr>env := ?x1\<rparr>) =
        Inr (Suc n + length es, s\<lparr>env := y\<rparr>)"
      "map snd (sq y) = map snd (sq ?x1) @
         map (\<lambda>e. request_calls (snd e) (the (contents (request_pool s) (snd e)))) es"
    using Cons.IH [where s = "s\<lparr>env := ?x1\<rparr>" and n = "Suc n"] Cons.prems(2,3) sq1 by (auto simp: entries_ok_def)
  show ?case
    by (rule Cons.prems(1) [of y]) (simp_all add: prepare_and_count_Inr [OF p] y sq1 c)
qed

lemma prepare_all:
  assumes "sq_inv s" "sq_contract X sq cap"
    "length (sq (env s)) + length (pending_entries (pending_requests s)) \<le> cap"
  obtains x where "preparePendingRequests X s =
      Inr (length (pending_entries (pending_requests s)), s\<lparr>env := x, pending_requests := no_pending\<rparr>)"
    "map snd (sq x) = map snd (sq (env s)) @
       map (\<lambda>e. request_calls (snd e) (the (contents (request_pool s) (snd e)))) (pending_entries (pending_requests s))"
proof -
  have eok: "entries_ok (request_pool s) (pending_entries (pending_requests s))"
    using assms(1) by (simp add: sq_inv_def)
  show thesis
    by (rule prepare_batch [OF assms(2) eok assms(3), of 0], rule that)
       (simp_all add: preparePendingRequests_def pending_for_each_def)
qed

lemma prepare_batch_stuck:
  assumes "sq_contract X sq cap" "cap \<le> length (sq (env s))" "\<forall>x. fst (io_uring_submit X x) < 0"
  obtains x where "for_each_entry es (prepare_and_count X) (n, s) = Inr (n + length es, s\<lparr>env := x\<rparr>)"
    "sq x = sq (env s)"
  using assms(2)
proof (induction es arbitrary: n s thesis)
  case Nil
  have "s = s\<lparr>env := env s\<rparr>" by simp
  then show ?case using Nil(1) [of "env s"] by simp
next
  case (Cons e es)
  obtain x where x: "getNewSubmissionQueueEntry X s = (None, s\<lparr>env := x\<rparr>)" "sq x = sq (env s)"
    using getNew_stuck [OF assms(1) Cons.prems(2) assms(3)] by blast
  obtain y where "for_each_entry es (prepare_and_count X) (Suc n, s\<lparr>env := x\<rparr>) =
        Inr (Suc n + length es, s\<lparr>env := y\<rparr>)" "sq y = sq x"
    using Cons.IH [where s = "s\<lparr>env := x\<rparr>" and n = "Suc n"] Cons.prems(2) x(2) by auto
  then show ?case
    using x by (intro Cons.prems(1) [of y]) (simp_all add: prepare_and_count_Inr [OF prepare_full [OF x(1)]])
qed

section \<open>Releasing a completed request\<close>

lemma release_frame: "release c s = Inr s' \<Longrightarrow> s' = s\<lparr>request_pool := request_pool s'\<rparr>"
  by (auto simp: release_def res_simps split: if_splits option.splits Operation.splits)

lemma release_null: "cqe_user_data c = nullptr \<Longrightarrow> release c s = Inl NullDeref"
  by (simp add: release_def)

definition single_shot :: "Operation \<Rightarrow> bool" where
  "single_shot k \<longleftrightarrow> k = CONNECT \<or> k = READ \<or> k = WRITE"

lemma release_multishot:
  assumes "deref (request_pool s) (cqe_user_data c) = Inr r" "wf_request r" "\<not> single_shot (kind r)"
  shows "release c s = Inr s"
  using assms by (cases "kind r") (simp_all add: release_def wf_request_def single_shot_def del: sizeof_request.simps)

lemma release_single_shot_eq:
  assumes "deref (request_pool s) (cqe_user_data c) = Inr r" "wf_request r" "single_shot (kind r)"
  shows "release c s = bindE (deallocate (sizeof_request (kind r)) (cqe_user_data c) (request_pool s))
      (\<lambda>pool. Inr (s\<lparr>request_pool := pool\<rparr>))"
  using assms by (cases "kind r") (simp_all add: release_def wf_request_def single_shot_def del: sizeof_request.simps)

lemma release_single_shot:
  assumes "sq_inv s" "deref (request_pool s) (cqe_user_data c) = Inr r" "single_shot (kind r)"
  obtains pool where "release c s = Inr (s\<lparr>request_pool := pool\<rparr>)" "pool_inv pool" "typed_pool pool"
    "contents pool = (contents (request_pool s))(cqe_user_data c := None)"
    "block_size pool = (block_size (request_pool s))(cqe_user_data c := None)"
proof -
  have inv: "pool_inv (request_pool s)" "typed_pool (request_pool s)"
    using assms(1) by (simp_all add: sq_inv_def)
  have c: "contents (request_pool s) (cqe_user_data c) = Some r"
    using assms(2) by (simp add: deref_contents)
  with inv(2) have r: "wf_request r" "block_size (request_pool s) (cqe_user_data c) = Some (sizeof_request (kind r))"
    by (simp_all add: typed_pool_def)
  obtain pool where pool: "deallocate (sizeof_request (kind r)) (cqe_user_data c) (request_pool s) = Inr pool"
      "pool_inv pool" "block_size pool = (block_size (request_pool s))(cqe_user_data c := None)"
      "contents pool = (contents (request_pool s))(cqe_user_data c := None)"
    using pool.free_live [OF inv(1) r(2)] by blast
  have "typed_pool pool" using inv(2) by (auto simp: typed_pool_def pool(3,4))
  then show thesis
    using that pool release_single_shot_eq [OF assms(2) r(1) assms(3)] by simp
qed

text \<open>Releasing a request that is no longer pending keeps the invariant, whatever the completion says.\<close>

lemma entries_ok_frame:
  assumes "entries_ok pool es" "a \<notin> snd ` set es" "contents pool' = (contents pool)(a := v)"
  shows "entries_ok pool' es"
  unfolding entries_ok_def
proof
  fix e assume e: "e \<in> set es"
  then have "snd e \<noteq> a" using assms(2) by auto
  moreover obtain r where "deref pool (snd e) = Inr r" "kind r = fst e"
    using assms(1) e by (auto simp: entries_ok_def)
  ultimately show "\<exists>r. deref pool' (snd e) = Inr r \<and> kind r = fst e"
    by (auto simp: deref_contents assms(3))
qed

lemma release_inv:
  assumes "sq_inv s" "cqe_user_data c \<notin> snd ` set (pending_entries (pending_requests s))"
    "release c s = Inr s'"
  shows "sq_inv s'"
proof -
  obtain r where r: "deref (request_pool s) (cqe_user_data c) = Inr r"
    using assms(3) by (auto simp: release_def res_simps)
  then have wf: "wf_request r" using assms(1) by (auto simp: sq_inv_def typed_pool_def deref_contents)
  show ?thesis
  proof (cases "single_shot (kind r)")
    case True
    then obtain pool where pool: "release c s = Inr (s\<lparr>request_pool := pool\<rparr>)" "pool_inv pool"
        "typed_pool pool" "contents pool = (contents (request_pool s))(cqe_user_data c := None)"
      using release_single_shot [OF assms(1) r] by blast
    have "entries_ok pool (pending_entries (pending_requests s))"
      using assms(1) entries_ok_frame [OF _ assms(2) pool(4)] by (simp add: sq_inv_def)
    with pool assms show ?thesis by (auto simp: sq_inv_def)
  next
    case False
    with r wf assms(1,3) show ?thesis by (simp add: release_multishot)
  qed
qed

text \<open>A second completion for a released request reads freed memory.\<close>

lemma release_twice:
  assumes "sq_inv s" "deref (request_pool s) (cqe_user_data c) = Inr r" "single_shot (kind r)"
    "release c s = Inr s'" "cqe_user_data d = cqe_user_data c"
  shows "release d s' = Inl (UseAfterFree (cqe_user_data c))"
proof -
  obtain pool where "s' = s\<lparr>request_pool := pool\<rparr>"
      "block_size pool = (block_size (request_pool s))(cqe_user_data c := None)"
    using release_single_shot [OF assms(1-3)] assms(4) by auto
  then have "block_size (request_pool s') (cqe_user_data c) = None" by simp
  then have "map_of (blocks (request_pool s')) (cqe_user_data c) = None"
    by (simp add: block_size_def)
  moreover have "cqe_user_data c \<noteq> nullptr" using assms(2) by (simp add: deref_contents)
  ultimately show ?thesis using assms(5) by (simp add: release_def deref_def)
qed

section \<open>Walking the completions\<close>

text \<open>The reference: hand each completion to the function, oldest first, and release its request.\<close>

primrec reap ::
    "(cqe \<Rightarrow> ('x, 'z) submission_queue_scheme \<Rightarrow> stop + ('x, 'z) submission_queue_scheme) \<Rightarrow>
     cqe list \<Rightarrow> ('x, 'z) submission_queue_scheme \<Rightarrow> stop + ('x, 'z) submission_queue_scheme" where
  "reap f [] s = Inr s"
| "reap f (c # cs) s = bindE (bindE (f c s) (release c)) (reap f cs)"

text \<open>A function that leaves the completion ring alone.\<close>

definition keeps_cq ::
    "'x sys \<Rightarrow> ('x \<Rightarrow> cqe list) \<Rightarrow>
     (cqe \<Rightarrow> ('x, 'z) submission_queue_scheme \<Rightarrow> stop + ('x, 'z) submission_queue_scheme) \<Rightarrow> bool" where
  "keeps_cq X cq f \<longleftrightarrow> (\<forall>c s s'. f c s = Inr s' \<longrightarrow>
     cq (env s') = cq (env s) \<and> cq_khead X (env s') = cq_khead X (env s))"

lemma release_env: "release c s = Inr s' \<Longrightarrow> env s' = env s"
  by (subst release_frame [of c s s']) simp_all

text \<open>
  The same for a function that needs a condition to do so: \<open>K\<close> holds of the completions still to be walked
  and the state, step by step.
\<close>

definition walk_keeps_cq ::
    "'x sys \<Rightarrow> ('x \<Rightarrow> cqe list) \<Rightarrow> (cqe list \<Rightarrow> ('x, 'z) submission_queue_scheme \<Rightarrow> bool) \<Rightarrow>
     (cqe \<Rightarrow> ('x, 'z) submission_queue_scheme \<Rightarrow> stop + ('x, 'z) submission_queue_scheme) \<Rightarrow> bool" where
  "walk_keeps_cq X cq K f \<longleftrightarrow> (\<forall>c cs s s1 s2. K (c # cs) s \<longrightarrow> f c s = Inr s1 \<longrightarrow> release c s1 = Inr s2 \<longrightarrow>
     K cs s2 \<and> cq (env s1) = cq (env s) \<and> cq_khead X (env s1) = cq_khead X (env s))"

lemma keeps_cq_walk: "keeps_cq X cq f \<Longrightarrow> walk_keeps_cq X cq (\<lambda>_ _. True) f"
  by (simp add: keeps_cq_def walk_keeps_cq_def)

lemma walk_keeps_cqD:
  assumes "walk_keeps_cq X cq K f" "K (c # cs) s" "f c s = Inr s1" "release c s1 = Inr s2"
  shows "K cs s2" "cq (env s2) = cq (env s)" "cq_khead X (env s2) = cq_khead X (env s)"
  using assms release_env [OF assms(4)] unfolding walk_keeps_cq_def by metis+

lemma for_each_cqe_reap:
  assumes "cq_contract X cq" "walk_keeps_cq X cq K f"
    "i \<le> length (cq (env s))" "drop i (cq (env s)) = cs" "h = cq_khead X (env s) + of_nat i" "K cs s"
  shows "for_each_cqe X f h (of_nat i) s = Some (bindE (reap f cs s) (\<lambda>s'.
     Inr (if i + length cs = 0 then s'
          else s'\<lparr>env := io_uring_cq_advance X (of_nat (i + length cs)) (env s')\<rparr>)))"
  using assms(3-6)
proof (induction cs arbitrary: i s h)
  case Nil
  then have len: "length (cq (env s)) = i" by simp
  have "i < 2 ^ 32" using assms(1) len unfolding cq_contract_def by blast
  then have "(of_nat i :: 32 word) = 0 \<longleftrightarrow> i = 0"
    by (simp add: of_nat_small_eq_0)
  moreover have "cqe_at X (env s) h = None"
    using assms(1) Nil len unfolding cq_contract_def by simp
  ultimately show ?case by (simp add: for_each_cqe.simps)
next
  case (Cons c cs)
  then have lt: "i < length (cq (env s))" and nth: "cq (env s) ! i = c" and rest: "drop (Suc i) (cq (env s)) = cs"
    by (metis drop_all list.discI not_less, metis nth_via_drop, metis drop_Suc list.sel(3) drop_tl tl_drop)
  have at: "cqe_at X (env s) h = Some c"
    using assms(1) Cons.prems lt nth unfolding cq_contract_def by simp
  show ?case
  proof (cases "bindE (f c s) (release c)")
    case (Inl e)
    with at show ?thesis by (simp add: for_each_cqe.simps [of X f h])
  next
    case (Inr s')
    then obtain s1 where s1: "f c s = Inr s1" "release c s1 = Inr s'" by (auto simp: res_simps)
    note keep = walk_keeps_cqD [OF assms(2) Cons.prems(4) s1]
    then have "for_each_cqe X f (h + 1) (of_nat (Suc i)) s' = Some (bindE (reap f cs s') (\<lambda>s''.
       Inr (if Suc i + length cs = 0 then s''
            else s''\<lparr>env := io_uring_cq_advance X (of_nat (Suc i + length cs)) (env s'')\<rparr>)))"
      using Cons.IH [where i = "Suc i" and s = s' and h = "h + 1"] lt rest Cons.prems(3) keep
      by (simp add: add.assoc)
    with at Inr show ?thesis by (simp add: for_each_cqe.simps [of X f h] add.commute)
  qed
qed

lemma forEachCompletion_reap:
  assumes "cq_contract X cq" "walk_keeps_cq X cq K f" "K (cq (env s)) s"
  shows "forEachCompletion X f s = Some (bindE (reap f (cq (env s)) s) (\<lambda>s'.
     Inr (if cq (env s) = [] then s'
          else s'\<lparr>env := io_uring_cq_advance X (of_nat (length (cq (env s)))) (env s')\<rparr>)))"
  using for_each_cqe_reap [OF assms(1,2), of 0 s "cq (env s)" "cq_khead X (env s)"] assms(3)
  by (simp add: forEachCompletion_def cong: if_cong)

section \<open>A queue to run the theorems on\<close>

text \<open>Two requests wait in a queue over the reference environment: a write and a multi-shot read.\<close>

definition sample_write :: request where
  "sample_write = set_user_data 7 (WriteR (new_WriteRequest\<lparr>write_fd := 5, bytes_written := \<lparr>sp_base = 900, sp_len = 13\<rparr>\<rparr>))"

definition sample_multishot :: request where
  "sample_multishot = set_user_data 7 (MultiShotReadR (new_MultiShotReadRequest\<lparr>multishot_fd := 5, buffer_group_id := 1\<rparr>))"

definition sample_pool :: "request pool" where
  "sample_pool = \<lparr>blocks = [(1, 40, Some sample_write), (41, 24, Some sample_multishot)], free_blocks = [], pool_brk = 65\<rparr>"

definition sample_queue :: "ref_env submission_queue" where
  "sample_queue = \<lparr>env = ref_init, request_pool = sample_pool,
     pending_requests = pending_push READ_MULTISHOT 41 (pending_push WRITE 1 no_pending)\<rparr>"

lemma sample_kinds [simp]: "kind sample_write = WRITE" "kind sample_multishot = READ_MULTISHOT"
  by (simp_all add: sample_write_def sample_multishot_def)

lemma sample_wf [simp]: "wf_request sample_write" "wf_request sample_multishot"
  by (simp_all add: sample_write_def sample_multishot_def wf_request_def valid_def
      new_WriteRequest_def new_MultiShotReadRequest_def RequestHeader_of_def)

lemma sample_contents:
  "contents sample_pool = [1 \<mapsto> sample_write, 41 \<mapsto> sample_multishot]"
  "block_size sample_pool = [1 \<mapsto> 40, 41 \<mapsto> 24]"
  by (auto simp: sample_pool_def contents_def block_size_def fun_eq_iff)

lemma sample_pool_inv: "pool_inv sample_pool" "typed_pool sample_pool"
  by (simp add: sample_pool_def pool_inv_def live_def freed_def)
     (auto simp: typed_pool_def sample_contents split: if_splits)

lemma sample_entries:
  "pending_entries (pending_requests sample_queue) = [(READ_MULTISHOT, 41), (WRITE, 1)]"
  by (simp add: sample_queue_def pending_entries_def no_pending_def)

lemma sample_queue_inv: "sq_inv sample_queue"
  unfolding sq_inv_def sample_entries
  using sample_pool_inv by (simp add: sample_queue_def entries_ok_def deref_contents sample_contents)

section \<open>Properties of the submission queue\<close>

text \<open>A pushed request is copied to an address that no live block has, waits once, at the end of
  the list of its own type, and disturbs no request stored before; the queue's invariant (distinct
  pending addresses, each of a well-formed request of the right type and size) is kept.\<close>

lemma push_keeps_queue:
  assumes "sq_inv s" "wf_request r"
  shows "\<exists>s' p. push r s = Inr s' \<and> sq_inv s' \<and> env s' = env s \<and>
     block_size (request_pool s) p = None \<and> contents (request_pool s') = (contents (request_pool s))(p \<mapsto> r) \<and>
     pending_requests s' = pending_push (kind r) p (pending_requests s)"
  by (rule push_spec [OF assms]) auto

text \<open>C13. With room in the submission ring, one batch turns every pending request into exactly one
  submission entry that carries the request's own operation and arguments and, as user data, the
  address of the stored request; entries follow the order of the type list and, within a type, the
  order of insertion; nothing stays pending and the count is the number of requests.\<close>

theorem preparePendingRequests_submits_all:
  assumes "sq_inv s" "sq_contract X sq cap"
    "length (sq (env s)) + length (pending_entries (pending_requests s)) \<le> cap"
  shows "\<exists>x. preparePendingRequests X s =
       Inr (length (pending_entries (pending_requests s)), s\<lparr>env := x, pending_requests := no_pending\<rparr>) \<and>
     map snd (sq x) = map snd (sq (env s)) @
       map (\<lambda>e. request_calls (snd e) (the (contents (request_pool s) (snd e)))) (pending_entries (pending_requests s))"
  by (rule prepare_all [OF assms]) auto

theorem preparePendingRequests_submits_all_witness:
  "sq_contract (ref_sys 4) ref_sq 4 \<and>
   (\<exists>x. preparePendingRequests (ref_sys 4) sample_queue = Inr (2, sample_queue\<lparr>env := x, pending_requests := no_pending\<rparr>) \<and>
      map snd (ref_sq x) = [request_calls 41 sample_multishot, request_calls 1 sample_write])"
proof -
  have room: "length (ref_sq (env sample_queue)) + length (pending_entries (pending_requests sample_queue)) \<le> 4"
    unfolding sample_entries by (simp add: sample_queue_def ref_init_def)
  show ?thesis
    using preparePendingRequests_submits_all [OF sample_queue_inv ref_sq_contract room] ref_sq_contract
    unfolding sample_entries by (simp add: sample_queue_def ref_init_def sample_contents numeral_2_eq_2)
qed

text \<open>C35. When the ring is full and cannot be submitted, \<open>preparePendingRequests\<close> still reports every
  pending request as prepared and clears the list: no entry exists for them, they will never be
  submitted, and their blocks stay allocated.\<close>

theorem preparePendingRequests_drops_on_full_ring:
  assumes "sq_contract X sq cap" "cap \<le> length (sq (env s))" "\<forall>x. fst (io_uring_submit X x) < 0"
  shows "\<exists>x. preparePendingRequests X s =
       Inr (length (pending_entries (pending_requests s)), s\<lparr>env := x, pending_requests := no_pending\<rparr>) \<and>
     sq x = sq (env s)"
  using prepare_batch_stuck [OF assms, of "pending_entries (pending_requests s)" 0]
  by (force simp: preparePendingRequests_def pending_for_each_def)

text \<open>The reference environment with a submission that always fails.\<close>

definition stuck_sys :: "nat \<Rightarrow> ref_env sys" where
  "stuck_sys cap = (ref_sys cap)\<lparr>io_uring_submit := (\<lambda>x. (-16, x))\<rparr>"

lemma stuck_sq_contract: "sq_contract (stuck_sys cap) ref_sq cap"
  using ref_sq_contract [of cap] by (simp add: sq_contract_def stuck_sys_def)

theorem preparePendingRequests_drops_on_full_ring_witness:
  "\<exists>x. preparePendingRequests (stuck_sys 0) sample_queue = Inr (2, sample_queue\<lparr>env := x, pending_requests := no_pending\<rparr>) \<and>
     ref_sq x = []"
proof -
  have "ref_sq (env sample_queue) = []" by (simp add: sample_queue_def ref_init_def)
  then show ?thesis
    using preparePendingRequests_drops_on_full_ring [OF stuck_sq_contract, of 0 sample_queue]
    unfolding sample_entries by (simp add: stuck_sys_def numeral_2_eq_2)
qed

text \<open>Releasing the completion of a single-shot request (read, write, connect) frees exactly its
  block and keeps the invariant; a further completion for the same address would read freed memory.\<close>

lemma release_frees_single_shot:
  assumes "sq_inv s" "deref (request_pool s) (cqe_user_data c) = Inr r" "single_shot (kind r)"
    "cqe_user_data c \<notin> snd ` set (pending_entries (pending_requests s))"
  shows "\<exists>s'. release c s = Inr s' \<and> sq_inv s' \<and>
     contents (request_pool s') = (contents (request_pool s))(cqe_user_data c := None) \<and>
     live (request_pool s') = live (request_pool s) - {cqe_user_data c} \<and>
     release c s' = Inl (UseAfterFree (cqe_user_data c))"
proof -
  obtain pool where pool: "release c s = Inr (s\<lparr>request_pool := pool\<rparr>)"
      "contents pool = (contents (request_pool s))(cqe_user_data c := None)"
      "block_size pool = (block_size (request_pool s))(cqe_user_data c := None)"
    using release_single_shot [OF assms(1-3)] by blast
  have "live pool = live (request_pool s) - {cqe_user_data c}"
    by (simp add: live_dom pool(3))
  with pool release_inv [OF assms(1,4) pool(1)] release_twice [OF assms(1-3) pool(1) refl] show ?thesis
    by auto
qed

text \<open>C19. If the function run on the completions leaves the completion ring alone,
  \<open>forEachCompletion\<close> ends, has handed every posted completion to the function exactly once, oldest
  first, has released each one's request right after, and has then marked all of them as seen.\<close>

theorem forEachCompletion_reaps_all:
  assumes "cq_contract X cq" "keeps_cq X cq f"
  shows "forEachCompletion X f s = Some (bindE (reap f (cq (env s)) s) (\<lambda>s'.
     Inr (if cq (env s) = [] then s'
          else s'\<lparr>env := io_uring_cq_advance X (of_nat (length (cq (env s)))) (env s')\<rparr>)))"
  by (rule forEachCompletion_reap [OF assms(1) keeps_cq_walk [OF assms(2)] TrueI])

theorem forEachCompletion_reaps_all_witness:
  "forEachCompletion (ref_sys 4) (\<lambda>c s. Inr s)
     (sample_queue\<lparr>env := ref_init\<lparr>ref_cq := [\<lparr>cqe_user_data = 41, cqe_res = 3, cqe_flags = 1\<rparr>]\<rparr>\<rparr>) =
   Some (Inr (sample_queue\<lparr>env := ref_init\<lparr>ref_head := 1\<rparr>\<rparr>))"
proof -
  let ?c = "\<lparr>cqe_user_data = 41, cqe_res = 3, cqe_flags = 1\<rparr>"
  let ?s = "sample_queue\<lparr>env := ref_init\<lparr>ref_cq := [?c]\<rparr>\<rparr>"
  have keeps: "keeps_cq (ref_sys 4) ref_cq_view (\<lambda>c s. Inr s)" by (simp add: keeps_cq_def)
  have cq: "ref_cq_view (env ?s) = [?c]" by (simp add: ref_cq_view_def)
  have d: "deref (request_pool ?s) (cqe_user_data ?c) = Inr sample_multishot"
    by (simp add: deref_contents sample_queue_def sample_contents)
  have rel: "release ?c ?s = Inr ?s"
    by (rule release_multishot [OF d]) (simp_all add: single_shot_def)
  show ?thesis
    using forEachCompletion_reaps_all [OF ref_cq_contract keeps, of ?s] rel
    unfolding cq by (simp add: ref_sys_def ref_init_def ref_cq_view_def)
qed

end
