(* ===== verification/Event_Handler.thy ===== *)
theory Event_Handler
  imports Request_Pool
begin

text \<open>
  \<open>include/ringnet/status.hpp\<close>, \<open>events.hpp\<close>, \<open>eventHandler.hpp\<close> and \<open>errorHandler.hpp\<close>: statuses,
  events and the object that maps an event type to the callback registered for it.

  A callback is a value of the type \<open>'c\<close>, the closures of the program; running one is a parameter,
  so that the library is modelled for every program. An \<open>EventHandler\<close> lives somewhere in memory and
  its callbacks run while its mutex is held, so \<open>handle\<close> and \<open>on\<close> take the read and the write of
  that memory cell.
\<close>

record MessagedStatus =
  success :: bool
  message :: string

text \<open>The \<open>Events\<close> of the library, and \<open>Error\<close>, the event of an \<open>ErrorHandler\<close>.\<close>

datatype event =
    ErrorEvent int
  | AcceptEvent int
  | ConnectEvent
  | ReadEvent int span
  | WriteEvent int span
  | Error string

datatype event_type = ErrorEventT | AcceptEventT | ConnectEventT | ReadEventT | WriteEventT | ErrorT

primrec type_of :: "event \<Rightarrow> event_type" where
  "type_of (ErrorEvent n) = ErrorEventT"
| "type_of (AcceptEvent fd) = AcceptEventT"
| "type_of ConnectEvent = ConnectEventT"
| "type_of (ReadEvent fd b) = ReadEventT"
| "type_of (WriteEvent fd b) = WriteEventT"
| "type_of (Error msg) = ErrorT"

section \<open>EventHandler\<close>

text \<open>\<open>handlers\<close> is the tuple of \<open>std::function\<close>s, \<open>None\<close> an empty one; \<open>mutex_held\<close> the mutex.\<close>

record 'c event_handler =
  handlers :: "event_type \<Rightarrow> 'c option"
  mutex_held :: bool

definition new_EventHandler :: "'c event_handler" where
  "new_EventHandler = \<lparr>handlers = (\<lambda>_. None), mutex_held = False\<rparr>"

text \<open>\<open>std::mutex\<close> is not recursive: the thread that holds it and locks it again never proceeds.\<close>

definition lock :: "'c event_handler \<Rightarrow> stop + 'c event_handler" where
  "lock h = (if mutex_held h then Inl Deadlock else Inr (h\<lparr>mutex_held := True\<rparr>))"

definition unlock :: "'c event_handler \<Rightarrow> 'c event_handler" where
  "unlock h = h\<lparr>mutex_held := False\<rparr>"

definition on :: "('w \<Rightarrow> stop + 'c event_handler) \<Rightarrow> ('c event_handler \<Rightarrow> 'w \<Rightarrow> stop + 'w) \<Rightarrow>
    event_type \<Rightarrow> 'c \<Rightarrow> 'w \<Rightarrow> stop + 'w" where
  "on get put t f w =
     bindE (get w) (\<lambda>h.
     bindE (lock h) (\<lambda>h1.
       put (unlock (h1\<lparr>handlers := (handlers h1)(t \<mapsto> f)\<rparr>)) w))"

text \<open>
  \<open>handle\<close> holds the mutex during the callback and releases it on the handler object as the callback
  left it, which fails when the callback destroyed that object. It is \<open>noexcept\<close>.
\<close>

definition handle :: "('w \<Rightarrow> stop + 'c event_handler) \<Rightarrow> ('c event_handler \<Rightarrow> 'w \<Rightarrow> stop + 'w) \<Rightarrow>
    ('c \<Rightarrow> event \<Rightarrow> 'w \<Rightarrow> stop + 'w) \<Rightarrow> event \<Rightarrow> 'w \<Rightarrow> stop + 'w" where
  "handle get put run e w =
     noexceptE (
     bindE (get w) (\<lambda>h.
     bindE (lock h) (\<lambda>h1.
     bindE (put h1 w) (\<lambda>w1.
     bindE (case handlers h1 (type_of e) of None \<Rightarrow> Inr w1 | Some f \<Rightarrow> run f e w1) (\<lambda>w2.
     bindE (get w2) (\<lambda>h2.
       put (unlock h2) w2))))))"

section \<open>A handler in memory\<close>

locale handler_cell = memory_cell get put ok
  for get :: "'w \<Rightarrow> stop + 'c event_handler"
    and put :: "'c event_handler \<Rightarrow> 'w \<Rightarrow> stop + 'w"
    and ok :: "'w \<Rightarrow> bool"
begin

lemma on_registers:
  assumes "ok w" "get w = Inr h" "\<not> mutex_held h"
  obtains w' where "on get put t f w = Inr w'" "ok w'"
    "get w' = Inr (h\<lparr>handlers := (handlers h)(t \<mapsto> f)\<rparr>)"
proof -
  have "unlock (h\<lparr>mutex_held := True, handlers := (handlers h)(t \<mapsto> f)\<rparr>) = h\<lparr>handlers := (handlers h)(t \<mapsto> f)\<rparr>"
    using assms(3) by (simp add: unlock_def)
  with assms put_total [OF assms(1,2)] show thesis
    using that by (fastforce simp: on_def lock_def)
qed

lemma on_while_handling: "get w = Inr h \<Longrightarrow> mutex_held h \<Longrightarrow> on get put t f w = Inl Deadlock"
  by (simp add: on_def lock_def)

lemma handle_while_handling:
  "get w = Inr h \<Longrightarrow> mutex_held h \<Longrightarrow> handle get put run e w = Inl Deadlock"
  by (simp add: handle_def lock_def noexceptE_def)

lemma handle_unset:
  assumes "ok w" "get w = Inr h" "\<not> mutex_held h" "handlers h (type_of e) = None"
  shows "handle get put run e w = Inr w"
proof -
  obtain w1 where w1: "put (h\<lparr>mutex_held := True\<rparr>) w = Inr w1" "get w1 = Inr (h\<lparr>mutex_held := True\<rparr>)"
    using put_total [OF assms(1,2)] by blast
  have "unlock (h\<lparr>mutex_held := True\<rparr>) = h" using assms(3) by (simp add: unlock_def)
  with w1 assms show ?thesis
    by (simp add: handle_def lock_def put_put [OF w1(1)] put_same)
qed

lemma handle_runs:
  assumes "ok w" "get w = Inr h" "\<not> mutex_held h" "handlers h (type_of e) = Some f"
  obtains w1 where "put (h\<lparr>mutex_held := True\<rparr>) w = Inr w1" "ok w1" "get w1 = Inr (h\<lparr>mutex_held := True\<rparr>)"
    "handle get put run e w =
       noexceptE (bindE (run f e w1) (\<lambda>w2. bindE (get w2) (\<lambda>h2. put (unlock h2) w2)))"
proof -
  obtain w1 where "put (h\<lparr>mutex_held := True\<rparr>) w = Inr w1" "ok w1" "get w1 = Inr (h\<lparr>mutex_held := True\<rparr>)"
    using put_total [OF assms(1,2)] by blast
  with assms show thesis using that by (simp add: handle_def lock_def)
qed

lemma handle_unlocks:
  assumes "handle get put run e w = Inr w'" "ok w"
    and keep: "\<And>g u u'. run g e u = Inr u' \<Longrightarrow> ok u \<Longrightarrow> ok u'"
  shows "\<exists>h. get w' = Inr h \<and> \<not> mutex_held h"
proof -
  obtain h w1 w2 h2 where 1: "get w = Inr h" "put (h\<lparr>mutex_held := True\<rparr>) w = Inr w1"
      "(case handlers h (type_of e) of None \<Rightarrow> Inr w1 | Some f \<Rightarrow> run f e w1) = Inr w2"
      "get w2 = Inr h2" "put (unlock h2) w2 = Inr w'"
    using assms(1) by (auto simp: handle_def lock_def res_simps split: if_splits)
  have "ok w1" using put_total [OF assms(2) 1(1), of "h\<lparr>mutex_held := True\<rparr>"] 1(2) by auto
  then have "ok w2" using 1(3) keep by (auto split: option.splits)
  then have "get w' = Inr (unlock h2)" using put_total [OF _ 1(4), of "unlock h2"] 1(5) by auto
  then show ?thesis by (simp add: unlock_def)
qed

end

end
