(* ===== verification/Buffer_Ring.thy ===== *)
theory Buffer_Ring
  imports Submission_Queue Event_Handler
begin

text \<open>
  \<open>include/ringnet/uring/bufferRing.hpp\<close>: the buffers handed to the kernel so that a multi-shot read
  can pick one per completion. A buffer is given to the kernel by adding it to the ring and moving
  the ring's tail; the completion that used it names it in the upper half of its flags; the event
  loop gives it back after the event was handled.
\<close>

text \<open>The members of \<open>BufferRing\<close>; its \<open>io_ring\<close> refers to the ring of the submission queue.\<close>

record 'x buffer_ring_state = "'x submission_queue" +
  buffer_ring :: ptr
  ring_buffers :: "span list"

definition BUFFER_GROUP_ID :: int where "BUFFER_GROUP_ID = 1"
definition BUFFER_RING_FLAGS :: "32 word" where "BUFFER_RING_FLAGS = 0"

definition isPowerOfTwo :: "64 word \<Rightarrow> bool" where
  "isPowerOfTwo n \<longleftrightarrow> and n (n - 1) = 0"

text \<open>One turn of the filling loop of \<open>setupBuffers\<close>, for the buffer \<open>buffer_id\<close>.\<close>

definition add_buffer ::
    "'x sys \<Rightarrow> nat \<Rightarrow> int \<Rightarrow> ('x, 'z) buffer_ring_state_scheme \<Rightarrow> ('x, 'z) buffer_ring_state_scheme" where
  "add_buffer X buffer_id buf_offset s =
     s\<lparr>env := io_uring_buf_ring_add X (buffer_ring s) (ring_buffers s ! buffer_id) (word_of_nat buffer_id)
               (io_uring_buf_ring_mask X (word_of_nat (length (ring_buffers s)))) buf_offset (env s)\<rparr>"

definition free_buffer_ring ::
    "'x sys \<Rightarrow> ('x, 'z) buffer_ring_state_scheme \<Rightarrow> ('x, 'z) buffer_ring_state_scheme" where
  "free_buffer_ring X s =
     (if buffer_ring s \<noteq> nullptr
      then s\<lparr>env := io_uring_free_buf_ring X (buffer_ring s) (word_of_nat (length (ring_buffers s))) BUFFER_GROUP_ID (env s)\<rparr>
      else s)"

definition setupBuffers ::
    "'x sys \<Rightarrow> span list \<Rightarrow> ('x, 'z) buffer_ring_state_scheme \<Rightarrow> MessagedStatus \<times> ('x, 'z) buffer_ring_state_scheme" where
  "setupBuffers X bufs s =
     (if \<not> isPowerOfTwo (word_of_nat (length bufs))
      then (\<lparr>success = False, message = ''The number of entries must be a power of two''\<rparr>, s)
      else
        let s1 = (free_buffer_ring X s)\<lparr>ring_buffers := bufs\<rparr> in
        (case io_uring_setup_buf_ring X (word_of_nat (length bufs)) BUFFER_GROUP_ID BUFFER_RING_FLAGS (env s1) of
           (br, status, x) \<Rightarrow>
             let s2 = s1\<lparr>env := x, buffer_ring := br\<rparr> in
             if br = nullptr then (\<lparr>success = False, message = sys_strerror X (- status)\<rparr>, s2)
             else
               let s3 = fold (\<lambda>buffer_id. add_buffer X buffer_id (int buffer_id)) [0..<length bufs] s2;
                   s4 = s3\<lparr>env := io_uring_buf_ring_advance X br (int (length bufs)) (env s3)\<rparr>
               in (\<lparr>success = True, message = ''Buffers added''\<rparr>, s4)))"

text \<open>The destructor.\<close>

definition delete_BufferRing ::
    "'x sys \<Rightarrow> ('x, 'z) buffer_ring_state_scheme \<Rightarrow> ('x, 'z) buffer_ring_state_scheme" where
  "delete_BufferRing X s = free_buffer_ring X s"

definition br_get :: "cqe \<Rightarrow> ('x, 'z) buffer_ring_state_scheme \<Rightarrow> span option" where
  "br_get c s =
     (if or (cqe_flags c) IORING_CQE_F_BUFFER = 0 then None
      else let buffer_id = uint (drop_bit IORING_CQE_BUFFER_SHIFT (cqe_flags c)) in
        if buffer_id < 0 \<or> size_as_int (length (ring_buffers s)) - 1 < buffer_id then None
        else Some (ring_buffers s ! nat buffer_id))"

definition br_release ::
    "'x sys \<Rightarrow> cqe \<Rightarrow> ('x, 'z) buffer_ring_state_scheme \<Rightarrow> stop + ('x, 'z) buffer_ring_state_scheme" where
  "br_release X c s =
     (if or (cqe_flags c) IORING_CQE_F_BUFFER \<noteq> 0 then
        let buffer_id = unat (drop_bit IORING_CQE_BUFFER_SHIFT (cqe_flags c)) in
        if length (ring_buffers s) \<le> buffer_id then Inl OutOfBounds
        else let s1 = add_buffer X buffer_id 0 s in
          Inr (s1\<lparr>env := io_uring_buf_ring_advance X (buffer_ring s1) 1 (env s1)\<rparr>)
      else Inr s)"

section \<open>Powers of two\<close>

lemma nat_and_pred_power: "and (2 ^ k) (2 ^ k - 1) = (0 :: nat)"
proof -
  have "and (2 ^ k) (mask k) = take_bit k (2 ^ k :: nat)" by (simp only: take_bit_eq_mask)
  also have "\<dots> = 0" by (simp add: take_bit_eq_mod)
  finally show ?thesis by (simp add: mask_eq_exp_minus_1)
qed

lemma nat_and_pred_iff:
  assumes "0 < (m :: nat)"
  shows "and m (m - 1) = 0 \<longleftrightarrow> (\<exists>k. m = 2 ^ k)"
proof
  assume zero: "and m (m - 1) = 0"
  obtain k where k: "2 ^ k \<le> m" "m < 2 ^ (k + 1)"
    using ex_power_ivl1 [of 2 m] assms by auto
  have top: "bit x k" if "2 ^ k \<le> x" "x < 2 ^ (k + 1)" for x :: nat
  proof -
    have "x div 2 ^ k = 1" using that by (intro div_nat_eqI) simp_all
    then show ?thesis by (simp add: bit_iff_odd)
  qed
  have "m = 2 ^ k"
  proof (rule ccontr)
    assume "m \<noteq> 2 ^ k"
    with k have "bit m k" "bit (m - 1) k" by (auto intro!: top)
    then have "bit (and m (m - 1)) k" by (simp add: bit_and_iff)
    with zero show False by simp
  qed
  then show "\<exists>k. m = 2 ^ k" ..
next
  assume "\<exists>k. m = 2 ^ k"
  then show "and m (m - 1) = 0" using nat_and_pred_power by auto
qed

text \<open>The test accepts exactly the powers of two, and zero, for which \<open>n - 1\<close> wraps around.\<close>

lemma isPowerOfTwo_iff: "isPowerOfTwo n \<longleftrightarrow> n = 0 \<or> (\<exists>k. unat n = 2 ^ k)"
proof (cases "n = 0")
  case True
  then show ?thesis by (simp add: isPowerOfTwo_def)
next
  case False
  then have pos: "0 < unat n" by (simp add: unat_gt_0)
  have "unat (and n (n - 1)) = and (unat n) (unat n - 1)"
    using False by (simp add: unsigned_and_eq unat_minus_one)
  then have "isPowerOfTwo n \<longleftrightarrow> and (unat n) (unat n - 1) = 0"
    unfolding isPowerOfTwo_def by (metis unat_eq_zero)
  with nat_and_pred_iff [OF pos] False show ?thesis by simp
qed

section \<open>Filling the ring\<close>

lemma fold_add_buffer:
  assumes "br_contract X br (length (ring_buffers s)) avail staged" "buffer_ring s = br"
    "k \<le> length (ring_buffers s)"
  obtains x where "fold (\<lambda>i. add_buffer X i (int i)) [0..<k] s = s\<lparr>env := x\<rparr>"
    "avail x = avail (env s)"
    "\<forall>i. staged x i = (if i < k then Some (word_of_nat i, ring_buffers s ! i) else staged (env s) i)"
  using assms(3)
proof (induction k arbitrary: thesis)
  case 0
  have "s = s\<lparr>env := env s\<rparr>" by simp
  then show ?case using 0(1) [of "env s"] by simp
next
  case (Suc k)
  obtain x where x: "fold (\<lambda>i. add_buffer X i (int i)) [0..<k] s = s\<lparr>env := x\<rparr>"
      "avail x = avail (env s)"
      "\<forall>i. staged x i = (if i < k then Some (word_of_nat i, ring_buffers s ! i) else staged (env s) i)"
    using Suc.IH Suc.prems(2) Suc_leD by blast
  let ?y = "io_uring_buf_ring_add X br (ring_buffers s ! k) (word_of_nat k)
      (io_uring_buf_ring_mask X (word_of_nat (length (ring_buffers s)))) (int k) x"
  have "avail ?y = avail x" "staged ?y = (staged x)(k \<mapsto> (word_of_nat k, ring_buffers s ! k))"
    using br_contract_add [OF assms(1)] Suc.prems(2) by simp_all
  moreover have "add_buffer X k (int k) (s\<lparr>env := x\<rparr>) = s\<lparr>env := ?y\<rparr>"
    using assms(2) by (simp add: add_buffer_def)
  ultimately show ?case
    using x by (intro Suc.prems(1) [of ?y]) auto
qed

text \<open>
  On success the kernel holds every buffer once, under its own index; a failure of the kernel to set
  the ring up is reported with the kernel's error.
\<close>

lemma setupBuffers_success:
  assumes "length bufs = 2 ^ k" "k < 64"
    "io_uring_setup_buf_ring X (word_of_nat (length bufs)) BUFFER_GROUP_ID BUFFER_RING_FLAGS (env (free_buffer_ring X s)) = (br, st, x)"
    "br \<noteq> nullptr" "br_contract X br (length bufs) avail staged"
  obtains x' where "setupBuffers X bufs s =
      (\<lparr>success = True, message = ''Buffers added''\<rparr>, s\<lparr>env := x', buffer_ring := br, ring_buffers := bufs\<rparr>)"
    "avail x' = avail x @ map (\<lambda>i. (word_of_nat i, bufs ! i)) [0..<length bufs]"
proof -
  have "unat (word_of_nat (length bufs) :: 64 word) = 2 ^ k"
    unfolding assms(1) using assms(2) by (intro unat_of_nat_small) (simp only: len_bit0 len_bit1 len_num1 power_strict_increasing_iff; simp)
  then have pow: "isPowerOfTwo (word_of_nat (length bufs))" by (auto simp: isPowerOfTwo_iff)
  let ?s2 = "s\<lparr>env := x, buffer_ring := br, ring_buffers := bufs\<rparr>"
  have s2: "(free_buffer_ring X s)\<lparr>ring_buffers := bufs, env := x, buffer_ring := br\<rparr> = ?s2"
    by (simp add: free_buffer_ring_def)
  obtain y where y: "fold (\<lambda>i. add_buffer X i (int i)) [0..<length bufs] ?s2 = ?s2\<lparr>env := y\<rparr>"
      "avail y = avail x"
      "\<forall>i. staged y i = (if i < length bufs then Some (word_of_nat i, bufs ! i) else staged x i)"
  proof (rule fold_add_buffer [of X br ?s2 avail staged "length bufs"])
    fix y assume "fold (\<lambda>i. add_buffer X i (int i)) [0..<length bufs] ?s2 = ?s2\<lparr>env := y\<rparr>"
      "avail y = avail (env ?s2)"
      "\<forall>i. staged y i = (if i < length bufs then Some (word_of_nat i, ring_buffers ?s2 ! i) else staged (env ?s2) i)"
    then show thesis by (intro that [of y]) (simp_all cong: if_cong)
  qed (use assms(5) in simp_all)
  let ?z = "io_uring_buf_ring_advance X br (int (length bufs)) y"
  have "avail ?z = avail y @ map (\<lambda>i. the (staged y i)) [0..<length bufs]"
    using y(3) by (intro br_contract_advance [OF assms(5)]) auto
  also have "\<dots> = avail x @ map (\<lambda>i. (word_of_nat i, bufs ! i)) [0..<length bufs]"
    using y(2,3) by simp
  finally show thesis
    using that [of ?z] pow assms(3,4) y(1) s2 by (simp add: setupBuffers_def Let_def)
qed

section \<open>Taking and giving back\<close>

lemma buffer_flag_guard: "or w IORING_CQE_F_BUFFER \<noteq> 0"
proof
  assume "or w IORING_CQE_F_BUFFER = 0"
  then have "bit (or w IORING_CQE_F_BUFFER) 0 = bit (0 :: 32 word) 0" by simp
  then show False by (simp add: bit_or_iff IORING_CQE_F_BUFFER_def)
qed

definition cqe_buffer_id :: "cqe \<Rightarrow> nat" where
  "cqe_buffer_id c = unat (drop_bit IORING_CQE_BUFFER_SHIFT (cqe_flags c))"

lemma cqe_buffer_id_bound: "cqe_buffer_id c < 2 ^ 16"
proof -
  have "unat (cqe_flags c) < 2 ^ 32" by (rule order_less_le_trans [OF unsigned_less]) simp
  then show ?thesis
    by (simp add: cqe_buffer_id_def IORING_CQE_BUFFER_SHIFT_def drop_bit_eq_div unat_div
        less_mult_imp_div_less)
qed

lemma br_get_raw:
  "br_get c s = (if int (cqe_buffer_id c) < size_as_int (length (ring_buffers s))
     then Some (ring_buffers s ! cqe_buffer_id c) else None)"
proof -
  have "uint (drop_bit IORING_CQE_BUFFER_SHIFT (cqe_flags c)) = int (cqe_buffer_id c)"
    by (simp add: cqe_buffer_id_def)
  then show ?thesis by (auto simp: br_get_def buffer_flag_guard Let_def)
qed

lemma br_get_Some:
  "br_get c s = Some b \<Longrightarrow> cqe_buffer_id c < length (ring_buffers s) \<and> b = ring_buffers s ! cqe_buffer_id c"
  using size_as_int_le [of "length (ring_buffers s)"] by (auto simp: br_get_raw split: if_splits)

lemma br_get_eq:
  "length (ring_buffers s) < 2 ^ 31 \<Longrightarrow>
   br_get c s = (if cqe_buffer_id c < length (ring_buffers s) then Some (ring_buffers s ! cqe_buffer_id c) else None)"
  by (simp add: br_get_raw size_as_int_small)

lemma br_release_eq:
  "br_release X c s =
     (if cqe_buffer_id c < length (ring_buffers s)
      then let s1 = add_buffer X (cqe_buffer_id c) 0 s in
        Inr (s1\<lparr>env := io_uring_buf_ring_advance X (buffer_ring s) 1 (env s1)\<rparr>)
      else Inl OutOfBounds)"
  by (auto simp: br_release_def buffer_flag_guard cqe_buffer_id_def Let_def add_buffer_def)

lemma br_release_gives_back:
  assumes "br_contract X (buffer_ring s) (length (ring_buffers s)) avail staged"
    "cqe_buffer_id c < length (ring_buffers s)"
  obtains x where "br_release X c s = Inr (s\<lparr>env := x\<rparr>)"
    "avail x = avail (env s) @ [(word_of_nat (cqe_buffer_id c), ring_buffers s ! cqe_buffer_id c)]"
proof -
  let ?b = "cqe_buffer_id c" and ?n = "length (ring_buffers s)"
  let ?y = "io_uring_buf_ring_add X (buffer_ring s) (ring_buffers s ! ?b) (word_of_nat ?b)
      (io_uring_buf_ring_mask X (word_of_nat ?n)) (int 0) (env s)"
  have n: "0 < ?n" using assms(2) by (rule order_le_less_trans [OF le0])
  have y: "avail ?y = avail (env s)" "staged ?y = (staged (env s))(0 \<mapsto> (word_of_nat ?b, ring_buffers s ! ?b))"
    using br_contract_add [OF assms(1) n] by simp_all
  have "avail (io_uring_buf_ring_advance X (buffer_ring s) (int 1) ?y) = avail ?y @ map (\<lambda>i. the (staged ?y i)) [0..<1]"
    using Suc_leI [OF n] y(2) by (intro br_contract_advance [OF assms(1)]) simp_all
  with y assms(2) show thesis
    by (intro that [of "io_uring_buf_ring_advance X (buffer_ring s) 1 ?y"]) (simp_all add: br_release_eq add_buffer_def Let_def)
qed

section \<open>Properties of the buffer ring\<close>

definition sample_buffers :: "span list" where
  "sample_buffers = map (\<lambda>i. \<lparr>sp_base = 5000 + 1024 * i, sp_len = 1024\<rparr>) [0..<4]"

definition sample_ring :: "ref_env buffer_ring_state" where
  "sample_ring = \<lparr>env = ref_init, request_pool = empty_pool, pending_requests = no_pending,
     buffer_ring = nullptr, ring_buffers = []\<rparr>"

text \<open>The size test accepts a number of buffers exactly when it is a power of two \<dots> or zero,
  where the predecessor wraps around to the largest \<open>size_t\<close>.\<close>

lemma isPowerOfTwo_correct: "isPowerOfTwo n \<longleftrightarrow> n = 0 \<or> (\<exists>k < 64. n = 2 ^ k)"
proof
  assume "isPowerOfTwo n"
  then show "n = 0 \<or> (\<exists>k < 64. n = 2 ^ k)"
  proof (cases "n = 0")
    case False
    with \<open>isPowerOfTwo n\<close> obtain k where k: "unat n = 2 ^ k" by (auto simp: isPowerOfTwo_iff)
    have "(2 :: nat) ^ k < 2 ^ 64" using k unsigned_less [of n, where 'a = nat] by simp
    then have "k < 64" by (simp only: power_strict_increasing_iff)
    moreover have "n = word_of_nat (2 ^ k)" using of_nat_unat [of n, where 'a = "64 word"] unfolding k by simp
    ultimately show ?thesis by auto
  qed simp
next
  assume "n = 0 \<or> (\<exists>k < 64. n = 2 ^ k)"
  then show "isPowerOfTwo n"
  proof
    assume "\<exists>k < 64. n = 2 ^ k"
    then obtain k :: nat where k: "k < 64" "n = word_of_nat (2 ^ k)" by auto
    have "unat n = 2 ^ k"
      unfolding k(2) using k(1)
      by (intro unat_of_nat_small) (simp only: len_bit0 len_bit1 len_num1 power_strict_increasing_iff; simp)
    then show ?thesis by (auto simp: isPowerOfTwo_iff)
  qed (simp add: isPowerOfTwo_def)
qed

text \<open>C24. When the kernel sets the ring up, \<open>setupBuffers\<close> hands it every buffer exactly once, in
  order, each under its own index, and remembers the ring and the buffers.\<close>

theorem setupBuffers_publishes_each_once:
  assumes "length bufs = 2 ^ k" "k < 64"
    "io_uring_setup_buf_ring X (word_of_nat (length bufs)) BUFFER_GROUP_ID BUFFER_RING_FLAGS (env (free_buffer_ring X s)) = (br, st, x)"
    "br \<noteq> nullptr" "br_contract X br (length bufs) avail staged"
  shows "\<exists>x'. setupBuffers X bufs s =
      (\<lparr>success = True, message = ''Buffers added''\<rparr>, s\<lparr>env := x', buffer_ring := br, ring_buffers := bufs\<rparr>) \<and>
    avail x' = avail x @ map (\<lambda>i. (word_of_nat i, bufs ! i)) [0..<length bufs]"
  by (rule setupBuffers_success [OF assms]) blast

theorem setupBuffers_publishes_each_once_witness:
  "\<exists>x'. setupBuffers (ref_sys 4) sample_buffers sample_ring =
      (\<lparr>success = True, message = ''Buffers added''\<rparr>, sample_ring\<lparr>env := x', buffer_ring := 1, ring_buffers := sample_buffers\<rparr>) \<and>
    map fst (ref_avail x') = [0, 1, 2, 3]"
proof -
  have "length sample_buffers = 2 ^ 2" by (simp add: sample_buffers_def)
  moreover have "io_uring_setup_buf_ring (ref_sys 4) (word_of_nat (length sample_buffers)) BUFFER_GROUP_ID
      BUFFER_RING_FLAGS (env (free_buffer_ring (ref_sys 4) sample_ring)) = (1, 0, ref_init)"
    by (simp add: ref_sys_def free_buffer_ring_def sample_ring_def)
  ultimately show ?thesis
    using setupBuffers_publishes_each_once [OF _ _ _ _ ref_br_contract, of sample_buffers 2 4 sample_ring 1 0 ref_init]
    by (auto simp: ref_init_def sample_buffers_def upt_rec)
qed

text \<open>Giving back the buffer of a completion makes exactly that buffer available to the kernel
  again, at the end of the queue, under the same index and address.\<close>

lemma release_returns_the_buffer:
  assumes "br_contract X (buffer_ring s) (length (ring_buffers s)) avail staged"
    "br_get c s = Some b"
  shows "\<exists>x. br_release X c s = Inr (s\<lparr>env := x\<rparr>) \<and>
     avail x = avail (env s) @ [(word_of_nat (cqe_buffer_id c), b)]"
proof -
  have "cqe_buffer_id c < length (ring_buffers s)" "b = ring_buffers s ! cqe_buffer_id c"
    using br_get_Some [OF assms(2)] by simp_all
  with br_release_gives_back [OF assms(1)] show ?thesis by metis
qed

end
