(* ===== verification/Event_Loop.thy ===== *)
theory Event_Loop
  imports Buffer_Ring
begin

text \<open>
  \<open>include/ringnet/eventLoop.hpp\<close> and \<open>src/ringnet/eventLoop.cpp\<close>: the object that owns the
  submission queue and the buffer ring, takes requests on behalf of subscribers and, in its loop,
  submits them and turns every completion into one event for the subscriber of its request.

  The callbacks of the program are closures of type \<open>'c\<close>; \<open>cb\<close> runs one on an event in a state of the
  whole program (a record that extends \<open>event_loop\<close>). Subscribers live on the C++ heap, in
  \<open>subscribers\<close>; \<open>cerr\<close> is what was written to \<open>std::cerr\<close>.
\<close>

datatype 'c error_callback = PrintToCerr | UserCallback 'c

record ('x, 'c) event_loop = "'x buffer_ring_state" +
  should_continue :: bool
  error_handler :: "'c error_callback event_handler"
  subscribers :: "'c event_handler pool"
  cerr :: string

section \<open>Handlers in memory\<close>

definition get_subscriber :: "ptr \<Rightarrow> ('x, 'c, 'z) event_loop_scheme \<Rightarrow> stop + 'c event_handler" where
  "get_subscriber p w = deref (subscribers w) p"

definition put_subscriber :: "ptr \<Rightarrow> 'c event_handler \<Rightarrow> ('x, 'c, 'z) event_loop_scheme \<Rightarrow> stop + ('x, 'c, 'z) event_loop_scheme" where
  "put_subscriber p h w = bindE (store p h (subscribers w)) (\<lambda>pool. Inr (w\<lparr>subscribers := pool\<rparr>))"

definition get_error_handler :: "('x, 'c, 'z) event_loop_scheme \<Rightarrow> stop + 'c error_callback event_handler" where
  "get_error_handler w = Inr (error_handler w)"

definition put_error_handler :: "'c error_callback event_handler \<Rightarrow> ('x, 'c, 'z) event_loop_scheme \<Rightarrow> stop + ('x, 'c, 'z) event_loop_scheme" where
  "put_error_handler h w = Inr (w\<lparr>error_handler := h\<rparr>)"

text \<open>\<open>std::make_unique<Subscriber>()\<close> and the destruction of the object.\<close>

definition sizeof_Subscriber :: nat where
  "sizeof_Subscriber = 200"

definition new_Subscriber :: "('x, 'c, 'z) event_loop_scheme \<Rightarrow> stop + (ptr \<times> ('x, 'c, 'z) event_loop_scheme)" where
  "new_Subscriber w =
     (case allocate sizeof_Subscriber (subscribers w) of (p, pool1) \<Rightarrow>
        bindE (store p new_EventHandler pool1) (\<lambda>pool2. Inr (p, w\<lparr>subscribers := pool2\<rparr>)))"

definition delete_Subscriber :: "ptr \<Rightarrow> ('x, 'c, 'z) event_loop_scheme \<Rightarrow> stop + ('x, 'c, 'z) event_loop_scheme" where
  "delete_Subscriber p w =
     bindE (deallocate sizeof_Subscriber p (subscribers w)) (\<lambda>pool. Inr (w\<lparr>subscribers := pool\<rparr>))"

text \<open>\<open>subscriber->on<Event>(f)\<close> and \<open>subscriber->handle(event)\<close>.\<close>

definition subscriber_on :: "ptr \<Rightarrow> event_type \<Rightarrow> 'c \<Rightarrow> ('x, 'c, 'z) event_loop_scheme \<Rightarrow> stop + ('x, 'c, 'z) event_loop_scheme" where
  "subscriber_on p t f w = on (get_subscriber p) (put_subscriber p) t f w"

definition subscriber_handle ::
    "('c \<Rightarrow> event \<Rightarrow> ('x, 'c, 'z) event_loop_scheme \<Rightarrow> stop + ('x, 'c, 'z) event_loop_scheme) \<Rightarrow>
     ptr \<Rightarrow> event \<Rightarrow> ('x, 'c, 'z) event_loop_scheme \<Rightarrow> stop + ('x, 'c, 'z) event_loop_scheme" where
  "subscriber_handle cb p e w = handle (get_subscriber p) (put_subscriber p) cb e w"

section \<open>ErrorHandler\<close>

primrec run_error_callback ::
    "('c \<Rightarrow> event \<Rightarrow> ('x, 'c, 'z) event_loop_scheme \<Rightarrow> stop + ('x, 'c, 'z) event_loop_scheme) \<Rightarrow>
     'c error_callback \<Rightarrow> event \<Rightarrow> ('x, 'c, 'z) event_loop_scheme \<Rightarrow> stop + ('x, 'c, 'z) event_loop_scheme" where
  "run_error_callback cb PrintToCerr e w =
     Inr (w\<lparr>cerr := cerr w @ (case e of Error msg \<Rightarrow> msg | _ \<Rightarrow> [])\<rparr>)"
| "run_error_callback cb (UserCallback c) e w = cb c e w"

text \<open>\<open>Error\<close> from an error event: the message is \<open>error_event.what()\<close>, that is \<open>strerror\<close> of its code.\<close>

definition Error_of_event :: "'x sys \<Rightarrow> int \<Rightarrow> event" where
  "Error_of_event X error_code = Error (sys_strerror X error_code)"

text \<open>The default constructor registers the callback that prints.\<close>

definition new_ErrorHandler :: "'c error_callback event_handler" where
  "new_ErrorHandler = new_EventHandler\<lparr>handlers := (handlers new_EventHandler)(ErrorT \<mapsto> PrintToCerr)\<rparr>"

definition error_handle ::
    "('c \<Rightarrow> event \<Rightarrow> ('x, 'c, 'z) event_loop_scheme \<Rightarrow> stop + ('x, 'c, 'z) event_loop_scheme) \<Rightarrow>
     string \<Rightarrow> ('x, 'c, 'z) event_loop_scheme \<Rightarrow> stop + ('x, 'c, 'z) event_loop_scheme" where
  "error_handle cb msg w = handle get_error_handler put_error_handler (run_error_callback cb) (Error msg) w"

text \<open>The overload of \<open>handle\<close> that takes an \<open>Error\<close>.\<close>

definition error_handle_event ::
    "('c \<Rightarrow> event \<Rightarrow> ('x, 'c, 'z) event_loop_scheme \<Rightarrow> stop + ('x, 'c, 'z) event_loop_scheme) \<Rightarrow>
     event \<Rightarrow> ('x, 'c, 'z) event_loop_scheme \<Rightarrow> stop + ('x, 'c, 'z) event_loop_scheme" where
  "error_handle_event cb error w = handle get_error_handler put_error_handler (run_error_callback cb) error w"

definition error_onError :: "'c error_callback \<Rightarrow> ('x, 'c, 'z) event_loop_scheme \<Rightarrow> stop + ('x, 'c, 'z) event_loop_scheme" where
  "error_onError callback w = on get_error_handler put_error_handler ErrorT callback w"

definition loop_onError :: "'c \<Rightarrow> ('x, 'c, 'z) event_loop_scheme \<Rightarrow> stop + ('x, 'c, 'z) event_loop_scheme" where
  "loop_onError callback w = error_onError (UserCallback callback) w"

section \<open>EventLoop\<close>

text \<open>The member array \<open>buffers\<close>: 2048 buffers of 1024 bytes, at the address \<open>base\<close>.\<close>

definition loop_buffers :: "ptr \<Rightarrow> span list" where
  "loop_buffers base = map (\<lambda>i. \<lparr>sp_base = base + 1024 * i, sp_len = 1024\<rparr>) [0..<2048]"

definition new_EventLoop ::
    "('c \<Rightarrow> event \<Rightarrow> ('x, 'c) event_loop \<Rightarrow> stop + ('x, 'c) event_loop) \<Rightarrow>
     'x sys \<Rightarrow> nat \<Rightarrow> ptr \<Rightarrow> 'x \<Rightarrow> stop + ('x, 'c) event_loop" where
  "new_EventLoop cb X request_queue_size base x =
     bindE (new_SubmissionQueue X request_queue_size x) (\<lambda>q.
       let w = \<lparr>env = env q, request_pool = request_pool q, pending_requests = pending_requests q,
                buffer_ring = nullptr, ring_buffers = [],
                should_continue = True, error_handler = new_ErrorHandler,
                subscribers = empty_pool, cerr = []\<rparr>
       in (case setupBuffers X (loop_buffers base) w of (status, w1) \<Rightarrow>
             if \<not> success status then error_handle cb (message status) w1 else Inr w1))"

definition loop_stop :: "('x, 'c, 'z) event_loop_scheme \<Rightarrow> ('x, 'c, 'z) event_loop_scheme" where
  "loop_stop w = w\<lparr>should_continue := False\<rparr>"

definition delete_EventLoop :: "'x sys \<Rightarrow> ('x, 'c, 'z) event_loop_scheme \<Rightarrow> ('x, 'c, 'z) event_loop_scheme" where
  "delete_EventLoop X w = delete_SubmissionQueue X (delete_BufferRing X (loop_stop w))"

definition loop_cancel :: "'x sys \<Rightarrow> int \<Rightarrow> ('x, 'c, 'z) event_loop_scheme \<Rightarrow> ('x, 'c, 'z) event_loop_scheme" where
  "loop_cancel X socket_fd w = sq_cancel X socket_fd w"

definition loop_add :: "request \<Rightarrow> ptr \<Rightarrow> ('x, 'c, 'z) event_loop_scheme \<Rightarrow> stop + (AddRequestStatus \<times> ('x, 'c, 'z) event_loop_scheme)" where
  "loop_add r subscriber w =
     (let r1 = (case r of MultiShotReadR m \<Rightarrow> MultiShotReadR (m\<lparr>buffer_group_id := word_of_int BUFFER_GROUP_ID\<rparr>)
                        | _ \<Rightarrow> r)
      in bindE (push (set_user_data subscriber r1) w) (\<lambda>w'. Inr (OK, w')))"

definition getAssociatedSubscriber :: "RequestHeader \<Rightarrow> ptr" where
  "getAssociatedSubscriber h = user_data h"

text \<open>\<open>logIssuingRequest\<close> prints the request behind a completion, chosen by the header's tag.\<close>

definition logIssuingRequest :: "cqe \<Rightarrow> ('x, 'c, 'z) event_loop_scheme \<Rightarrow> stop + ('x, 'c, 'z) event_loop_scheme" where
  "logIssuingRequest c w =
     bindE (deref (request_pool w) (cqe_user_data c)) (\<lambda>r.
     bindE (case operation_of (op (header r)) of
          Some ACCEPT \<Rightarrow> bindE (as_AcceptRequest (cqe_user_data c) r) (\<lambda>q. Inr (print_request (AcceptR q)))
        | Some READ \<Rightarrow> bindE (as_ReadRequest (cqe_user_data c) r) (\<lambda>q. Inr (print_request (ReadR q)))
        | Some READ_MULTISHOT \<Rightarrow>
            bindE (as_MultiShotReadRequest (cqe_user_data c) r) (\<lambda>q. Inr (print_request (MultiShotReadR q)))
        | Some WRITE \<Rightarrow> bindE (as_WriteRequest (cqe_user_data c) r) (\<lambda>q. Inr (print_request (WriteR q)))
        | Some CONNECT \<Rightarrow> bindE (as_ConnectRequest (cqe_user_data c) r) (\<lambda>q. Inr (print_request (ConnectR q)))
        | None \<Rightarrow> Inr (''malformed completion queue entry'' @ newline)) (\<lambda>text.
       Inr (w\<lparr>cerr := cerr w @ ''During handling of '' @ text @ newline\<rparr>)))"

text \<open>The function \<open>EventLoop::run\<close> hands to \<open>forEachCompletion\<close>: the dispatch on the header's tag \<dots>\<close>

definition dispatch_completion ::
    "'x sys \<Rightarrow> ('c \<Rightarrow> event \<Rightarrow> ('x, 'c, 'z) event_loop_scheme \<Rightarrow> stop + ('x, 'c, 'z) event_loop_scheme) \<Rightarrow>
     cqe \<Rightarrow> request \<Rightarrow> ptr \<Rightarrow> ('x, 'c, 'z) event_loop_scheme \<Rightarrow> stop + ('x, 'c, 'z) event_loop_scheme" where
  "dispatch_completion X cb c r subscriber w =
     (case operation_of (op (header r)) of
        Some ACCEPT \<Rightarrow> subscriber_handle cb subscriber (AcceptEvent (cqe_res c)) w
      | Some READ \<Rightarrow>
          bindE (as_ReadRequest (cqe_user_data c) r) (\<lambda>q.
          bindE (assertE (cqe_res c \<le> size_as_int (sp_len (reception_buffer q))) ''reception_buffer.size() >= res'') (\<lambda>_.
          bindE (assertE (0 \<le> cqe_res c) ''res >= 0'') (\<lambda>_.
          bindE (subspan0 (reception_buffer q) (nat (cqe_res c))) (\<lambda>bytes.
            subscriber_handle cb subscriber (ReadEvent (read_fd q) bytes) w))))
      | Some READ_MULTISHOT \<Rightarrow>
          bindE (as_MultiShotReadRequest (cqe_user_data c) r) (\<lambda>q.
          bindE (assertE (0 \<le> cqe_res c) ''res >= 0'') (\<lambda>_.
            (case br_get c w of
               None \<Rightarrow> error_handle cb ''Error: Invalid buffer ID'' w
             | Some buffer_view \<Rightarrow>
                 bindE (subspan0 buffer_view (nat (cqe_res c))) (\<lambda>bytes.
                 bindE (subscriber_handle cb subscriber (ReadEvent (multishot_fd q) bytes) w) (br_release X c)))))
      | Some WRITE \<Rightarrow>
          bindE (as_WriteRequest (cqe_user_data c) r) (\<lambda>q.
          bindE (assertE (cqe_res c \<le> size_as_int (sp_len (bytes_written q))) ''bytes_written.size() >= res'') (\<lambda>_.
            subscriber_handle cb subscriber (WriteEvent (cqe_res c) (bytes_written q)) w))
      | Some CONNECT \<Rightarrow> subscriber_handle cb subscriber ConnectEvent w
      | None \<Rightarrow> error_handle cb ''Error: Malformed completion queue entry'' w)"

text \<open>\<dots> behind the checks every completion goes through first.\<close>

definition on_completion ::
    "'x sys \<Rightarrow> ('c \<Rightarrow> event \<Rightarrow> ('x, 'c, 'z) event_loop_scheme \<Rightarrow> stop + ('x, 'c, 'z) event_loop_scheme) \<Rightarrow>
     cqe \<Rightarrow> ('x, 'c, 'z) event_loop_scheme \<Rightarrow> stop + ('x, 'c, 'z) event_loop_scheme" where
  "on_completion X cb c w =
     (if cqe_user_data c = nullptr then error_handle cb ''Error: Malformed completion queue entry'' w
      else bindE (deref (request_pool w) (cqe_user_data c)) (\<lambda>r.
        if \<not> valid (header r) then error_handle cb ''Error: Invalid request header'' w
        else let subscriber = getAssociatedSubscriber (header r) in
          if subscriber = nullptr then error_handle cb ''Error: No subscriber'' w
          else if cqe_res c < 0 then
            bindE (logIssuingRequest c w) (\<lambda>w1. subscriber_handle cb subscriber (ErrorEvent (- cqe_res c)) w1)
          else dispatch_completion X cb c r subscriber w))"

text \<open>One turn of the loop, and the loop; \<open>None\<close> is a run that never comes back.\<close>

definition run_iteration ::
    "'x sys \<Rightarrow> ('c \<Rightarrow> event \<Rightarrow> ('x, 'c, 'z) event_loop_scheme \<Rightarrow> stop + ('x, 'c, 'z) event_loop_scheme) \<Rightarrow>
     ('x, 'c, 'z) event_loop_scheme \<Rightarrow> (stop + ('x, 'c, 'z) event_loop_scheme) option" where
  "run_iteration X cb w =
     (case submit X 100 w of
        Inl e \<Rightarrow> Some (Inl e)
      | Inr (submit_status, w1) \<Rightarrow>
          (case forEachCompletion X (on_completion X cb) w1 of
             None \<Rightarrow> None
           | Some (Inl e) \<Rightarrow> Some (Inl e)
           | Some (Inr w2) \<Rightarrow>
               if shouldContinueSubmitting submit_status then Some (Inr w2)
               else if submit_status < 0 then Some (error_handle_event cb (Error_of_event X (- submit_status)) w2)
               else Some (Inr w2)))"

partial_function (option) run ::
    "'x sys \<Rightarrow> ('c \<Rightarrow> event \<Rightarrow> ('x, 'c, 'z) event_loop_scheme \<Rightarrow> stop + ('x, 'c, 'z) event_loop_scheme) \<Rightarrow>
     ('x, 'c, 'z) event_loop_scheme \<Rightarrow> (stop + ('x, 'c, 'z) event_loop_scheme) option" where
  "run X cb w =
     (if should_continue w then
        (case run_iteration X cb w of
           None \<Rightarrow> None
         | Some (Inl e) \<Rightarrow> Some (Inl e)
         | Some (Inr w') \<Rightarrow> run X cb w')
      else Some (Inr w))"

section \<open>Subscribers and the error handler are handler cells\<close>

interpretation subscriber_heap: object_heap subscribers "\<lambda>q w. w\<lparr>subscribers := q\<rparr>"
  by unfold_locales simp_all

lemma subscriber_access:
  "get_subscriber p = (\<lambda>w. deref (subscribers w) p)"
  "put_subscriber p = (\<lambda>h w. bindE (store p h (subscribers w)) (\<lambda>q. Inr (w\<lparr>subscribers := q\<rparr>)))"
  by (simp_all add: fun_eq_iff get_subscriber_def put_subscriber_def)

interpretation sub: handler_cell "get_subscriber p" "put_subscriber p" "\<lambda>w. pool_inv (subscribers w)" for p
  unfolding handler_cell_def subscriber_access by (rule subscriber_heap.object_at)

interpretation err: handler_cell get_error_handler put_error_handler "\<lambda>_. True"
  by unfold_locales (auto simp: get_error_handler_def put_error_handler_def)

section \<open>The error handler\<close>

definition default_errors :: "('x, 'c, 'z) event_loop_scheme \<Rightarrow> bool" where
  "default_errors w \<longleftrightarrow> error_handler w = new_ErrorHandler"

lemma error_handle_default:
  assumes "default_errors w"
  shows "error_handle cb msg w = Inr (w\<lparr>cerr := cerr w @ msg\<rparr>)"
proof -
  have "w\<lparr>error_handler := new_ErrorHandler, cerr := cerr w @ msg\<rparr> = w\<lparr>cerr := cerr w @ msg\<rparr>"
    using assms by (simp add: default_errors_def)
  with assms show ?thesis
    by (simp add: default_errors_def error_handle_def handle_def get_error_handler_def put_error_handler_def
        lock_def unlock_def new_ErrorHandler_def new_EventHandler_def)
qed

section \<open>What a completion means\<close>

text \<open>The event a completion stands for, given the request it completes and the provided buffers.\<close>

primrec completion_event :: "cqe \<Rightarrow> span list \<Rightarrow> request \<Rightarrow> event" where
  "completion_event c bufs (AcceptR q) = AcceptEvent (cqe_res c)"
| "completion_event c bufs (ConnectR q) = ConnectEvent"
| "completion_event c bufs (ReadR q) =
     ReadEvent (read_fd q) ((reception_buffer q)\<lparr>sp_len := nat (cqe_res c)\<rparr>)"
| "completion_event c bufs (MultiShotReadR q) =
     ReadEvent (multishot_fd q) ((bufs ! cqe_buffer_id c)\<lparr>sp_len := nat (cqe_res c)\<rparr>)"
| "completion_event c bufs (WriteR q) = WriteEvent (cqe_res c) (bytes_written q)"

text \<open>A result the kernel may give: no more bytes than the buffer holds, a buffer of the ring.\<close>

primrec result_fits :: "cqe \<Rightarrow> span list \<Rightarrow> request \<Rightarrow> bool" where
  "result_fits c bufs (AcceptR q) = True"
| "result_fits c bufs (ConnectR q) = True"
| "result_fits c bufs (ReadR q) =
     (sp_len (reception_buffer q) < 2 ^ 31 \<and> cqe_res c \<le> int (sp_len (reception_buffer q)))"
| "result_fits c bufs (MultiShotReadR q) =
     (cqe_buffer_id c < length bufs \<and> length bufs < 2 ^ 31 \<and> cqe_res c \<le> int (sp_len (bufs ! cqe_buffer_id c)))"
| "result_fits c bufs (WriteR q) =
     (sp_len (bytes_written q) < 2 ^ 31 \<and> cqe_res c \<le> int (sp_len (bytes_written q)))"

lemma dispatch_wf:
  assumes "wf_request r" "0 \<le> cqe_res c" "result_fits c (ring_buffers w) r"
  shows "dispatch_completion X cb c r p w =
    bindE (subscriber_handle cb p (completion_event c (ring_buffers w) r) w)
          (if kind r = READ_MULTISHOT then br_release X c else Inr)"
  using assms wf_request_operation [OF assms(1)]
  by (cases r) (auto simp: dispatch_completion_def br_get_eq subspan0_def nat_le_iff size_as_int_small)

lemma on_completion_event:
  assumes "deref (request_pool w) (cqe_user_data c) = Inr r" "wf_request r"
    "user_data (header r) \<noteq> nullptr" "0 \<le> cqe_res c" "result_fits c (ring_buffers w) r"
  shows "on_completion X cb c w =
    bindE (subscriber_handle cb (user_data (header r)) (completion_event c (ring_buffers w) r) w)
          (if kind r = READ_MULTISHOT then br_release X c else Inr)"
proof -
  have "cqe_user_data c \<noteq> nullptr" "valid (header r)"
    using assms(1,2) by (auto simp: deref_contents wf_request_def)
  with assms dispatch_wf [OF assms(2,4,5)] show ?thesis
    by (simp add: on_completion_def getAssociatedSubscriber_def Let_def)
qed

lemma logIssuingRequest_wf:
  assumes "deref (request_pool w) (cqe_user_data c) = Inr r" "wf_request r"
  shows "logIssuingRequest c w =
    Inr (w\<lparr>cerr := cerr w @ ''During handling of '' @ print_request r @ newline\<rparr>)"
  using assms wf_request_operation [OF assms(2)] by (cases r) (simp_all add: logIssuingRequest_def)

lemma on_completion_error:
  assumes "deref (request_pool w) (cqe_user_data c) = Inr r" "wf_request r"
    "user_data (header r) \<noteq> nullptr" "cqe_res c < 0"
  shows "on_completion X cb c w =
    subscriber_handle cb (user_data (header r)) (ErrorEvent (- cqe_res c))
      (w\<lparr>cerr := cerr w @ ''During handling of '' @ print_request r @ newline\<rparr>)"
proof -
  have "cqe_user_data c \<noteq> nullptr" "valid (header r)"
    using assms(1,2) by (auto simp: deref_contents wf_request_def)
  with assms logIssuingRequest_wf [OF assms(1,2)] show ?thesis
    by (simp add: on_completion_def getAssociatedSubscriber_def Let_def)
qed

section \<open>Adding requests\<close>

text \<open>The request as the loop stores it.\<close>

definition added_request :: "request \<Rightarrow> ptr \<Rightarrow> request" where
  "added_request r p = set_user_data p
     (case r of MultiShotReadR m \<Rightarrow> MultiShotReadR (m\<lparr>buffer_group_id := word_of_int BUFFER_GROUP_ID\<rparr>) | _ \<Rightarrow> r)"

lemma added_request_facts:
  "kind (added_request r p) = kind r" "header (added_request r p) = (header r)\<lparr>user_data := p\<rparr>"
  "wf_request (added_request r p) = wf_request r"
  by (cases r; simp add: added_request_def wf_request_def valid_def)+

lemma loop_add_eq: "loop_add r p w = bindE (push (added_request r p) w) (\<lambda>w'. Inr (OK, w'))"
  by (simp add: loop_add_def added_request_def Let_def)

lemma loop_add_env: "loop_add r p w = Inr (st, w') \<Longrightarrow> env w' = env w"
  by (auto simp: loop_add_eq push_def res_simps split: prod.splits)

lemma loop_add_spec:
  assumes "sq_inv w" "wf_request r"
  obtains a pool where
    "loop_add r p w = Inr (OK, w\<lparr>request_pool := pool, pending_requests := pending_push (kind r) a (pending_requests w)\<rparr>)"
    "a \<noteq> nullptr" "block_size (request_pool w) a = None"
    "contents pool = (contents (request_pool w))(a \<mapsto> added_request r p)"
    "sq_inv (w\<lparr>request_pool := pool, pending_requests := pending_push (kind r) a (pending_requests w)\<rparr>)"
proof -
  have wf: "wf_request (added_request r p)" using assms(2) by (simp add: added_request_facts)
  show thesis
    by (rule push_spec [OF assms(1) wf]) (rule that, simp_all add: loop_add_eq added_request_facts)
qed

section \<open>Turns of the loop\<close>

text \<open>Without pending requests the ring is not entered at all.\<close>

lemma submit_idle:
  assumes "pending_requests w = no_pending"
  shows "submit X t w = Inr (NOT_READY, w)"
  using assms by (simp add: submit_def preparePendingRequests_def pending_for_each_def)

lemma shouldContinue_NOT_READY [simp]: "shouldContinueSubmitting NOT_READY"
  by (simp add: shouldContinueSubmitting_def)

lemma forEachCompletion_none:
  assumes "cqe_at X (env w) (cq_khead X (env w)) = None"
  shows "forEachCompletion X f w = Some (Inr w)"
  using assms by (simp add: forEachCompletion_def for_each_cqe.simps)

lemma run_iteration_idle:
  assumes "pending_requests w = no_pending" "cqe_at X (env w) (cq_khead X (env w)) = None"
  shows "run_iteration X cb w = Some (Inr w)"
  using assms by (simp add: run_iteration_def submit_idle forEachCompletion_none)

lemma run_fixed_point_diverges:
  assumes "should_continue w" "run_iteration X cb w = Some (Inr w)"
  shows "run X cb w = None"
proof (rule ccontr)
  assume "run X cb w \<noteq> None"
  then obtain r where r: "run X cb w = Some r" by blast
  have "\<not> (should_continue w \<and> run_iteration X cb w = Some (Inr w))"
  proof (rule run.raw_induct [where P = "\<lambda>X cb w r. \<not> (should_continue w \<and> run_iteration X cb w = Some (Inr w))", OF _ r])
    fix f X cb w r
    assume IH: "\<And>X cb w r. f X cb w = Some r \<Longrightarrow> \<not> (should_continue w \<and> run_iteration X cb w = Some (Inr w))"
      and eq: "(if should_continue w then
          (case run_iteration X cb w of None \<Rightarrow> None | Some (Inl e) \<Rightarrow> Some (Inl e) | Some (Inr w') \<Rightarrow> f X cb w')
        else Some (Inr w)) = Some r"
    show "\<not> (should_continue w \<and> run_iteration X cb w = Some (Inr w))"
    proof
      assume "should_continue w \<and> run_iteration X cb w = Some (Inr w)"
      with eq have "f X cb w = Some r" by simp
      from IH [OF this] show False using \<open>should_continue w \<and> run_iteration X cb w = Some (Inr w)\<close> by simp
    qed
  qed
  with assms show False by simp
qed

text \<open>The reference for \<open>run\<close>: a given number of turns, each taken only while the loop may continue.\<close>

primrec turns ::
    "'x sys \<Rightarrow> ('c \<Rightarrow> event \<Rightarrow> ('x, 'c, 'z) event_loop_scheme \<Rightarrow> stop + ('x, 'c, 'z) event_loop_scheme) \<Rightarrow>
     nat \<Rightarrow> ('x, 'c, 'z) event_loop_scheme \<Rightarrow> (stop + ('x, 'c, 'z) event_loop_scheme) option" where
  "turns X cb 0 w = (if should_continue w then None else Some (Inr w))"
| "turns X cb (Suc n) w =
     (if should_continue w then
        (case run_iteration X cb w of
           None \<Rightarrow> None
         | Some (Inl e) \<Rightarrow> Some (Inl e)
         | Some (Inr w') \<Rightarrow> turns X cb n w')
      else Some (Inr w))"

lemma turns_run: "turns X cb n w = Some r \<Longrightarrow> run X cb w = Some r"
proof (induction n arbitrary: w)
  case 0
  then show ?case by (auto simp: run.simps split: if_splits)
next
  case (Suc n)
  then show ?case by (subst run.simps) (auto split: if_splits option.splits sum.splits)
qed

lemma run_turns:
  assumes "run X cb w = Some r"
  shows "\<exists>n. turns X cb n w = Some r"
proof (rule run.raw_induct [where P = "\<lambda>X cb w r. \<exists>n. turns X cb n w = Some r", OF _ assms])
  fix f X cb w r
  assume IH: "\<And>X cb w r. f X cb w = Some r \<Longrightarrow> \<exists>n. turns X cb n w = Some r"
    and eq: "(if should_continue w then
        (case run_iteration X cb w of None \<Rightarrow> None | Some (Inl e) \<Rightarrow> Some (Inl e) | Some (Inr w') \<Rightarrow> f X cb w')
      else Some (Inr w)) = Some r"
  show "\<exists>n. turns X cb n w = Some r"
  proof (cases "should_continue w")
    case False
    with eq have "turns X cb 0 w = Some r" by simp
    then show ?thesis ..
  next
    case True
    from eq obtain o' where o': "run_iteration X cb w = Some o'"
      by (auto split: if_splits option.splits simp: True)
    show ?thesis
    proof (cases o')
      case (Inl e)
      with eq o' True have "turns X cb 1 w = Some r" by auto
      then show ?thesis ..
    next
      case (Inr w')
      with eq o' True have "f X cb w' = Some r" by simp
      then obtain n where "turns X cb n w' = Some r" using IH by blast
      then have "turns X cb (Suc n) w = Some r" using o' Inr True by simp
      then show ?thesis ..
    qed
  qed
qed

section \<open>Cancelling\<close>

lemma loop_cancel_room:
  assumes "sq_contract X sq cap" "length (sq (env w)) < cap"
  obtains x where "loop_cancel X fd w = w\<lparr>env := x\<rparr>"
    "map snd (sq x) = map snd (sq (env w)) @ [[Prep_cancel_fd fd 3]]"
proof -
  obtain e x where g: "getNewSubmissionQueueEntry X w = (Some e, w\<lparr>env := x\<rparr>)"
      "e \<notin> fst ` set (sq (env w))" "sq x = sq (env w) @ [(e, [])]"
    by (rule getNew_room [OF assms])
  have three: "or IORING_ASYNC_CANCEL_ALL IORING_ASYNC_CANCEL_FD = 3"
    by (simp add: IORING_ASYNC_CANCEL_ALL_def IORING_ASYNC_CANCEL_FD_def)
  have "sq (sqe_apply X e (Prep_cancel_fd fd 3) x) = sq (env w) @ [(e, [Prep_cancel_fd fd 3])]"
    using sqe_apply_fold [OF assms(1) g(3,2), of "[Prep_cancel_fd fd 3]"] by simp
  with g three show thesis
    by (intro that [of "sqe_apply X e (Prep_cancel_fd fd 3) x"]) (simp_all add: loop_cancel_def sq_cancel_def)
qed

section \<open>A loop to run the theorems on\<close>

text \<open>
  A program with one subscriber, at address 7, whose callbacks record the events they are given. It
  has a write and a multi-shot read under way and the buffers of \<open>sample_buffers\<close>.
\<close>

record sample_world = "(ref_env, nat) event_loop" +
  seen :: "event list"

definition sample_cb :: "nat \<Rightarrow> event \<Rightarrow> sample_world \<Rightarrow> stop + sample_world" where
  "sample_cb c e w = Inr (w\<lparr>seen := seen w @ [e]\<rparr>)"

definition sample_handler :: "nat event_handler" where
  "sample_handler = \<lparr>handlers = (\<lambda>_. Some 0), mutex_held = False\<rparr>"

definition sample_loop :: sample_world where
  "sample_loop = \<lparr>env = ref_init, request_pool =
       \<lparr>blocks = [(2, 40, Some (set_user_data 7 sample_write)), (42, 24, Some (set_user_data 7 sample_multishot))],
        free_blocks = [], pool_brk = 66\<rparr>,
     pending_requests = no_pending, buffer_ring = 1, ring_buffers = sample_buffers,
     should_continue = True, error_handler = new_ErrorHandler,
     subscribers = \<lparr>blocks = [(7, 200, Some sample_handler)], free_blocks = [], pool_brk = 207\<rparr>,
     cerr = [], seen = []\<rparr>"

lemma sample_subscribers: "pool_inv (subscribers sample_loop)" "get_subscriber 7 sample_loop = Inr sample_handler"
  by (simp_all add: sample_loop_def pool_inv_def live_def freed_def get_subscriber_def deref_def)

lemma sample_loop_requests:
  "deref (request_pool sample_loop) 2 = Inr (set_user_data 7 sample_write)"
  "deref (request_pool sample_loop) 42 = Inr (set_user_data 7 sample_multishot)"
  by (simp_all add: sample_loop_def deref_def)

lemma sample_user_data: "user_data (header (set_user_data p r)) = p"
  by simp

section \<open>Properties of the event loop\<close>

text \<open>C18. A successful completion of a well-formed request runs the one callback its subscriber
  registered for the event type, exactly once and on exactly the event the completion stands for,
  with the subscriber's mutex held during the call and released after it; for a multi-shot read the
  buffer is given back afterwards.\<close>

theorem completion_reaches_subscriber:
  assumes "deref (request_pool w) (cqe_user_data c) = Inr r" "wf_request r"
    "user_data (header r) = p" "0 \<le> cqe_res c" "result_fits c (ring_buffers w) r"
    "pool_inv (subscribers w)" "get_subscriber p w = Inr h" "\<not> mutex_held h"
    "handlers h (type_of (completion_event c (ring_buffers w) r)) = Some f"
  shows "\<exists>w1. put_subscriber p (h\<lparr>mutex_held := True\<rparr>) w = Inr w1 \<and>
     on_completion X cb c w =
       bindE (noexceptE (bindE (cb f (completion_event c (ring_buffers w) r) w1) (\<lambda>w2.
                bindE (get_subscriber p w2) (\<lambda>h2. put_subscriber p (unlock h2) w2))))
             (if kind r = READ_MULTISHOT then br_release X c else Inr)"
proof -
  have "p \<noteq> nullptr" using assms(7) by (auto simp: get_subscriber_def deref_contents)
  with on_completion_event [OF assms(1,2) _ assms(4,5)] assms(3)
  have eq: "on_completion X cb c w = bindE (subscriber_handle cb p (completion_event c (ring_buffers w) r) w)
      (if kind r = READ_MULTISHOT then br_release X c else Inr)" by blast
  show ?thesis
    unfolding eq subscriber_handle_def
    by (rule sub.handle_runs [OF assms(6-9)]) auto
qed

theorem completion_reaches_subscriber_witness:
  "\<exists>w1. put_subscriber 7 (sample_handler\<lparr>mutex_held := True\<rparr>) sample_loop = Inr w1 \<and>
     on_completion (ref_sys 4) sample_cb \<lparr>cqe_user_data = 2, cqe_res = 13, cqe_flags = 0\<rparr> sample_loop =
       bindE (noexceptE (bindE (sample_cb 0 (WriteEvent 13 \<lparr>sp_base = 900, sp_len = 13\<rparr>) w1) (\<lambda>w2.
                bindE (get_subscriber 7 w2) (\<lambda>h2. put_subscriber 7 (unlock h2) w2)))) Inr"
proof -
  let ?c = "\<lparr>cqe_user_data = 2, cqe_res = 13, cqe_flags = 0\<rparr>" and ?r = "set_user_data 7 sample_write"
  have ev: "completion_event ?c (ring_buffers sample_loop) ?r = WriteEvent 13 \<lparr>sp_base = 900, sp_len = 13\<rparr>"
    by (simp add: sample_write_def)
  have fits: "result_fits ?c (ring_buffers sample_loop) ?r" by (simp add: sample_write_def)
  have d: "deref (request_pool sample_loop) (cqe_user_data ?c) = Inr ?r" by (simp add: sample_loop_requests)
  show ?thesis
    using completion_reaches_subscriber [OF d _ sample_user_data _ fits sample_subscribers, of 0 "ref_sys 4" sample_cb]
    unfolding ev by (simp add: sample_handler_def)
qed

text \<open>A failed completion (negative result) is logged with the request it belongs to and handed to
  the subscriber's error callback as a positive error code; no other callback runs.\<close>

lemma failed_completion_reports_error:
  assumes "deref (request_pool w) (cqe_user_data c) = Inr r" "wf_request r"
    "user_data (header r) = p" "cqe_res c < 0"
    "pool_inv (subscribers w)" "get_subscriber p w = Inr h" "\<not> mutex_held h"
    "handlers h ErrorEventT = Some f"
  shows "\<exists>w1. put_subscriber p (h\<lparr>mutex_held := True\<rparr>)
       (w\<lparr>cerr := cerr w @ ''During handling of '' @ print_request r @ newline\<rparr>) = Inr w1 \<and>
     on_completion X cb c w =
       noexceptE (bindE (cb f (ErrorEvent (- cqe_res c)) w1) (\<lambda>w2.
         bindE (get_subscriber p w2) (\<lambda>h2. put_subscriber p (unlock h2) w2)))"
proof -
  let ?w = "w\<lparr>cerr := cerr w @ ''During handling of '' @ print_request r @ newline\<rparr>"
  have "p \<noteq> nullptr" using assms(6) by (auto simp: get_subscriber_def deref_contents)
  with on_completion_error [OF assms(1,2) _ assms(4)] assms(3)
  have eq: "on_completion X cb c w = subscriber_handle cb p (ErrorEvent (- cqe_res c)) ?w" by blast
  have cell: "pool_inv (subscribers ?w)" "get_subscriber p ?w = Inr h" "handlers h (type_of (ErrorEvent (- cqe_res c))) = Some f"
    using assms(5,6,8) by (simp_all add: get_subscriber_def)
  show ?thesis
    unfolding eq subscriber_handle_def by (rule sub.handle_runs [OF cell(1,2) assms(7) cell(3)]) auto
qed

text \<open>C28. Sizes are compared with the kernel's results after a conversion to \<open>int\<close>. A write of a span whose size,
  taken modulo 4 GiB, is 2 GiB or more is cut to a negative number there, so every successful completion of
  it fails the assertion, whatever was written; no callback runs.\<close>

theorem oversized_write_aborts:
  assumes "deref (request_pool w) (cqe_user_data c) = Inr (WriteR q)" "wf_request (WriteR q)"
    "user_data (write_header q) \<noteq> nullptr" "0 \<le> cqe_res c" "2 ^ 31 \<le> sp_len (bytes_written q) mod 2 ^ 32"
  shows "on_completion X cb c w = Inl (AssertFailed ''bytes_written.size() >= res'')"
proof -
  have "\<not> cqe_res c \<le> size_as_int (sp_len (bytes_written q))" using size_as_int_negative [OF assms(5)] assms(4) by linarith
  moreover have "cqe_user_data c \<noteq> nullptr" "valid (write_header q)" using assms(1,2) by (auto simp: deref_contents wf_request_def)
  ultimately show ?thesis
    using assms(1,3,4) wf_request_operation [OF assms(2)]
    by (simp add: on_completion_def dispatch_completion_def getAssociatedSubscriber_def Let_def)
qed

definition oversized_loop :: sample_world where
  "oversized_loop = sample_loop\<lparr>request_pool :=
     \<lparr>blocks = [(2, 40, Some (set_user_data 7 (WriteR (new_WriteRequest\<lparr>bytes_written := \<lparr>sp_base = 4096, sp_len = 2 ^ 31\<rparr>\<rparr>))))],
      free_blocks = [], pool_brk = 42\<rparr>\<rparr>"

theorem oversized_write_aborts_witness:
  "on_completion (ref_sys 4) sample_cb \<lparr>cqe_user_data = 2, cqe_res = 4096, cqe_flags = 0\<rparr> oversized_loop =
     Inl (AssertFailed ''bytes_written.size() >= res'')"
proof -
  let ?c = "\<lparr>cqe_user_data = 2, cqe_res = 4096, cqe_flags = 0\<rparr>"
  let ?q = "new_WriteRequest\<lparr>bytes_written := \<lparr>sp_base = 4096, sp_len = 2 ^ 31\<rparr>, write_header := (write_header new_WriteRequest)\<lparr>user_data := 7\<rparr>\<rparr>"
  have "deref (request_pool oversized_loop) (cqe_user_data ?c) = Inr (WriteR ?q)" by (simp add: oversized_loop_def deref_def)
  moreover have "wf_request (WriteR ?q)" by (simp add: wf_request_def valid_def new_WriteRequest_def RequestHeader_of_def)
  ultimately show ?thesis using oversized_write_aborts [of oversized_loop ?c ?q "ref_sys 4" sample_cb] by simp
qed

text \<open>\<open>EventLoop::add\<close> accepts every request: it answers \<open>OK\<close>, whatever the state of the rings (the
  callers' branches for a full queue are dead), stores the request with its subscriber at a fresh
  address and keeps the queue's invariant.\<close>

lemma loop_add_always_accepts:
  assumes "sq_inv w" "wf_request r"
  shows "\<exists>w' a. loop_add r p w = Inr (OK, w') \<and> sq_inv w' \<and> env w' = env w \<and>
     block_size (request_pool w) a = None \<and> deref (request_pool w') a = Inr (added_request r p) \<and>
     pending_requests w' = pending_push (kind r) a (pending_requests w)"
proof -
  show ?thesis
    by (rule loop_add_spec [OF assms, of p]) (fastforce simp: deref_contents)
qed

lemma sample_loop_inv: "sq_inv sample_loop"
proof -
  let ?pool = "request_pool sample_loop"
  have v: "contents ?pool = [2 \<mapsto> set_user_data 7 sample_write, 42 \<mapsto> set_user_data 7 sample_multishot]"
      "block_size ?pool = [2 \<mapsto> 40, 42 \<mapsto> 24]"
    by (auto simp: sample_loop_def contents_def block_size_def fun_eq_iff)
  have "pool_inv ?pool" by (simp add: sample_loop_def pool_inv_def live_def freed_def)
  moreover have "typed_pool ?pool" by (auto simp: typed_pool_def v split: if_splits)
  moreover have "pending_requests sample_loop = no_pending" by (simp add: sample_loop_def)
  ultimately show ?thesis by (simp add: sq_inv_def entries_ok_def)
qed

text \<open>C1. The life of a request: added to the loop it is stored, its submission entry carries its
  operation and the address of the stored copy as user data, and when a completion comes back with
  that user data the loop finds the request there and hands its subscriber the event the completion
  stands for.\<close>

theorem request_round_trip:
  assumes "sq_inv w" "wf_request r" "p \<noteq> nullptr" "sq_contract X sq cap"
    "length (sq (env w)) + Suc (length (pending_entries (pending_requests w))) \<le> cap"
  shows "\<exists>a w1 x. loop_add r p w = Inr (OK, w1) \<and>
     preparePendingRequests X w1 = Inr (Suc (length (pending_entries (pending_requests w))),
       w1\<lparr>env := x, pending_requests := no_pending\<rparr>) \<and>
     request_calls a (added_request r p) \<in> set (map snd (sq x)) \<and>
     (\<forall>cb c. cqe_user_data c = a \<longrightarrow> 0 \<le> cqe_res c \<longrightarrow> result_fits c (ring_buffers w) (added_request r p) \<longrightarrow>
        on_completion X cb c (w1\<lparr>env := x, pending_requests := no_pending\<rparr>) =
        bindE (subscriber_handle cb p (completion_event c (ring_buffers w) (added_request r p))
                 (w1\<lparr>env := x, pending_requests := no_pending\<rparr>))
              (if kind r = READ_MULTISHOT then br_release X c else Inr))"
proof -
  obtain a pool where add:
    "loop_add r p w = Inr (OK, w\<lparr>request_pool := pool, pending_requests := pending_push (kind r) a (pending_requests w)\<rparr>)"
    "a \<noteq> nullptr" "contents pool = (contents (request_pool w))(a \<mapsto> added_request r p)"
    "sq_inv (w\<lparr>request_pool := pool, pending_requests := pending_push (kind r) a (pending_requests w)\<rparr>)"
    using loop_add_spec [OF assms(1,2), of p] by metis
  let ?w1 = "w\<lparr>request_pool := pool, pending_requests := pending_push (kind r) a (pending_requests w)\<rparr>"
  let ?es = "pending_entries (pending_requests w)" and ?es1 = "pending_entries (pending_requests ?w1)"
  have len: "length ?es1 = Suc (length ?es)" and entry: "(kind r, a) \<in> set ?es1"
    by (simp_all add: pend.entries_add_length pend.entries_add_set)
  have room: "length (sq (env ?w1)) + length ?es1 \<le> cap" using assms(5) len by simp
  obtain x where x: "preparePendingRequests X ?w1 = Inr (length ?es1, ?w1\<lparr>env := x, pending_requests := no_pending\<rparr>)"
      "map snd (sq x) = map snd (sq (env ?w1)) @
         map (\<lambda>e. request_calls (snd e) (the (contents (request_pool ?w1) (snd e)))) ?es1"
    by (rule prepare_all [OF add(4) assms(4) room])
  have "request_calls a (added_request r p) \<in> set (map snd (sq x))"
    unfolding x(2) using entry add(3) by force
  moreover have "on_completion X cb c (?w1\<lparr>env := x, pending_requests := no_pending\<rparr>) =
        bindE (subscriber_handle cb p (completion_event c (ring_buffers w) (added_request r p))
                 (?w1\<lparr>env := x, pending_requests := no_pending\<rparr>))
              (if kind r = READ_MULTISHOT then br_release X c else Inr)"
    if "cqe_user_data c = a" "0 \<le> cqe_res c" "result_fits c (ring_buffers w) (added_request r p)" for cb c
    using on_completion_event [of "?w1\<lparr>env := x, pending_requests := no_pending\<rparr>" c "added_request r p" X cb]
      that add(2,3) assms(2,3) by (simp add: added_request_facts deref_contents)
  ultimately show ?thesis using add(1) x(1) len by fastforce
qed

theorem request_round_trip_witness:
  "\<exists>a w1 x. loop_add sample_write 7 sample_loop = Inr (OK, w1) \<and>
     preparePendingRequests (ref_sys 4) w1 = Inr (1, w1\<lparr>env := x, pending_requests := no_pending\<rparr>) \<and>
     request_calls a (added_request sample_write 7) \<in> set (map snd (ref_sq x))"
proof -
  have "ref_sq (env sample_loop) = []" "pending_requests sample_loop = no_pending"
    by (simp_all add: sample_loop_def ref_init_def)
  with request_round_trip [OF sample_loop_inv sample_wf(1) _ ref_sq_contract [of 4], of 7] show ?thesis
    by auto
qed

text \<open>C31. A completion without user data ends the process: the loop reports it and then releases the
  request it does not have, through a null pointer. The completion of \<open>cancel\<close> is of that kind.\<close>

theorem null_completion_crashes:
  assumes "should_continue w" "default_errors w" "pending_requests w = no_pending"
    "cqe_at X (env w) (cq_khead X (env w)) = Some c" "cqe_user_data c = nullptr"
  shows "run X cb w = Some (Inl NullDeref)"
proof -
  have "bindE (on_completion X cb c w) (release c) = Inl NullDeref"
    using assms(2,5) by (simp add: on_completion_def error_handle_default release_null)
  then have "run_iteration X cb w = Some (Inl NullDeref)"
    using assms(3,4) by (simp add: run_iteration_def submit_idle forEachCompletion_def for_each_cqe.simps)
  with assms(1) show ?thesis by (simp add: run.simps)
qed

theorem null_completion_crashes_witness:
  "run (ref_sys 4) sample_cb (sample_loop\<lparr>env := ref_init\<lparr>ref_cq := [\<lparr>cqe_user_data = 0, cqe_res = -2, cqe_flags = 0\<rparr>]\<rparr>\<rparr>)
     = Some (Inl NullDeref)"
  by (rule null_completion_crashes [where c = "\<lparr>cqe_user_data = 0, cqe_res = -2, cqe_flags = 0\<rparr>"])
     (simp_all add: sample_loop_def default_errors_def ref_sys_def ref_cq_view_def ref_init_def)

text \<open>\<open>EventLoop::cancel\<close> writes a cancellation entry that carries no user data, and with no request
  pending the loop's next \<open>submit\<close> does not hand that entry to the kernel: it returns without entering
  the ring.\<close>

lemma cancel_stays_unsubmitted:
  assumes "sq_contract X sq cap" "length (sq (env w)) < cap" "pending_requests w = no_pending"
  shows "\<exists>x. loop_cancel X fd w = w\<lparr>env := x\<rparr> \<and>
     map snd (sq x) = map snd (sq (env w)) @ [[Prep_cancel_fd fd 3]] \<and>
     submit X t (loop_cancel X fd w) = Inr (NOT_READY, w\<lparr>env := x\<rparr>)"
proof -
  show ?thesis
    by (rule loop_cancel_room [OF assms(1,2), of fd]) (auto simp: submit_idle assms(3))
qed


text \<open>With no request pending and no completion posted, a turn of the loop changes nothing and
  enters no system call, so the loop spins for ever: the 100 ms timeout is never used and only another
  thread can end it.\<close>

lemma idle_loop_spins:
  assumes "should_continue w" "pending_requests w = no_pending" "cqe_at X (env w) (cq_khead X (env w)) = None"
  shows "run_iteration X cb w = Some (Inr w) \<and> run X cb w = None"
  using run_iteration_idle [OF assms(2,3)] run_fixed_point_diverges [OF assms(1)] by simp

text \<open>When the peer closes the stream of a multi-shot read (result 0, no buffer attached), the
  subscriber is handed an empty read in buffer 0, and buffer 0 is then given to the kernel although it
  was not taken: it can be picked twice.\<close>

lemma end_of_stream_duplicates_buffer:
  assumes "deref (request_pool w) (cqe_user_data c) = Inr (MultiShotReadR q)" "wf_request (MultiShotReadR q)"
    "user_data (multishot_header q) = p" "p \<noteq> nullptr" "cqe_res c = 0" "cqe_flags c = 0"
    "ring_buffers w \<noteq> []" "length (ring_buffers w) < 2 ^ 31"
    "subscriber_handle cb p (ReadEvent (multishot_fd q) ((ring_buffers w ! 0)\<lparr>sp_len := 0\<rparr>)) w = Inr w2"
    "ring_buffers w2 = ring_buffers w"
    "br_contract X (buffer_ring w2) (length (ring_buffers w2)) avail staged"
  shows "\<exists>x. on_completion X cb c w = Inr (w2\<lparr>env := x\<rparr>) \<and> avail x = avail (env w2) @ [(0, ring_buffers w ! 0)]"
proof -
  have id: "cqe_buffer_id c = 0" using assms(6) by (simp add: cqe_buffer_id_def)
  have "on_completion X cb c w = br_release X c w2"
    using on_completion_event [OF assms(1,2), of X cb] assms(3-10) id by simp
  moreover have "cqe_buffer_id c < length (ring_buffers w2)" using id assms(7,10) by simp
  ultimately show ?thesis
    using br_release_gives_back [OF assms(11), of c] id assms(10) by fastforce
qed

lemma sample_handles:
  "subscriber_handle sample_cb 7 e sample_loop = Inr (sample_loop\<lparr>seen := [e]\<rparr>)"
proof -
  have "subscriber_handle sample_cb 7 e sample_loop =
      Inr (sample_loop\<lparr>seen := [e], subscribers := subscribers sample_loop\<rparr>)"
    by (simp add: subscriber_handle_def handle_def get_subscriber_def put_subscriber_def sample_loop_def
        deref_def store_def lock_def unlock_def sample_handler_def sample_cb_def)
  then show ?thesis by simp
qed

text \<open>A callback registered with \<open>on\<close> is the one the next \<open>handle\<close> of that event type runs, and an
  event type with no callback is ignored without a trace.\<close>

lemma subscriber_on_then_handle:
  assumes "pool_inv (subscribers w)" "get_subscriber p w = Inr h" "\<not> mutex_held h"
  shows "\<exists>w'. subscriber_on p t f w = Inr w' \<and>
     (\<forall>e. type_of e = t \<longrightarrow> (\<exists>w1. get_subscriber p w1 = Inr (h\<lparr>handlers := (handlers h)(t \<mapsto> f), mutex_held := True\<rparr>) \<and>
        subscriber_handle cb p e w' =
          noexceptE (bindE (cb f e w1) (\<lambda>w2. bindE (get_subscriber p w2) (\<lambda>h2. put_subscriber p (unlock h2) w2))))) \<and>
     (\<forall>e. type_of e \<noteq> t \<longrightarrow> handlers h (type_of e) = None \<longrightarrow> subscriber_handle cb p e w' = Inr w')"
proof -
  let ?h = "h\<lparr>handlers := (handlers h)(t \<mapsto> f)\<rparr>"
  obtain w' where w': "subscriber_on p t f w = Inr w'" "pool_inv (subscribers w')" "get_subscriber p w' = Inr ?h"
    unfolding subscriber_on_def by (rule sub.on_registers [OF assms])
  have run: "\<exists>w1. get_subscriber p w1 = Inr (?h\<lparr>mutex_held := True\<rparr>) \<and> subscriber_handle cb p e w' =
      noexceptE (bindE (cb f e w1) (\<lambda>w2. bindE (get_subscriber p w2) (\<lambda>h2. put_subscriber p (unlock h2) w2)))"
    if "type_of e = t" for e
    unfolding subscriber_handle_def
    by (rule sub.handle_runs [OF w'(2,3), of e f]) (use assms(3) that in auto)
  have skip: "subscriber_handle cb p e w' = Inr w'" if "type_of e \<noteq> t" "handlers h (type_of e) = None" for e
    unfolding subscriber_handle_def
    by (rule sub.handle_unset [OF w'(2,3)]) (use assms(3) that in simp_all)
  show ?thesis using w'(1) run skip by (intro exI [of _ w']) auto
qed

text \<open>A callback that registers a callback on its own subscriber never comes back: \<open>handle\<close> holds
  the subscriber's mutex, which is not recursive, while the callback runs.\<close>

lemma reentrant_on_deadlocks:
  assumes "pool_inv (subscribers w)" "get_subscriber p w = Inr h" "\<not> mutex_held h"
    "handlers h (type_of e) = Some f" "\<And>u. cb f e u = subscriber_on p t g u"
  shows "subscriber_handle cb p e w = Inl Deadlock"
proof -
  show ?thesis
    unfolding subscriber_handle_def
  proof (rule sub.handle_runs [OF assms(1-4), where run = cb])
    fix w1 assume w1: "get_subscriber p w1 = Inr (h\<lparr>mutex_held := True\<rparr>)"
      and eq: "handle (get_subscriber p) (put_subscriber p) cb e w =
        noexceptE (bindE (cb f e w1) (\<lambda>w2. bindE (get_subscriber p w2) (\<lambda>h2. put_subscriber p (unlock h2) w2)))"
    have "cb f e w1 = Inl Deadlock"
      using assms(5) sub.on_while_handling [OF w1] by (simp add: subscriber_on_def)
    then show "handle (get_subscriber p) (put_subscriber p) cb e w = Inl Deadlock"
      unfolding eq by (simp add: noexceptE_def)
  qed
qed

end
