(* ===== verification/Sockets.thy ===== *)
theory Sockets
  imports Event_Handler Reference_Env "HOL-Library.Multiset"
begin

text \<open>
  \<open>include/ringnet/net/sockets.hpp\<close>, \<open>src/ringnet/net/sockets.cpp\<close> and \<open>include/ringnet/net/endpoint.hpp\<close>:
  the owning wrapper of a file descriptor, socket addresses, address resolution and the blocking
  socket calls with their statuses.
\<close>

section \<open>Statuses\<close>

record FileDescriptorStatus =
  return_code :: int

definition STATUS_SUCCESS :: int where "STATUS_SUCCESS = 0"

text \<open>The constructor from a return code; with \<open>USE_ERRNO\<close> the code is \<open>errno\<close> instead.\<close>

definition FileDescriptorStatus_of :: "bool \<Rightarrow> int \<Rightarrow> int \<Rightarrow> FileDescriptorStatus" where
  "FileDescriptorStatus_of use_errno errno rc =
     \<lparr>return_code = (if use_errno then errno else rc)\<rparr>"

definition status_ok :: "FileDescriptorStatus \<Rightarrow> bool" where
  "status_ok st \<longleftrightarrow> return_code st = STATUS_SUCCESS"

definition status_what :: "(int \<Rightarrow> string) \<Rightarrow> FileDescriptorStatus \<Rightarrow> string" where
  "status_what str_error st = str_error (return_code st)"

section \<open>FileDescriptor\<close>

definition INVALID :: int where "INVALID = -1"

record FileDescriptor =
  raw_fd :: int

definition no_FileDescriptor :: FileDescriptor where
  "no_FileDescriptor = \<lparr>raw_fd = INVALID\<rparr>"

definition FileDescriptor_of :: "int \<Rightarrow> FileDescriptor" where
  "FileDescriptor_of raw = \<lparr>raw_fd = raw\<rparr>"

text \<open>Move construction gives the new object and the one moved from; move assignment swaps.\<close>

definition fd_move :: "FileDescriptor \<Rightarrow> FileDescriptor \<times> FileDescriptor" where
  "fd_move other = (\<lparr>raw_fd = raw_fd other\<rparr>, other\<lparr>raw_fd := INVALID\<rparr>)"

definition fd_move_assign :: "FileDescriptor \<Rightarrow> FileDescriptor \<Rightarrow> FileDescriptor \<times> FileDescriptor" where
  "fd_move_assign this other = (this\<lparr>raw_fd := raw_fd other\<rparr>, other\<lparr>raw_fd := raw_fd this\<rparr>)"

definition fd_bool :: "FileDescriptor \<Rightarrow> bool" where
  "fd_bool d \<longleftrightarrow> 0 < raw_fd d"

definition delete_FileDescriptor :: "'x sys \<Rightarrow> FileDescriptor \<Rightarrow> 'x \<Rightarrow> 'x" where
  "delete_FileDescriptor X d x = (if 0 < raw_fd d then sys_close X (raw_fd d) x else x)"

section \<open>Socket addresses\<close>

text \<open>The two structures as their bytes: 16 of a \<open>sockaddr_in\<close>, 28 of a \<open>sockaddr_in6\<close>.\<close>

datatype SocketAddress = sockaddr_in "8 word list" | sockaddr_in6 "8 word list"

definition sizeof_sockaddr_in :: nat where "sizeof_sockaddr_in = 16"
definition sizeof_sockaddr_in6 :: nat where "sizeof_sockaddr_in6 = 28"

definition new_SocketAddress :: SocketAddress where
  "new_SocketAddress = sockaddr_in (replicate sizeof_sockaddr_in 0)"

primrec as_sockaddr :: "SocketAddress \<Rightarrow> 8 word list \<times> nat" where
  "as_sockaddr (sockaddr_in v4) = (v4, sizeof_sockaddr_in)"
| "as_sockaddr (sockaddr_in6 v6) = (v6, sizeof_sockaddr_in)"

primrec ip_version :: "SocketAddress \<Rightarrow> int option" where
  "ip_version (sockaddr_in v4) = Some AF_INET"
| "ip_version (sockaddr_in6 v6) = Some AF_INET6"

section \<open>Socket calls\<close>

definition set_option :: "'x sys \<Rightarrow> FileDescriptor \<Rightarrow> int \<Rightarrow> bool \<Rightarrow> 'x \<Rightarrow> FileDescriptorStatus \<times> 'x" where
  "set_option X socket option enable x =
     (case sys_setsockopt X (raw_fd socket) SOL_SOCKET option (if enable then 1 else 0) x of
        (rc, x1) \<Rightarrow> (FileDescriptorStatus_of True (sys_errno X x1) rc, x1))"

text \<open>
  \<open>resolve\<close> takes the first result: a copy of its address, cut to the size of the structure of its
  family. The guard object wraps the null pointer \<open>results\<close> holds when it is built, and a
  \<open>std::unique_ptr\<close> does not call its deleter on a null pointer: the list is not freed.
\<close>

definition copy_address :: "addrinfo \<Rightarrow> stop + SocketAddress" where
  "copy_address result =
     (if ai_family result = AF_INET then
        (if length (ai_addr result) < sizeof_sockaddr_in then Inl OutOfBounds
         else Inr (sockaddr_in (take sizeof_sockaddr_in (ai_addr result))))
      else bindE (assertE (ai_family result = AF_INET6) ''ai_family == AF_INET6'') (\<lambda>_.
        if length (ai_addr result) < sizeof_sockaddr_in6 then Inl OutOfBounds
        else Inr (sockaddr_in6 (take sizeof_sockaddr_in6 (ai_addr result)))))"

definition resolve ::
    "'x sys \<Rightarrow> string \<Rightarrow> 16 word \<Rightarrow> int \<Rightarrow> bool \<Rightarrow> 'x \<Rightarrow> stop + ((FileDescriptorStatus + SocketAddress) \<times> 'x)" where
  "resolve X hostname port datagram_protocol passive x =
     (let hints = \<lparr>hint_family = AF_UNSPEC, hint_socktype = datagram_protocol,
                   hint_flags = (if passive then AI_PASSIVE else 0)\<rparr>
      in case sys_getaddrinfo X hostname (show_nat (unat port)) hints x of
           (status, results, x1) \<Rightarrow>
             if status \<noteq> 0 then Inr (Inl (FileDescriptorStatus_of False (sys_errno X x1) status), x1)
             else (case results of
                     [] \<Rightarrow> Inr (Inr new_SocketAddress, x1)
                   | result # _ \<Rightarrow> bindE (copy_address result) (\<lambda>address. Inr (Inr address, x1))))"

definition sock_connect :: "'x sys \<Rightarrow> FileDescriptor \<Rightarrow> SocketAddress \<Rightarrow> 'x \<Rightarrow> FileDescriptorStatus \<times> 'x" where
  "sock_connect X socket address x =
     (case as_sockaddr address of (addr, addrlen) \<Rightarrow>
        (case sys_connect X (raw_fd socket) addr addrlen x of
           (rc, x1) \<Rightarrow> (FileDescriptorStatus_of True (sys_errno X x1) rc, x1)))"

definition sock_bind :: "'x sys \<Rightarrow> FileDescriptor \<Rightarrow> SocketAddress \<Rightarrow> 'x \<Rightarrow> FileDescriptorStatus \<times> 'x" where
  "sock_bind X socket address x =
     (case as_sockaddr address of (addr, addrlen) \<Rightarrow>
        (case sys_bind X (raw_fd socket) addr addrlen x of
           (rc, x1) \<Rightarrow> (FileDescriptorStatus_of True (sys_errno X x1) rc, x1)))"

definition sock_listen :: "'x sys \<Rightarrow> FileDescriptor \<Rightarrow> nat \<Rightarrow> 'x \<Rightarrow> FileDescriptorStatus \<times> 'x" where
  "sock_listen X socket max_pending_requests x =
     (case sys_listen X (raw_fd socket) (size_as_int max_pending_requests) x of
        (rc, x1) \<Rightarrow> (FileDescriptorStatus_of True (sys_errno X x1) rc, x1))"

section \<open>Endpoint\<close>

datatype Endpoint = Endpoint (endpoint_fd: int)

text \<open>\<open>operator<\<close> compares the descriptors; it orders the keys of a \<open>std::map\<close>.\<close>

definition Endpoint_less :: "Endpoint \<Rightarrow> Endpoint \<Rightarrow> bool" where
  "Endpoint_less lhs rhs \<longleftrightarrow> endpoint_fd lhs < endpoint_fd rhs"

instantiation Endpoint :: linorder
begin

definition less_Endpoint :: "Endpoint \<Rightarrow> Endpoint \<Rightarrow> bool" where
  "less_Endpoint = Endpoint_less"

definition less_eq_Endpoint :: "Endpoint \<Rightarrow> Endpoint \<Rightarrow> bool" where
  "less_eq_Endpoint lhs rhs \<longleftrightarrow> endpoint_fd lhs \<le> endpoint_fd rhs"

instance
  by standard (auto simp: less_Endpoint_def Endpoint_less_def less_eq_Endpoint_def Endpoint.expand)

end

section \<open>Descriptors are owned once\<close>

text \<open>
  Objects of type \<open>FileDescriptor\<close> in a program: built from raw descriptors, moved into new objects,
  moved over each other, and all destroyed at the end.
\<close>

datatype fd_step = Move_construct nat | Move_assign nat nat

fun fd_step_run :: "fd_step \<Rightarrow> FileDescriptor list \<Rightarrow> FileDescriptor list" where
  "fd_step_run (Move_construct i) ds =
     (if i < length ds then (case fd_move (ds ! i) of (d, old) \<Rightarrow> ds[i := old] @ [d]) else ds)"
| "fd_step_run (Move_assign i j) ds =
     (if i < length ds \<and> j < length ds \<and> i \<noteq> j
      then (case fd_move_assign (ds ! i) (ds ! j) of (a, b) \<Rightarrow> ds[i := a, j := b]) else ds)"

definition owned :: "FileDescriptor list \<Rightarrow> int multiset" where
  "owned ds = filter_mset (\<lambda>n. n \<noteq> INVALID) (image_mset raw_fd (mset ds))"

definition delete_all :: "'x sys \<Rightarrow> FileDescriptor list \<Rightarrow> 'x \<Rightarrow> 'x" where
  "delete_all X ds x = fold (delete_FileDescriptor X) ds x"

lemma fd_step_run_owned: "owned (fd_step_run st ds) = owned ds"
proof (cases st)
  case (Move_construct i)
  show ?thesis
  proof (cases "i < length ds")
    case True
    define m where "m = mset ds - {#ds ! i#}"
    have "mset ds = add_mset (ds ! i) m" "mset (ds[i := d]) = add_mset d m" for d
      using True by (simp_all add: m_def mset_update)
    with True Move_construct show ?thesis by (simp add: owned_def fd_move_def)
  qed (simp add: Move_construct)
next
  case (Move_assign i j)
  have copy: "a\<lparr>raw_fd := raw_fd b\<rparr> = b" for a b :: FileDescriptor by (cases a; cases b) simp
  show ?thesis unfolding Move_assign fd_step_run.simps fd_move_assign_def copy
    by (simp add: mset_swap owned_def)
qed

lemma fold_fd_steps_owned: "owned (fold fd_step_run steps ds) = owned ds"
  by (induction steps arbitrary: ds) (simp_all add: fd_step_run_owned)

lemma delete_all_closes:
  "delete_all X ds x = fold (sys_close X) (filter (\<lambda>n. 0 < n) (map raw_fd ds)) x"
  by (induction ds arbitrary: x) (simp_all add: delete_all_def delete_FileDescriptor_def)

section \<open>Resolution\<close>

lemma copy_address_family:
  assumes "ai_family a = AF_INET \<and> sizeof_sockaddr_in \<le> length (ai_addr a) \<or>
    ai_family a = AF_INET6 \<and> sizeof_sockaddr_in6 \<le> length (ai_addr a)"
  obtains address where "copy_address a = Inr address" "ip_version address = Some (ai_family a)"
    "fst (as_sockaddr address) = take (if ai_family a = AF_INET then sizeof_sockaddr_in else sizeof_sockaddr_in6) (ai_addr a)"
  using assms that by (auto simp: copy_address_def AF_INET_def AF_INET6_def)

text \<open>
  Documented behaviour of \<open>getaddrinfo\<close>: when it succeeds the list has an element, with an IPv4 or an IPv6
  address of full length.
\<close>

definition resolver_contract :: "'x sys \<Rightarrow> bool" where
  "resolver_contract X \<longleftrightarrow>
     (\<forall>host port hints x l x'. sys_getaddrinfo X host port hints x = (0, l, x') \<longrightarrow>
        (\<exists>a as. l = a # as \<and> (ai_family a = AF_INET \<and> sizeof_sockaddr_in \<le> length (ai_addr a) \<or>
           ai_family a = AF_INET6 \<and> sizeof_sockaddr_in6 \<le> length (ai_addr a))))"

lemma resolve_returns:
  assumes "resolver_contract X"
  obtains resolved x' where "resolve X host port DP passive x = Inr (resolved, x')"
    "\<And>address. resolved = Inr address \<Longrightarrow> ip_version address \<noteq> None"
proof -
  let ?hints = "\<lparr>hint_family = AF_UNSPEC, hint_socktype = DP, hint_flags = (if passive then AI_PASSIVE else 0)\<rparr>"
  obtain n l x' where call: "sys_getaddrinfo X host (show_nat (unat port)) ?hints x = (n, l, x')" by (metis prod_cases3)
  show thesis
  proof (cases "n = 0")
    case True
    then obtain a as where "l = a # as" "ai_family a = AF_INET \<and> sizeof_sockaddr_in \<le> length (ai_addr a) \<or>
        ai_family a = AF_INET6 \<and> sizeof_sockaddr_in6 \<le> length (ai_addr a)"
      using assms call unfolding resolver_contract_def by blast
    moreover from this(2) obtain address where "copy_address a = Inr address" "ip_version address = Some (ai_family a)"
      by (rule copy_address_family)
    ultimately show ?thesis using True call that [of "Inr address" x'] by (simp add: resolve_def Let_def)
  next
    case False
    then show ?thesis using call that by (simp add: resolve_def Let_def)
  qed
qed

lemma ref_resolver_contract: "resolver_contract (ref_sys cap)"
  by (auto simp: resolver_contract_def ref_sys_def sizeof_sockaddr_in_def)

section \<open>Properties of the socket layer\<close>

text \<open>C27. However descriptors are moved between wrapper objects (construction and assignment, in any
  order), destroying all of them in the end closes exactly the valid descriptors the program started
  with, each one once: none is leaked and none is closed twice.\<close>

theorem descriptors_closed_once:
  "\<exists>closed. delete_all X (fold fd_step_run steps ds) x = fold (sys_close X) closed x \<and>
     mset closed = filter_mset (\<lambda>n. 0 < n) (image_mset raw_fd (mset ds))"
proof -
  let ?ds = "fold fd_step_run steps ds"
  have pos: "mset (filter (\<lambda>n. 0 < n) (map raw_fd d)) = filter_mset (\<lambda>n. 0 < n) (owned d)" for d
    by (auto simp: owned_def filter_filter_mset INVALID_def intro!: filter_mset_cong)
  have "mset (filter (\<lambda>n. 0 < n) (map raw_fd ?ds)) = mset (filter (\<lambda>n. 0 < n) (map raw_fd ds))"
    unfolding pos fold_fd_steps_owned ..
  then show ?thesis
    using delete_all_closes [of X ?ds x] by (intro exI [of _ "filter (\<lambda>n. 0 < n) (map raw_fd ?ds)"]) simp
qed

text \<open>A successful resolution yields the first result of the resolver: an address of its family with
  the bytes of its address.\<close>

lemma resolve_takes_first:
  assumes "sys_getaddrinfo X hostname (show_nat (unat port))
      \<lparr>hint_family = AF_UNSPEC, hint_socktype = dp, hint_flags = (if passive then AI_PASSIVE else 0)\<rparr> x = (0, a # rest, x1)"
    "ai_family a = AF_INET \<and> sizeof_sockaddr_in \<le> length (ai_addr a) \<or>
     ai_family a = AF_INET6 \<and> sizeof_sockaddr_in6 \<le> length (ai_addr a)"
  shows "\<exists>address. resolve X hostname port dp passive x = Inr (Inr address, x1) \<and>
     ip_version address = Some (ai_family a) \<and>
     fst (as_sockaddr address) = take (if ai_family a = AF_INET then sizeof_sockaddr_in else sizeof_sockaddr_in6) (ai_addr a)"
  by (rule copy_address_family [OF assms(2)]) (simp add: resolve_def Let_def assms(1))

end
