(* ===== verification/Connection.thy ===== *)
theory Connection
  imports Event_Loop Sockets
begin

text \<open>
  \<open>include/ringnet/net/connection.hpp\<close> and \<open>src/ringnet/net/connection.cpp\<close>: a connected socket with the
  subscriber its requests report to. The theory also fixes the state of a whole program built on the
  library: the event loop, and the acceptors and connectors, which stay at one address because the
  callbacks they register capture \<open>this\<close>.
\<close>

section \<open>The objects of the network layer\<close>

text \<open>The reference to the loop is implicit: there is one loop in a state.\<close>

record Connection =
  conn_socket :: FileDescriptor
  conn_endpoint :: Endpoint
  conn_subscriber :: ptr

datatype AcceptorStatus = NOT_LISTENING | LISTENING

record Acceptor =
  acc_subscriber :: ptr
  acc_status :: AcceptorStatus
  max_connections :: nat
  listening_socket :: FileDescriptor

datatype ConnectorStatus = DISCONNECTED | PENDING | CONNECTED

record Connector =
  ctr_subscriber :: ptr
  resolved_address :: "FileDescriptorStatus + SocketAddress"
  connection_status :: ConnectorStatus
  ctr_socket :: FileDescriptor

text \<open>
  The closures subscribers hold: a callback \<open>'u\<close> of the program, given the event itself, or one of the
  two lambdas of the library, which capture \<open>this\<close> and a callback of the program.
\<close>

datatype 'u closure = UserEvent 'u | AcceptThen ptr 'u | ConnectThen ptr 'u

record ('x, 'u) net_world = "('x, 'u closure) event_loop" +
  acceptors :: "Acceptor pool"
  connectors :: "Connector pool"

section \<open>Connection\<close>

text \<open>The constructor, with the descriptor it was moved from.\<close>

definition new_Connection ::
    "FileDescriptor \<Rightarrow> ('x, 'c, 'z) event_loop_scheme \<Rightarrow> stop + (Connection \<times> FileDescriptor \<times> ('x, 'c, 'z) event_loop_scheme)" where
  "new_Connection socket w =
     (case fd_move socket of (own, left) \<Rightarrow>
        bindE (new_Subscriber w) (\<lambda>(p, w1).
          Inr (\<lparr>conn_socket = own, conn_endpoint = Endpoint (raw_fd own), conn_subscriber = p\<rparr>, left, w1)))"

text \<open>The defaulted move constructor and move assignment.\<close>

definition move_Connection :: "Connection \<Rightarrow> Connection \<times> Connection" where
  "move_Connection other =
     (case fd_move (conn_socket other) of (own, left) \<Rightarrow>
        (\<lparr>conn_socket = own, conn_endpoint = conn_endpoint other, conn_subscriber = conn_subscriber other\<rparr>,
         other\<lparr>conn_socket := left, conn_subscriber := nullptr\<rparr>))"

definition move_assign_Connection ::
    "Connection \<Rightarrow> Connection \<Rightarrow> ('x, 'c, 'z) event_loop_scheme \<Rightarrow> stop + (Connection \<times> Connection \<times> ('x, 'c, 'z) event_loop_scheme)" where
  "move_assign_Connection this other w =
     (case fd_move_assign (conn_socket this) (conn_socket other) of (mine, theirs) \<Rightarrow>
        bindE (if conn_subscriber this \<noteq> nullptr then delete_Subscriber (conn_subscriber this) w else Inr w) (\<lambda>w1.
          Inr (\<lparr>conn_socket = mine, conn_endpoint = conn_endpoint other, conn_subscriber = conn_subscriber other\<rparr>,
               other\<lparr>conn_socket := theirs, conn_subscriber := nullptr\<rparr>, w1)))"

text \<open>The destructor cancels what is under way on the socket; then the members go, last one first.\<close>

definition delete_Connection ::
    "'x sys \<Rightarrow> Connection \<Rightarrow> ('x, 'c, 'z) event_loop_scheme \<Rightarrow> stop + ('x, 'c, 'z) event_loop_scheme" where
  "delete_Connection X c w =
     (let w1 = (if fd_bool (conn_socket c) then loop_cancel X (raw_fd (conn_socket c)) w else w) in
      bindE (if conn_subscriber c \<noteq> nullptr then delete_Subscriber (conn_subscriber c) w1 else Inr w1) (\<lambda>w2.
        Inr (w2\<lparr>env := delete_FileDescriptor X (conn_socket c) (env w2)\<rparr>)))"

definition request_status :: "AddRequestStatus \<Rightarrow> string \<Rightarrow> MessagedStatus" where
  "request_status st msg =
     (if st = QUEUE_FULL then \<lparr>success = False, message = ''Request queue is full''\<rparr>
      else \<lparr>success = True, message = msg\<rparr>)"

definition asyncRead ::
    "Connection \<Rightarrow> ('x, 'c, 'z) event_loop_scheme \<Rightarrow> stop + (MessagedStatus \<times> ('x, 'c, 'z) event_loop_scheme)" where
  "asyncRead c w =
     bindE (loop_add (MultiShotReadR (new_MultiShotReadRequest\<lparr>multishot_fd := raw_fd (conn_socket c)\<rparr>)) (conn_subscriber c) w)
       (\<lambda>(st, w'). Inr (request_status st ''Success'', w'))"

definition asyncWrite ::
    "Connection \<Rightarrow> span \<Rightarrow> ('x, 'c, 'z) event_loop_scheme \<Rightarrow> stop + (MessagedStatus \<times> ('x, 'c, 'z) event_loop_scheme)" where
  "asyncWrite c sent_bytes w =
     bindE (loop_add (WriteR (new_WriteRequest\<lparr>write_fd := raw_fd (conn_socket c), bytes_written := sent_bytes\<rparr>)) (conn_subscriber c) w)
       (\<lambda>(st, w'). Inr (request_status st ''Success'', w'))"

definition conn_onError :: "Connection \<Rightarrow> 'u \<Rightarrow> ('x, 'u closure, 'z) event_loop_scheme \<Rightarrow> stop + ('x, 'u closure, 'z) event_loop_scheme" where
  "conn_onError c callback w = subscriber_on (conn_subscriber c) ErrorEventT (UserEvent callback) w"

definition conn_onRead :: "Connection \<Rightarrow> 'u \<Rightarrow> ('x, 'u closure, 'z) event_loop_scheme \<Rightarrow> stop + ('x, 'u closure, 'z) event_loop_scheme" where
  "conn_onRead c callback w = subscriber_on (conn_subscriber c) ReadEventT (UserEvent callback) w"

definition conn_onWrite :: "Connection \<Rightarrow> 'u \<Rightarrow> ('x, 'u closure, 'z) event_loop_scheme \<Rightarrow> stop + ('x, 'u closure, 'z) event_loop_scheme" where
  "conn_onWrite c callback w = subscriber_on (conn_subscriber c) WriteEventT (UserEvent callback) w"

definition conn_endpoint_of :: "Connection \<Rightarrow> Endpoint" where
  "conn_endpoint_of c = conn_endpoint c"

section \<open>What a connection asks of the loop\<close>

text \<open>Requests on a connection are well-formed, so the loop's guarantees apply to them.\<close>

definition read_request_of :: "Connection \<Rightarrow> request" where
  "read_request_of c = MultiShotReadR (new_MultiShotReadRequest\<lparr>multishot_fd := raw_fd (conn_socket c)\<rparr>)"

definition write_request_of :: "Connection \<Rightarrow> span \<Rightarrow> request" where
  "write_request_of c b = WriteR (new_WriteRequest\<lparr>write_fd := raw_fd (conn_socket c), bytes_written := b\<rparr>)"

lemma connection_requests_wf [simp]: "wf_request (read_request_of c)" "wf_request (write_request_of c b)"
  "kind (read_request_of c) = READ_MULTISHOT" "kind (write_request_of c b) = WRITE"
  by (simp_all add: read_request_of_def write_request_of_def wf_request_def new_MultiShotReadRequest_def new_WriteRequest_def)

lemma request_status_OK [simp]: "request_status OK msg = \<lparr>success = True, message = msg\<rparr>"
  by (simp add: request_status_def)

lemma async_ops_eq:
  "asyncRead c w = bindE (loop_add (read_request_of c) (conn_subscriber c) w) (\<lambda>(st, w'). Inr (request_status st ''Success'', w'))"
  "asyncWrite c b w = bindE (loop_add (write_request_of c b) (conn_subscriber c) w) (\<lambda>(st, w'). Inr (request_status st ''Success'', w'))"
  by (simp_all add: asyncRead_def asyncWrite_def read_request_of_def write_request_of_def)

lemma asyncWrite_spec:
  assumes "sq_inv w"
  obtains a rp where "asyncWrite c b w = Inr (\<lparr>success = True, message = ''Success''\<rparr>,
      w\<lparr>request_pool := rp, pending_requests := pending_push WRITE a (pending_requests w)\<rparr>)"
    "block_size (request_pool w) a = None" "a \<noteq> nullptr"
    "contents rp = (contents (request_pool w))(a \<mapsto> added_request (write_request_of c b) (conn_subscriber c))"
    "sq_inv (w\<lparr>request_pool := rp, pending_requests := pending_push WRITE a (pending_requests w)\<rparr>)"
  by (rule loop_add_spec [OF assms connection_requests_wf(2) [of c b], of "conn_subscriber c"])
     (rule that, simp_all add: async_ops_eq)

section \<open>Subscribers come and go\<close>

lemma new_Subscriber_spec:
  assumes "pool_inv (subscribers w)"
  obtains p pool where "new_Subscriber w = Inr (p, w\<lparr>subscribers := pool\<rparr>)" "pool_inv pool" "p \<noteq> nullptr"
    "block_size (subscribers w) p = None" "block_size pool = (block_size (subscribers w))(p \<mapsto> sizeof_Subscriber)"
    "contents pool = (contents (subscribers w))(p \<mapsto> new_EventHandler)"
proof -
  obtain p pool1 where a: "allocate sizeof_Subscriber (subscribers w) = (p, pool1)"
    by (cases "allocate sizeof_Subscriber (subscribers w)")
  have pos: "0 < sizeof_Subscriber" by (simp add: sizeof_Subscriber_def)
  show thesis
    by (rule pool.new_object [OF assms pos a, of new_EventHandler], rule that) (simp_all add: new_Subscriber_def a)
qed

lemma delete_Subscriber_spec:
  assumes "pool_inv (subscribers w)" "block_size (subscribers w) p = Some sizeof_Subscriber"
  obtains pool where "delete_Subscriber p w = Inr (w\<lparr>subscribers := pool\<rparr>)" "pool_inv pool"
    "block_size pool = (block_size (subscribers w))(p := None)" "contents pool = (contents (subscribers w))(p := None)"
  using pool.free_live [OF assms] that by (auto simp: delete_Subscriber_def)

lemma deref_freed: "block_size pool p = None \<Longrightarrow> p \<noteq> nullptr \<Longrightarrow> deref pool p = Inl (UseAfterFree p)"
  by (simp add: block_size_def deref_def)

lemma loop_cancel_frame: "\<exists>x. loop_cancel X fd w = w\<lparr>env := x\<rparr>"
proof (cases "getNewSubmissionQueueEntry X w")
  case (Pair e w1)
  then show ?thesis
    using getNew_frame [OF Pair] by (auto simp: loop_cancel_def sq_cancel_def split: option.splits)
qed

lemma delete_Connection_spec:
  assumes "pool_inv (subscribers w)" "block_size (subscribers w) (conn_subscriber c) = Some sizeof_Subscriber"
    "conn_subscriber c \<noteq> nullptr"
  obtains x pool where "delete_Connection X c w = Inr (w\<lparr>subscribers := pool, env := x\<rparr>)" "pool_inv pool"
    "block_size pool = (block_size (subscribers w))(conn_subscriber c := None)"
    "contents pool = (contents (subscribers w))(conn_subscriber c := None)"
proof -
  obtain x where x: "(if fd_bool (conn_socket c) then loop_cancel X (raw_fd (conn_socket c)) w else w) = w\<lparr>env := x\<rparr>"
    using loop_cancel_frame [of X "raw_fd (conn_socket c)" w] by (cases "fd_bool (conn_socket c)") (auto intro: that [of "env w"])
  have inv: "pool_inv (subscribers (w\<lparr>env := x\<rparr>))"
      "block_size (subscribers (w\<lparr>env := x\<rparr>)) (conn_subscriber c) = Some sizeof_Subscriber"
    using assms(1,2) by simp_all
  show thesis
    by (rule delete_Subscriber_spec [OF inv], rule that) (use assms(3) x in \<open>simp_all add: delete_Connection_def\<close>)
qed

text \<open>
  Moving a connection moves its whole responsibility: destroying the object moved from does nothing,
  and the new object is what the original was.
\<close>

lemma delete_moved_Connection: "delete_Connection X (snd (move_Connection c)) w = Inr w"
  by (simp add: move_Connection_def fd_move_def delete_Connection_def delete_FileDescriptor_def fd_bool_def INVALID_def)

lemma move_Connection_own: "fst (move_Connection c) = c"
  by (cases c) (simp add: move_Connection_def fd_move_def)

section \<open>Properties of connections\<close>

text \<open>\<open>asyncWrite\<close> succeeds and queues, at a fresh address, one write request with the connection's
  descriptor, the caller's bytes and the connection's subscriber; \<open>asyncRead\<close> likewise queues one
  multi-shot read on the buffers of the loop.\<close>

lemma async_operations_queue_requests:
  assumes "sq_inv w"
  shows "(\<exists>w' a. asyncWrite c b w = Inr (\<lparr>success = True, message = ''Success''\<rparr>, w') \<and> sq_inv w' \<and>
       block_size (request_pool w) a = None \<and>
       deref (request_pool w') a = Inr (set_user_data (conn_subscriber c)
         (WriteR (new_WriteRequest\<lparr>write_fd := raw_fd (conn_socket c), bytes_written := b\<rparr>))) \<and>
       pending_requests w' = pending_push WRITE a (pending_requests w)) \<and>
     (\<exists>w' a. asyncRead c w = Inr (\<lparr>success = True, message = ''Success''\<rparr>, w') \<and> sq_inv w' \<and>
       block_size (request_pool w) a = None \<and>
       deref (request_pool w') a = Inr (set_user_data (conn_subscriber c)
         (MultiShotReadR (new_MultiShotReadRequest\<lparr>multishot_fd := raw_fd (conn_socket c), buffer_group_id := word_of_int BUFFER_GROUP_ID\<rparr>))) \<and>
       pending_requests w' = pending_push READ_MULTISHOT a (pending_requests w))"
  (is "?W \<and> ?R")
proof
  have r: "added_request (write_request_of c b) p = set_user_data p
      (WriteR (new_WriteRequest\<lparr>write_fd := raw_fd (conn_socket c), bytes_written := b\<rparr>))"
    "added_request (read_request_of c) p = set_user_data p
      (MultiShotReadR (new_MultiShotReadRequest\<lparr>multishot_fd := raw_fd (conn_socket c), buffer_group_id := word_of_int BUFFER_GROUP_ID\<rparr>))" for p
    by (simp_all add: added_request_def write_request_of_def read_request_of_def)
  show ?W
    by (rule loop_add_spec [OF assms connection_requests_wf(2) [of c b], of "conn_subscriber c"])
       (fastforce simp: async_ops_eq deref_contents r)
  show ?R
    by (rule loop_add_spec [OF assms connection_requests_wf(1) [of c], of "conn_subscriber c"])
       (fastforce simp: async_ops_eq deref_contents r)
qed

definition sample_connection :: Connection where
  "sample_connection = \<lparr>conn_socket = FileDescriptor_of 5, conn_endpoint = Endpoint 5, conn_subscriber = 7\<rparr>"

text \<open>C37. Destroying a connection that has a request under way leaves the request in the pool with the
  address of the destroyed subscriber: when its completion arrives (the cancellation the destructor
  asked for, for instance) the loop uses freed memory.\<close>

theorem destroyed_connection_dangles:
  assumes "pool_inv (subscribers w)" "block_size (subscribers w) (conn_subscriber c) = Some sizeof_Subscriber"
    "deref (request_pool w) a = Inr r" "wf_request r" "user_data (header r) = conn_subscriber c"
    "conn_subscriber c \<noteq> nullptr" "cqe_user_data e = a" "cqe_res e < 0"
  shows "\<exists>w'. delete_Connection X c w = Inr w' \<and> request_pool w' = request_pool w \<and>
     on_completion X cb e w' = Inl (UseAfterFree (conn_subscriber c))"
proof -
  obtain x pool where d: "delete_Connection X c w = Inr (w\<lparr>subscribers := pool, env := x\<rparr>)"
      "block_size pool = (block_size (subscribers w))(conn_subscriber c := None)"
    using delete_Connection_spec [OF assms(1,2,6)] by metis
  let ?w' = "w\<lparr>subscribers := pool, env := x\<rparr>"
  have freed: "deref pool (conn_subscriber c) = Inl (UseAfterFree (conn_subscriber c))"
    using deref_freed [of pool] d(2) assms(6) by simp
  have "on_completion X cb e ?w' = subscriber_handle cb (user_data (header r)) (ErrorEvent (- cqe_res e))
      (?w'\<lparr>cerr := cerr ?w' @ ''During handling of '' @ print_request r @ newline\<rparr>)"
    using assms(3-8) by (intro on_completion_error) simp_all
  with d(1) freed assms(5) show ?thesis
    by (simp add: subscriber_handle_def handle_def get_subscriber_def noexceptE_def)
qed

theorem destroyed_connection_dangles_witness:
  "\<exists>w'. delete_Connection (ref_sys 4) sample_connection sample_loop = Inr w' \<and>
     on_completion (ref_sys 4) sample_cb \<lparr>cqe_user_data = 42, cqe_res = -125, cqe_flags = 0\<rparr> w' = Inl (UseAfterFree 7)"
proof -
  have "block_size (subscribers sample_loop) (conn_subscriber sample_connection) = Some sizeof_Subscriber"
      "user_data (header (set_user_data 7 sample_multishot)) = conn_subscriber sample_connection"
      "conn_subscriber sample_connection = 7"
    by (simp_all add: sample_loop_def sample_connection_def block_size_def sizeof_Subscriber_def)
  then show ?thesis
    using destroyed_connection_dangles [OF sample_subscribers(1) _ sample_loop_requests(2), of sample_connection
        "\<lparr>cqe_user_data = 42, cqe_res = -125, cqe_flags = 0\<rparr>" "ref_sys 4" sample_cb] by auto
qed

end
