(* ===== verification/Acceptor.thy ===== *)
theory Acceptor
  imports Connection
begin

text \<open>
  \<open>include/ringnet/net/acceptor.hpp\<close>: bind, listen and accept. An acceptor goes from \<open>NOT_LISTENING\<close> to
  \<open>LISTENING\<close> when \<open>listen\<close> gets through resolution, socket creation, binding, listening and the accept
  request; each step has its own failure. \<open>DP\<close> is the template's protocol.
\<close>

section \<open>Acceptors in memory\<close>

definition get_acceptor :: "ptr \<Rightarrow> ('x, 'u, 'z) net_world_scheme \<Rightarrow> stop + Acceptor" where
  "get_acceptor this w = deref (acceptors w) this"

definition put_acceptor :: "ptr \<Rightarrow> Acceptor \<Rightarrow> ('x, 'u, 'z) net_world_scheme \<Rightarrow> stop + ('x, 'u, 'z) net_world_scheme" where
  "put_acceptor this a w = bindE (store this a (acceptors w)) (\<lambda>pool. Inr (w\<lparr>acceptors := pool\<rparr>))"

definition sizeof_Acceptor :: nat where "sizeof_Acceptor = 40"

section \<open>Operations\<close>

definition new_Acceptor :: "nat \<Rightarrow> ('x, 'u, 'z) net_world_scheme \<Rightarrow> stop + (ptr \<times> ('x, 'u, 'z) net_world_scheme)" where
  "new_Acceptor max_connections_arg w =
     (case allocate sizeof_Acceptor (acceptors w) of (this, pool1) \<Rightarrow>
        bindE (new_Subscriber (w\<lparr>acceptors := pool1\<rparr>)) (\<lambda>(p, w1).
        bindE (put_acceptor this \<lparr>acc_subscriber = p, acc_status = NOT_LISTENING,
                 max_connections = max_connections_arg, listening_socket = no_FileDescriptor\<rparr> w1) (\<lambda>w2.
          Inr (this, w2))))"

definition delete_Acceptor :: "'x sys \<Rightarrow> ptr \<Rightarrow> ('x, 'u, 'z) net_world_scheme \<Rightarrow> stop + ('x, 'u, 'z) net_world_scheme" where
  "delete_Acceptor X this w =
     bindE (get_acceptor this w) (\<lambda>a.
       let w1 = (if fd_bool (listening_socket a) then loop_cancel X (raw_fd (listening_socket a)) w else w);
           w2 = w1\<lparr>env := delete_FileDescriptor X (listening_socket a) (env w1)\<rparr>
       in bindE (delete_Subscriber (acc_subscriber a) w2) (\<lambda>w3.
          bindE (deallocate sizeof_Acceptor this (acceptors w3)) (\<lambda>pool. Inr (w3\<lparr>acceptors := pool\<rparr>))))"

definition acceptor_onError :: "ptr \<Rightarrow> 'u \<Rightarrow> ('x, 'u, 'z) net_world_scheme \<Rightarrow> stop + ('x, 'u, 'z) net_world_scheme" where
  "acceptor_onError this user_callback w =
     bindE (get_acceptor this w) (\<lambda>a. subscriber_on (acc_subscriber a) ErrorEventT (UserEvent user_callback) w)"

definition acceptor_onNewConnection :: "ptr \<Rightarrow> 'u \<Rightarrow> ('x, 'u, 'z) net_world_scheme \<Rightarrow> stop + ('x, 'u, 'z) net_world_scheme" where
  "acceptor_onNewConnection this user_callback w =
     bindE (get_acceptor this w) (\<lambda>a. subscriber_on (acc_subscriber a) AcceptEventT (AcceptThen this user_callback) w)"

text \<open>
  The body of the lambda \<open>onNewConnection\<close> registers. \<open>ucon\<close> runs a callback of the program on a
  \<open>Connection &&\<close> and gives back that object as the callback left it; the temporaries are destroyed at
  the end of the statement, the connection first.
\<close>

definition accept_then ::
    "'x sys \<Rightarrow> ('u \<Rightarrow> Connection \<Rightarrow> ('x, 'u, 'z) net_world_scheme \<Rightarrow> stop + (Connection \<times> ('x, 'u, 'z) net_world_scheme)) \<Rightarrow>
     ptr \<Rightarrow> 'u \<Rightarrow> int \<Rightarrow> ('x, 'u, 'z) net_world_scheme \<Rightarrow> stop + ('x, 'u, 'z) net_world_scheme" where
  "accept_then X ucon this user_callback client_fd w =
     bindE (get_acceptor this w) (\<lambda>_.
     bindE (new_Connection (FileDescriptor_of client_fd) w) (\<lambda>(c, temporary, w1).
     bindE (ucon user_callback c w1) (\<lambda>(c', w2).
     bindE (delete_Connection X c' w2) (\<lambda>w3.
       Inr (w3\<lparr>env := delete_FileDescriptor X temporary (env w3)\<rparr>)))))"

text \<open>\<open>socket = ::socket(\<dots>)\<close>: a temporary owner is swapped in and destroyed with the old descriptor.\<close>

definition assign_raw_socket :: "'x sys \<Rightarrow> FileDescriptor \<Rightarrow> int \<Rightarrow> 'x \<Rightarrow> FileDescriptor \<times> 'x" where
  "assign_raw_socket X this raw x =
     (case fd_move_assign this (FileDescriptor_of raw) of (new, temporary) \<Rightarrow>
        (new, delete_FileDescriptor X temporary x))"

definition address_text :: "string \<Rightarrow> 16 word \<Rightarrow> string" where
  "address_text address port = address @ '':'' @ show_nat (unat port)"

definition failure :: "string \<Rightarrow> string \<Rightarrow> 16 word \<Rightarrow> string \<Rightarrow> MessagedStatus" where
  "failure what address port why = \<lparr>success = False, message = what @ address_text address port @ '': '' @ why\<rparr>"

text \<open>\<open>listen\<close> from the resolved address on \<dots>\<close>

definition acceptor_open ::
    "'x sys \<Rightarrow> int \<Rightarrow> ptr \<Rightarrow> Acceptor \<Rightarrow> string \<Rightarrow> 16 word \<Rightarrow> SocketAddress \<Rightarrow> ('x, 'u, 'z) net_world_scheme \<Rightarrow>
     stop + (MessagedStatus \<times> ('x, 'u, 'z) net_world_scheme)" where
  "acceptor_open X DP this a address port resolved w =
     (case sys_socket X (the (ip_version resolved)) DP 0 (env w) of (raw, x2) \<Rightarrow>
      case assign_raw_socket X (listening_socket a) raw x2 of (sock, x3) \<Rightarrow>
      bindE (put_acceptor this (a\<lparr>listening_socket := sock\<rparr>) (w\<lparr>env := x3\<rparr>)) (\<lambda>w3.
      case set_option X sock SO_REUSEADDR True (env w3) of (st, x4) \<Rightarrow>
        if \<not> status_ok st then
          Inr (failure ''Error setting SO_REUSEADDR option to socket '' address port (status_what (sys_strerror X) st), w3\<lparr>env := x4\<rparr>)
        else case sock_bind X sock resolved x4 of (st, x5) \<Rightarrow>
          if \<not> status_ok st then
            Inr (failure ''Error binding to '' address port (status_what (sys_strerror X) st), w3\<lparr>env := x5\<rparr>)
          else case sock_listen X sock (max_connections a) x5 of (st, x6) \<Rightarrow>
            if \<not> status_ok st then
              Inr (failure ''Error listening to '' address port (status_what (sys_strerror X) st), w3\<lparr>env := x6\<rparr>)
            else
              bindE (loop_add (AcceptR (new_AcceptRequest\<lparr>listening_socket_fd := raw_fd sock\<rparr>)) (acc_subscriber a) (w3\<lparr>env := x6\<rparr>)) (\<lambda>(uring_status, w4).
                if uring_status = QUEUE_FULL then Inr (\<lparr>success = False, message = ''Request queue is full''\<rparr>, w4)
                else bindE (put_acceptor this (a\<lparr>listening_socket := sock, acc_status := LISTENING\<rparr>) w4) (\<lambda>w5.
                  Inr (\<lparr>success = True, message = ''Pending connection requests''\<rparr>, w5)))))"

text \<open>\<dots> and the whole function.\<close>

definition acceptor_listen ::
    "'x sys \<Rightarrow> int \<Rightarrow> ptr \<Rightarrow> string \<Rightarrow> 16 word \<Rightarrow> ('x, 'u, 'z) net_world_scheme \<Rightarrow>
     stop + (MessagedStatus \<times> ('x, 'u, 'z) net_world_scheme)" where
  "acceptor_listen X DP this listening_address listening_port w =
     bindE (get_acceptor this w) (\<lambda>a.
       if acc_status a = LISTENING then Inr (\<lparr>success = False, message = ''Already listening''\<rparr>, w)
       else bindE (resolve X listening_address listening_port DP True (env w)) (\<lambda>(resolved, x1).
         case resolved of
           Inl st \<Rightarrow> Inr (failure ''Error resolving address '' listening_address listening_port
                            (status_what (sys_gai_strerror X) st), w\<lparr>env := x1\<rparr>)
         | Inr address \<Rightarrow>
             bindE (assertE (ip_version address \<noteq> None) ''resolved_address->ip_version().has_value()'') (\<lambda>_.
               acceptor_open X DP this a listening_address listening_port address (w\<lparr>env := x1\<rparr>))))"

section \<open>The cell of an acceptor\<close>

interpretation acceptor_heap: object_heap acceptors "\<lambda>q w. w\<lparr>acceptors := q\<rparr>"
  by unfold_locales simp_all

lemma acceptor_access:
  "get_acceptor p = (\<lambda>w. deref (acceptors w) p)"
  "put_acceptor p = (\<lambda>a w. bindE (store p a (acceptors w)) (\<lambda>q. Inr (w\<lparr>acceptors := q\<rparr>)))"
  by (simp_all add: fun_eq_iff get_acceptor_def put_acceptor_def)

interpretation acc: memory_cell "get_acceptor p" "put_acceptor p" "\<lambda>w. pool_inv (acceptors w)" for p
  unfolding acceptor_access by (rule acceptor_heap.object_at)

lemma acceptor_cell:
  assumes "pool_inv (acceptors w)" "get_acceptor this w = Inr a"
  obtains pool where "put_acceptor this b w = Inr (w\<lparr>acceptors := pool\<rparr>)" "pool_inv pool"
    "contents pool = (contents (acceptors w))(this \<mapsto> b)" "block_size pool = block_size (acceptors w)"
proof -
  obtain pool where "store this b (acceptors w) = Inr pool" "pool_inv pool"
      "contents pool = (contents (acceptors w))(this \<mapsto> b)" "block_size pool = block_size (acceptors w)"
    using store_deref [OF assms(1)] assms(2) unfolding get_acceptor_def by metis
  then show thesis using that by (simp add: put_acceptor_def)
qed

lemma sq_inv_env [simp]: "sq_inv (w\<lparr>env := x\<rparr>) = sq_inv w"
  by (simp add: sq_inv_def)

lemma sq_inv_acceptors [simp]: "sq_inv (w\<lparr>acceptors := pool\<rparr>) = sq_inv w"
  for w :: "('x, 'u, 'z) net_world_scheme"
  by (simp add: sq_inv_def)

lemma AcceptR_wf: "wf_request (AcceptR (new_AcceptRequest\<lparr>listening_socket_fd := n\<rparr>))"
  by (simp add: wf_request_def new_AcceptRequest_def)

text \<open>
  What an acceptor promises of \<open>listen\<close>: on success it is listening and one accept request for its
  socket, reporting to its subscriber, waits to be submitted; on failure nothing waits and its status
  is as before. The socket it got so far is kept either way.
\<close>

definition listen_outcome ::
    "ptr \<Rightarrow> Acceptor \<Rightarrow> ('x, 'u, 'z) net_world_scheme \<Rightarrow> MessagedStatus \<Rightarrow> ('x, 'u, 'z) net_world_scheme \<Rightarrow> bool" where
  "listen_outcome this a w st w' \<longleftrightarrow>
     sq_inv w' \<and> pool_inv (acceptors w') \<and> subscribers w' = subscribers w \<and>
     (\<exists>sock. get_acceptor this w' =
          Inr (a\<lparr>listening_socket := sock, acc_status := (if success st then LISTENING else acc_status a)\<rparr>) \<and>
        (if success st then
           acc_status a = NOT_LISTENING \<and>
           (\<exists>p. block_size (request_pool w) p = None \<and>
              deref (request_pool w') p = Inr (set_user_data (acc_subscriber a)
                (AcceptR (new_AcceptRequest\<lparr>listening_socket_fd := raw_fd sock\<rparr>))) \<and>
              pending_requests w' = pending_push ACCEPT p (pending_requests w))
         else request_pool w' = request_pool w \<and> pending_requests w' = pending_requests w))"

lemma listen_outcome_failure:
  assumes "sq_inv w" "pool_inv pool" "contents pool = (contents (acceptors w))(this \<mapsto> a\<lparr>listening_socket := sock\<rparr>)"
    "this \<noteq> nullptr"
  shows "listen_outcome this a w (failure msg address port why) (w\<lparr>acceptors := pool, env := x\<rparr>)"
  using assms by (auto simp: listen_outcome_def failure_def get_acceptor_def deref_contents intro!: exI [of _ sock])

lemma listen_outcome_success:
  assumes "sq_inv w" "pool_inv pool" "contents pool = (contents (acceptors w))(this \<mapsto> a\<lparr>listening_socket := sock\<rparr>)"
    "this \<noteq> nullptr" "acc_status a = NOT_LISTENING"
    "loop_add (AcceptR (new_AcceptRequest\<lparr>listening_socket_fd := raw_fd sock\<rparr>)) (acc_subscriber a)
       (w\<lparr>acceptors := pool, env := x\<rparr>) = Inr (uring_status, w4)"
  obtains w5 where "uring_status = OK"
    "put_acceptor this (a\<lparr>listening_socket := sock, acc_status := LISTENING\<rparr>) w4 = Inr w5"
    "listen_outcome this a w \<lparr>success = True, message = msg\<rparr> w5"
proof -
  let ?r = "AcceptR (new_AcceptRequest\<lparr>listening_socket_fd := raw_fd sock\<rparr>)" and ?w = "w\<lparr>acceptors := pool, env := x\<rparr>"
  have inv: "sq_inv ?w" using assms(1) by (simp add: sq_inv_def)
  obtain p rp where add: "loop_add ?r (acc_subscriber a) ?w =
        Inr (OK, ?w\<lparr>request_pool := rp, pending_requests := pending_push (kind ?r) p (pending_requests ?w)\<rparr>)"
      "p \<noteq> nullptr" "block_size (request_pool ?w) p = None"
      "contents rp = (contents (request_pool ?w))(p \<mapsto> added_request ?r (acc_subscriber a))"
      "sq_inv (?w\<lparr>request_pool := rp, pending_requests := pending_push (kind ?r) p (pending_requests ?w)\<rparr>)"
    by (rule loop_add_spec [OF inv AcceptR_wf])
  have w4: "uring_status = OK"
      "w4 = ?w\<lparr>request_pool := rp, pending_requests := pending_push ACCEPT p (pending_requests w)\<rparr>"
    using add(1) assms(6) by simp_all
  have cell: "pool_inv (acceptors w4)" "get_acceptor this w4 = Inr (a\<lparr>listening_socket := sock\<rparr>)"
    using assms(2-4) by (simp_all add: w4 get_acceptor_def deref_contents)
  obtain pool5 where pool5: "put_acceptor this (a\<lparr>listening_socket := sock, acc_status := LISTENING\<rparr>) w4 = Inr (w4\<lparr>acceptors := pool5\<rparr>)"
      "pool_inv pool5" "contents pool5 = (contents (acceptors w4))(this \<mapsto> a\<lparr>listening_socket := sock, acc_status := LISTENING\<rparr>)"
    using acceptor_cell [OF cell] by metis
  have "sq_inv (w4\<lparr>acceptors := pool5\<rparr>)" using add(5) unfolding w4 by (simp add: sq_inv_def)
  moreover have "deref rp p = Inr (set_user_data (acc_subscriber a) ?r)"
    using add(2,4) by (simp add: deref_contents added_request_def)
  ultimately have "listen_outcome this a w \<lparr>success = True, message = msg\<rparr> (w4\<lparr>acceptors := pool5\<rparr>)"
    using assms(4,5) pool5 add(3) unfolding listen_outcome_def
    by (auto simp: w4 get_acceptor_def deref_contents intro!: exI [of _ sock] exI [of _ p])
  with that [OF w4(1) pool5(1)] show thesis by blast
qed

lemma listen_outcome_env [simp]: "listen_outcome this a (w\<lparr>env := x\<rparr>) st w' = listen_outcome this a w st w'"
  by (simp add: listen_outcome_def)

lemma acceptor_open_outcome:
  assumes "sq_inv w" "pool_inv (acceptors w)" "get_acceptor this w = Inr a" "acc_status a = NOT_LISTENING"
  obtains st w' where "acceptor_open X DP this a address port resolved w = Inr (st, w')" "listen_outcome this a w st w'"
proof -
  have null: "this \<noteq> nullptr" using assms(3) by (auto simp: get_acceptor_def deref_contents)
  obtain raw x2 where 2: "sys_socket X (the (ip_version resolved)) DP 0 (env w) = (raw, x2)"
    by (cases "sys_socket X (the (ip_version resolved)) DP 0 (env w)")
  obtain sock x3 where 3: "assign_raw_socket X (listening_socket a) raw x2 = (sock, x3)"
    by (cases "assign_raw_socket X (listening_socket a) raw x2")
  obtain pool where pool: "put_acceptor this (a\<lparr>listening_socket := sock\<rparr>) (w\<lparr>env := x3\<rparr>) = Inr (w\<lparr>env := x3, acceptors := pool\<rparr>)"
      "pool_inv pool" "contents pool = (contents (acceptors w))(this \<mapsto> a\<lparr>listening_socket := sock\<rparr>)"
    using acceptor_cell [of "w\<lparr>env := x3\<rparr>" this a "a\<lparr>listening_socket := sock\<rparr>"] assms(2,3)
    by (auto simp: get_acceptor_def)
  note fail = listen_outcome_failure [OF assms(1) pool(2,3) null, where address = address and port = port]
  obtain s4 x4 where 4: "set_option X sock SO_REUSEADDR True x3 = (s4, x4)" by (cases "set_option X sock SO_REUSEADDR True x3")
  obtain s5 x5 where 5: "sock_bind X sock resolved x4 = (s5, x5)" by (cases "sock_bind X sock resolved x4")
  obtain s6 x6 where 6: "sock_listen X sock (max_connections a) x5 = (s6, x6)" by (cases "sock_listen X sock (max_connections a) x5")
  note steps = acceptor_open_def 2 3 4 5 6 pool(1)
  consider "\<not> status_ok s4" | "status_ok s4" "\<not> status_ok s5" | "status_ok s4" "status_ok s5" "\<not> status_ok s6"
    | "status_ok s4" "status_ok s5" "status_ok s6" by blast
  then show thesis
  proof cases
    case 4
    let ?w6 = "w\<lparr>acceptors := pool, env := x6\<rparr>"
    let ?r = "AcceptR (new_AcceptRequest\<lparr>listening_socket_fd := raw_fd sock\<rparr>)"
    have inv: "sq_inv ?w6" using assms(1) by simp
    obtain w4 where add: "loop_add ?r (acc_subscriber a) ?w6 = Inr (OK, w4)"
      by (rule loop_add_spec [OF inv AcceptR_wf [of "raw_fd sock"], of "acc_subscriber a"]) (rule that)
    obtain w5 where "put_acceptor this (a\<lparr>listening_socket := sock, acc_status := LISTENING\<rparr>) w4 = Inr w5"
        "listen_outcome this a w \<lparr>success = True, message = ''Pending connection requests''\<rparr> w5"
      using listen_outcome_success [OF assms(1) pool(2,3) null assms(4) add] by metis
    with 4 add show thesis by (intro that) (simp_all add: steps)
  qed (rule that, simp add: steps, rule fail)+
qed

lemma acceptor_open_bind_fails:
  assumes "\<And>sock x. \<not> status_ok (fst (sock_bind X sock resolved x))"
    "acceptor_open X DP this a address port resolved w = Inr (st, w')"
  shows "\<not> success st"
proof -
  obtain raw x2 where 2: "sys_socket X (the (ip_version resolved)) DP 0 (env w) = (raw, x2)"
    by (cases "sys_socket X (the (ip_version resolved)) DP 0 (env w)")
  obtain sock x3 where 3: "assign_raw_socket X (listening_socket a) raw x2 = (sock, x3)"
    by (cases "assign_raw_socket X (listening_socket a) raw x2")
  obtain w3 where w3: "put_acceptor this (a\<lparr>listening_socket := sock\<rparr>) (w\<lparr>env := x3\<rparr>) = Inr w3"
    using assms(2) 2 3 by (auto simp: acceptor_open_def res_simps)
  obtain s4 x4 where 4: "set_option X sock SO_REUSEADDR True (env w3) = (s4, x4)"
    by (cases "set_option X sock SO_REUSEADDR True (env w3)")
  obtain s5 x5 where 5: "sock_bind X sock resolved x4 = (s5, x5)" by (cases "sock_bind X sock resolved x4")
  have "\<not> status_ok s5" using assms(1) [of sock x4] 5 by simp
  with assms(2) 2 3 4 5 w3 show ?thesis
    by (cases "status_ok s4") (auto simp: acceptor_open_def failure_def)
qed

lemma acceptor_listen_outcome:
  assumes "sq_inv w" "pool_inv (acceptors w)" "get_acceptor this w = Inr a"
    "resolve X address port DP True (env w) = Inr (resolved, x1)"
  obtains st w' where "acceptor_listen X DP this address port w = Inr (st, w')" "listen_outcome this a w st w'"
proof (cases "acc_status a")
  case LISTENING
  have "a\<lparr>listening_socket := listening_socket a, acc_status := LISTENING\<rparr> = a" using LISTENING by simp
  then have "listen_outcome this a w \<lparr>success = False, message = m\<rparr> w" for m
    using assms LISTENING unfolding listen_outcome_def by (intro conjI exI [of _ "listening_socket a"]) simp_all
  with LISTENING assms(3) show thesis by (intro that) (simp_all add: acceptor_listen_def)
next
  case NOT_LISTENING
  show thesis
  proof (cases resolved)
    case (Inl st)
    have "a\<lparr>listening_socket := listening_socket a, acc_status := acc_status a\<rparr> = a" by simp
    then have "listen_outcome this a w (failure m address port y) (w\<lparr>env := x1\<rparr>)" for m y
      using assms unfolding listen_outcome_def
      by (intro conjI exI [of _ "listening_socket a"]) (simp_all add: failure_def get_acceptor_def)
    with Inl NOT_LISTENING assms(3,4) show thesis by (intro that) (simp_all add: acceptor_listen_def)
  next
    case (Inr addr)
    have inv: "sq_inv (w\<lparr>env := x1\<rparr>)" "pool_inv (acceptors (w\<lparr>env := x1\<rparr>))" "get_acceptor this (w\<lparr>env := x1\<rparr>) = Inr a"
      using assms(1-3) by (simp_all add: get_acceptor_def)
    have ip: "ip_version addr \<noteq> None" by (cases addr) simp_all
    obtain st w' where "acceptor_open X DP this a address port addr (w\<lparr>env := x1\<rparr>) = Inr (st, w')" "listen_outcome this a w st w'"
      using acceptor_open_outcome [OF inv NOT_LISTENING, where X = X and DP = DP and address = address and port = port and resolved = addr]
      by (auto simp del: sq_inv_env)
    with Inr NOT_LISTENING assms(3,4) ip show thesis by (intro that) (simp_all add: acceptor_listen_def)
  qed
qed

section \<open>Accepted connections\<close>

lemma new_Connection_spec:
  assumes "pool_inv (subscribers w)"
  obtains p pool where "new_Connection (FileDescriptor_of n) w =
      Inr (\<lparr>conn_socket = FileDescriptor_of n, conn_endpoint = Endpoint n, conn_subscriber = p\<rparr>, no_FileDescriptor, w\<lparr>subscribers := pool\<rparr>)"
    "pool_inv pool" "p \<noteq> nullptr" "block_size (subscribers w) p = None"
    "contents pool = (contents (subscribers w))(p \<mapsto> new_EventHandler)"
proof -
  obtain p pool where "new_Subscriber w = Inr (p, w\<lparr>subscribers := pool\<rparr>)" "pool_inv pool" "p \<noteq> nullptr"
      "block_size (subscribers w) p = None" "contents pool = (contents (subscribers w))(p \<mapsto> new_EventHandler)"
    by (rule new_Subscriber_spec [OF assms])
  then show thesis
    by (intro that) (simp_all add: new_Connection_def fd_move_def FileDescriptor_of_def no_FileDescriptor_def)
qed

lemma delete_nothing [simp]: "delete_FileDescriptor X no_FileDescriptor x = x"
  by (simp add: delete_FileDescriptor_def no_FileDescriptor_def INVALID_def)

section \<open>A program to run the theorems on\<close>

text \<open>One acceptor, at address 3, with the subscriber of \<open>sample_loop\<close> at address 7.\<close>

definition sample_acceptor :: Acceptor where
  "sample_acceptor = \<lparr>acc_subscriber = 7, acc_status = NOT_LISTENING, max_connections = 10, listening_socket = no_FileDescriptor\<rparr>"

definition sample_net :: "(ref_env, nat) net_world" where
  "sample_net = \<lparr>env = ref_init, request_pool = empty_pool, pending_requests = no_pending, buffer_ring = 1,
     ring_buffers = sample_buffers, should_continue = True, error_handler = new_ErrorHandler,
     subscribers = \<lparr>blocks = [(7, 200, Some \<lparr>handlers = (\<lambda>_. Some (UserEvent 0)), mutex_held = False\<rparr>)], free_blocks = [], pool_brk = 207\<rparr>,
     cerr = [], acceptors = \<lparr>blocks = [(3, 40, Some sample_acceptor)], free_blocks = [], pool_brk = 43\<rparr>,
     connectors = empty_pool\<rparr>"

lemma sample_net_facts:
  "sq_inv sample_net" "pool_inv (acceptors sample_net)" "get_acceptor 3 sample_net = Inr sample_acceptor"
  "pool_inv (subscribers sample_net)"
  by (simp_all add: sample_net_def sq_inv_def typed_pool_def entries_ok_def contents_def empty_pool_def pool_inv_def
      live_def freed_def get_acceptor_def deref_def)

section \<open>Properties of acceptors\<close>

text \<open>C21. Whenever the resolver answers, \<open>listen\<close> returns, and either reports success from an acceptor that
  was not listening, which then is, with exactly one accept request for its socket and its subscriber
  waiting, or reports a failure, with nothing queued and the status unchanged. In particular a listening
  acceptor refuses to listen again and never stops listening.\<close>

theorem listen_succeeds_or_changes_nothing:
  assumes "sq_inv w" "pool_inv (acceptors w)" "get_acceptor this w = Inr a"
    "resolve X address port DP True (env w) = Inr (resolved, x1)"
  shows "\<exists>st w'. acceptor_listen X DP this address port w = Inr (st, w') \<and> listen_outcome this a w st w'"
  by (rule acceptor_listen_outcome [OF assms]) blast

theorem listen_succeeds_or_changes_nothing_witness:
  "\<exists>st w'. acceptor_listen (ref_sys 4) SOCK_STREAM 3 ''::1'' 8080 sample_net = Inr (st, w') \<and>
     listen_outcome 3 sample_acceptor sample_net st w'"
proof -
  have "resolve (ref_sys 4) ''::1'' 8080 SOCK_STREAM True (env sample_net) =
      Inr (Inr (sockaddr_in (replicate 16 0)), ref_init)"
    by (simp add: resolve_def ref_sys_def copy_address_def sizeof_sockaddr_in_def sample_net_def Let_def)
  with listen_succeeds_or_changes_nothing [OF sample_net_facts(1-3)] show ?thesis by blast
qed

text \<open>When every socket call reports no error, \<open>listen\<close> succeeds.\<close>

lemma listen_success:
  assumes "sq_inv w" "pool_inv (acceptors w)" "get_acceptor this w = Inr a" "acc_status a = NOT_LISTENING"
    "resolve X address port DP True (env w) = Inr (Inr addr, x1)"
    "sys_socket X (the (ip_version addr)) DP 0 x1 = (raw, x2)"
    "assign_raw_socket X (listening_socket a) raw x2 = (sock, x3)"
    "set_option X sock SO_REUSEADDR True x3 = (s4, x4)" "status_ok s4"
    "sock_bind X sock addr x4 = (s5, x5)" "status_ok s5"
    "sock_listen X sock (max_connections a) x5 = (s6, x6)" "status_ok s6"
  shows "\<exists>w'. acceptor_listen X DP this address port w =
      Inr (\<lparr>success = True, message = ''Pending connection requests''\<rparr>, w') \<and> env w' = x6 \<and>
    (\<exists>a'. get_acceptor this w' = Inr a' \<and> acc_status a' = LISTENING \<and> raw_fd (listening_socket a') = raw)"
proof -
  have null: "this \<noteq> nullptr" using assms(3) by (auto simp: get_acceptor_def deref_contents)
  have raw: "raw_fd sock = raw"
    using assms(7) by (auto simp: assign_raw_socket_def fd_move_assign_def FileDescriptor_of_def)
  obtain pool where pool: "put_acceptor this (a\<lparr>listening_socket := sock\<rparr>) (w\<lparr>env := x3\<rparr>) = Inr (w\<lparr>env := x3, acceptors := pool\<rparr>)"
      "pool_inv pool" "contents pool = (contents (acceptors w))(this \<mapsto> a\<lparr>listening_socket := sock\<rparr>)"
    using acceptor_cell [of "w\<lparr>env := x3\<rparr>" this a "a\<lparr>listening_socket := sock\<rparr>"] assms(2,3)
    by (auto simp: get_acceptor_def)
  let ?w6 = "w\<lparr>acceptors := pool, env := x6\<rparr>" and ?r = "AcceptR (new_AcceptRequest\<lparr>listening_socket_fd := raw_fd sock\<rparr>)"
  have inv: "sq_inv ?w6" using assms(1) by simp
  obtain w4 where add: "loop_add ?r (acc_subscriber a) ?w6 = Inr (OK, w4)"
    by (rule loop_add_spec [OF inv AcceptR_wf [of "raw_fd sock"], of "acc_subscriber a"]) (rule that)
  obtain w5 where w5: "put_acceptor this (a\<lparr>listening_socket := sock, acc_status := LISTENING\<rparr>) w4 = Inr w5"
      "listen_outcome this a w \<lparr>success = True, message = ''Pending connection requests''\<rparr> w5"
    using listen_outcome_success [OF assms(1) pool(2,3) null assms(4) add] by metis
  have ip: "ip_version addr \<noteq> None" by (cases addr) simp_all
  have "acceptor_listen X DP this address port w = Inr (\<lparr>success = True, message = ''Pending connection requests''\<rparr>, w5)"
    using assms(3-13) ip add w5(1) pool(1) by (simp add: acceptor_listen_def acceptor_open_def)
  moreover have "env w5 = x6" using w5(1) loop_add_env [OF add] by (auto simp: put_acceptor_def res_simps)
  moreover have "get_acceptor this w5 = Inr (a\<lparr>listening_socket := sock, acc_status := LISTENING\<rparr>)"
    using w5(1) by (auto simp: put_acceptor_def get_acceptor_def res_simps store_def deref_def map_of_assign
        split: if_splits option.splits)
  ultimately show ?thesis using raw by auto
qed

text \<open>The status of a socket call is \<open>errno\<close> and not what the call returned: if an earlier error is
  still in \<open>errno\<close> when \<open>setsockopt\<close> succeeds, \<open>listen\<close> gives up and reports that error as the failure of
  \<open>setsockopt\<close>.\<close>

lemma stale_errno_blocks_listen:
  assumes "pool_inv (acceptors w)" "get_acceptor this w = Inr a" "acc_status a = NOT_LISTENING"
    "resolve X address port DP True (env w) = Inr (Inr addr, x1)"
    "sys_socket X (the (ip_version addr)) DP 0 x1 = (raw, x2)"
    "assign_raw_socket X (listening_socket a) raw x2 = (sock, x3)"
    "sys_setsockopt X (raw_fd sock) SOL_SOCKET SO_REUSEADDR 1 x3 = (0, x4)" "sys_errno X x4 \<noteq> 0"
  shows "\<exists>w'. acceptor_listen X DP this address port w =
    Inr (\<lparr>success = False, message = ''Error setting SO_REUSEADDR option to socket '' @ address @ '':'' @ show_nat (unat port) @
           '': '' @ sys_strerror X (sys_errno X x4)\<rparr>, w')"
proof -
  obtain pool where pool: "put_acceptor this (a\<lparr>listening_socket := sock\<rparr>) (w\<lparr>env := x3\<rparr>) = Inr (w\<lparr>env := x3, acceptors := pool\<rparr>)"
    using acceptor_cell [of "w\<lparr>env := x3\<rparr>" this a "a\<lparr>listening_socket := sock\<rparr>"] assms(1,2) by (auto simp: get_acceptor_def)
  have "ip_version addr \<noteq> None" by (cases addr) simp_all
  with assms(2-8) pool show ?thesis
    by (simp add: acceptor_listen_def acceptor_open_def set_option_def FileDescriptorStatus_of_def status_ok_def STATUS_SUCCESS_def
        status_what_def failure_def address_text_def)
qed

text \<open>C38. An acceptor never gets to listen on an IPv6 address: the length handed to \<open>bind\<close> with it is that
  of an IPv4 address, which the kernel refuses.\<close>

theorem ipv6_listen_fails:
  assumes "sq_inv w" "pool_inv (acceptors w)" "get_acceptor this w = Inr a"
    "resolve X address port DP True (env w) = Inr (Inr (sockaddr_in6 b), x1)"
    "sockaddr_family b = AF_INET6" "inet6_bind_needs_full_address X"
  shows "\<exists>st w'. acceptor_listen X DP this address port w = Inr (st, w') \<and> \<not> success st"
proof -
  obtain st w' where out: "acceptor_listen X DP this address port w = Inr (st, w')"
    by (rule acceptor_listen_outcome [OF assms(1-4)])
  have bind: "\<not> status_ok (fst (sock_bind X sock (sockaddr_in6 b) x))" for sock x
  proof (cases "sys_bind X (raw_fd sock) b sizeof_sockaddr_in x")
    case (Pair rc x')
    moreover have "sizeof_sockaddr_in < 24" by (simp add: sizeof_sockaddr_in_def)
    ultimately have "sys_errno X x' \<noteq> 0"
      using assms(5,6) unfolding inet6_bind_needs_full_address_def by blast
    with Pair show ?thesis
      by (simp add: sock_bind_def FileDescriptorStatus_of_def status_ok_def STATUS_SUCCESS_def)
  qed
  have "\<not> success st"
  proof (cases "acc_status a")
    case LISTENING
    with out assms(3) show ?thesis by (auto simp: acceptor_listen_def)
  next
    case NOT_LISTENING
    with out assms(3,4) have "acceptor_open X DP this a address port (sockaddr_in6 b) (w\<lparr>env := x1\<rparr>) = Inr (st, w')"
      by (simp add: acceptor_listen_def)
    with bind show ?thesis by (rule acceptor_open_bind_fails)
  qed
  with out show ?thesis by blast
qed

theorem ipv6_listen_fails_witness:
  "\<exists>st w'. acceptor_listen (ref6_sys 4) SOCK_STREAM 3 ''::1'' 8080 sample_net = Inr (st, w') \<and> \<not> success st"
proof -
  have "resolve (ref6_sys 4) ''::1'' 8080 SOCK_STREAM True (env sample_net) = Inr (Inr (sockaddr_in6 ref_addr6), ref_init)"
    by (simp add: resolve_def ref6_sys_def copy_address_def sizeof_sockaddr_in6_def sample_net_def Let_def ref_addr6_def
        AF_INET6_def AF_INET_def)
  from ipv6_listen_fails [OF sample_net_facts(1-3) this ref_addr6_family ref6_bind] show ?thesis .
qed

text \<open>A new connection belongs to exactly one owner: it reaches the callback with the accepted
  descriptor and a fresh subscriber; if the callback moves it away nothing is destroyed afterwards, and
  if the callback leaves it, it is destroyed on return.\<close>

lemma accepted_connection_owned_once:
  assumes "get_acceptor this w = Inr a" "pool_inv (subscribers w)"
    "\<And>c w1. ucon moves c w1 = Inr (snd (move_Connection c), g c w1)"
    "\<And>c w1. ucon leaves c w1 = Inr (c, w1)"
  shows "\<exists>c w1. new_Connection (FileDescriptor_of n) w = Inr (c, no_FileDescriptor, w1) \<and>
     conn_socket c = FileDescriptor_of n \<and> get_subscriber (conn_subscriber c) w1 = Inr new_EventHandler \<and>
     block_size (subscribers w) (conn_subscriber c) = None \<and>
     accept_then X ucon this moves n w = Inr (g c w1) \<and>
     accept_then X ucon this leaves n w = delete_Connection X c w1"
proof -
  obtain p pool where new: "new_Connection (FileDescriptor_of n) w =
      Inr (\<lparr>conn_socket = FileDescriptor_of n, conn_endpoint = Endpoint n, conn_subscriber = p\<rparr>, no_FileDescriptor, w\<lparr>subscribers := pool\<rparr>)"
    "p \<noteq> nullptr" "block_size (subscribers w) p = None" "contents pool = (contents (subscribers w))(p \<mapsto> new_EventHandler)"
    by (rule new_Connection_spec [OF assms(2)])
  have "get_subscriber p (w\<lparr>subscribers := pool\<rparr>) = Inr new_EventHandler"
    using new(2,4) by (simp add: get_subscriber_def deref_contents)
  with new assms show ?thesis
    by (simp add: accept_then_def delete_moved_Connection)
qed

end
