(* ===== verification/Connector.thy ===== *)
theory Connector
  imports Acceptor
begin

text \<open>
  \<open>include/ringnet/net/connector.hpp\<close>: resolve and connect. A connector is \<open>PENDING\<close> from a successful
  \<open>asyncConnect\<close> until its connect request completes; then its socket becomes a connection and it is
  \<open>CONNECTED\<close>. The theory ends with the interpreter of the library's closures, which the event loop of a
  program runs.
\<close>

section \<open>Connectors in memory\<close>

definition get_connector :: "ptr \<Rightarrow> ('x, 'u, 'z) net_world_scheme \<Rightarrow> stop + Connector" where
  "get_connector this w = deref (connectors w) this"

definition put_connector :: "ptr \<Rightarrow> Connector \<Rightarrow> ('x, 'u, 'z) net_world_scheme \<Rightarrow> stop + ('x, 'u, 'z) net_world_scheme" where
  "put_connector this k w = bindE (store this k (connectors w)) (\<lambda>pool. Inr (w\<lparr>connectors := pool\<rparr>))"

definition sizeof_Connector :: nat where "sizeof_Connector = 64"

section \<open>Operations\<close>

definition new_Connector :: "('x, 'u, 'z) net_world_scheme \<Rightarrow> stop + (ptr \<times> ('x, 'u, 'z) net_world_scheme)" where
  "new_Connector w =
     (case allocate sizeof_Connector (connectors w) of (this, pool1) \<Rightarrow>
        bindE (new_Subscriber (w\<lparr>connectors := pool1\<rparr>)) (\<lambda>(p, w1).
        bindE (put_connector this \<lparr>ctr_subscriber = p, resolved_address = Inr new_SocketAddress,
                 connection_status = DISCONNECTED, ctr_socket = no_FileDescriptor\<rparr> w1) (\<lambda>w2.
          Inr (this, w2))))"

definition delete_Connector :: "'x sys \<Rightarrow> ptr \<Rightarrow> ('x, 'u, 'z) net_world_scheme \<Rightarrow> stop + ('x, 'u, 'z) net_world_scheme" where
  "delete_Connector X this w =
     bindE (get_connector this w) (\<lambda>k.
       let w1 = (if fd_bool (ctr_socket k) then loop_cancel X (raw_fd (ctr_socket k)) w else w);
           w2 = w1\<lparr>env := delete_FileDescriptor X (ctr_socket k) (env w1)\<rparr>
       in bindE (delete_Subscriber (ctr_subscriber k) w2) (\<lambda>w3.
          bindE (deallocate sizeof_Connector this (connectors w3)) (\<lambda>pool. Inr (w3\<lparr>connectors := pool\<rparr>))))"

definition connector_onError :: "ptr \<Rightarrow> 'u \<Rightarrow> ('x, 'u, 'z) net_world_scheme \<Rightarrow> stop + ('x, 'u, 'z) net_world_scheme" where
  "connector_onError this callback w =
     bindE (get_connector this w) (\<lambda>k. subscriber_on (ctr_subscriber k) ErrorEventT (UserEvent callback) w)"

definition connector_onConnection :: "ptr \<Rightarrow> 'u \<Rightarrow> ('x, 'u, 'z) net_world_scheme \<Rightarrow> stop + ('x, 'u, 'z) net_world_scheme" where
  "connector_onConnection this user_callback w =
     bindE (get_connector this w) (\<lambda>k. subscriber_on (ctr_subscriber k) ConnectEventT (ConnectThen this user_callback) w)"

text \<open>The body of the lambda \<open>onConnection\<close> registers.\<close>

definition connect_then ::
    "'x sys \<Rightarrow> ('u \<Rightarrow> Connection \<Rightarrow> ('x, 'u, 'z) net_world_scheme \<Rightarrow> stop + (Connection \<times> ('x, 'u, 'z) net_world_scheme)) \<Rightarrow>
     ptr \<Rightarrow> 'u \<Rightarrow> ('x, 'u, 'z) net_world_scheme \<Rightarrow> stop + ('x, 'u, 'z) net_world_scheme" where
  "connect_then X ucon this user_callback w =
     bindE (get_connector this w) (\<lambda>k.
     bindE (new_Connection (ctr_socket k) w) (\<lambda>(c, left, w1).
     bindE (put_connector this (k\<lparr>ctr_socket := left\<rparr>) w1) (\<lambda>w2.
     bindE (ucon user_callback c w2) (\<lambda>(c', w3).
     bindE (delete_Connection X c' w3) (\<lambda>w4.
     bindE (get_connector this w4) (\<lambda>k'.
       put_connector this (k'\<lparr>connection_status := CONNECTED\<rparr>) w4))))))"

text \<open>
  \<open>asyncConnect\<close>. The request points into the \<open>resolved_address\<close> member, whose address is written as that
  of its connector.
\<close>

definition connector_open ::
    "'x sys \<Rightarrow> int \<Rightarrow> ptr \<Rightarrow> Connector \<Rightarrow> string \<Rightarrow> 16 word \<Rightarrow> SocketAddress \<Rightarrow> ('x, 'u, 'z) net_world_scheme \<Rightarrow>
     stop + (MessagedStatus \<times> ('x, 'u, 'z) net_world_scheme)" where
  "connector_open X DP this k address port resolved w =
     (case sys_socket X (the (ip_version resolved)) DP 0 (env w) of (raw, x2) \<Rightarrow>
      case assign_raw_socket X (ctr_socket k) raw x2 of (sock, x3) \<Rightarrow>
      bindE (put_connector this (k\<lparr>ctr_socket := sock\<rparr>) (w\<lparr>env := x3\<rparr>)) (\<lambda>w3.
      case set_option X sock SO_REUSEADDR True (env w3) of (st, x4) \<Rightarrow>
        if \<not> status_ok st then
          Inr (failure ''Error setting SO_REUSEADDR option to socket '' address port (status_what (sys_strerror X) st), w3\<lparr>env := x4\<rparr>)
        else
          bindE (loop_add (ConnectR (new_ConnectRequest\<lparr>connect_fd := raw_fd sock, connect_addr := this,
                                       connect_addrlen := snd (as_sockaddr resolved)\<rparr>)) (ctr_subscriber k) (w3\<lparr>env := x4\<rparr>)) (\<lambda>(status, w4).
            if status = QUEUE_FULL then Inr (\<lparr>success = False, message = ''Request queue is full''\<rparr>, w4)
            else bindE (put_connector this (k\<lparr>ctr_socket := sock, connection_status := PENDING\<rparr>) w4) (\<lambda>w5.
              Inr (\<lparr>success = True, message = ''Pending connection''\<rparr>, w5)))))"

definition asyncConnect ::
    "'x sys \<Rightarrow> int \<Rightarrow> ptr \<Rightarrow> string \<Rightarrow> 16 word \<Rightarrow> ('x, 'u, 'z) net_world_scheme \<Rightarrow>
     stop + (MessagedStatus \<times> ('x, 'u, 'z) net_world_scheme)" where
  "asyncConnect X DP this server_address server_port w =
     bindE (get_connector this w) (\<lambda>k.
       if connection_status k = PENDING then Inr (\<lparr>success = False, message = ''Already pending connection''\<rparr>, w)
       else bindE (resolve X server_address server_port DP True (env w)) (\<lambda>(resolved, x1).
         bindE (put_connector this (k\<lparr>resolved_address := resolved\<rparr>) (w\<lparr>env := x1\<rparr>)) (\<lambda>w1.
         case resolved of
           Inl st \<Rightarrow> Inr (failure ''Error resolving address '' server_address server_port
                            (status_what (sys_gai_strerror X) st), w1)
         | Inr address \<Rightarrow>
             bindE (assertE (ip_version address \<noteq> None) ''resolved_address->ip_version().has_value()'') (\<lambda>_.
               connector_open X DP this (k\<lparr>resolved_address := resolved\<rparr>) server_address server_port address w1))))"

section \<open>The closures of the library\<close>

text \<open>
  \<open>uev\<close> runs a callback of the program on an event and \<open>ucon\<close> on a connection. The types of the handler
  tuple keep every other combination of closure and event from arising.
\<close>

fun run_closure ::
    "'x sys \<Rightarrow> ('u \<Rightarrow> event \<Rightarrow> ('x, 'u, 'z) net_world_scheme \<Rightarrow> stop + ('x, 'u, 'z) net_world_scheme) \<Rightarrow>
     ('u \<Rightarrow> Connection \<Rightarrow> ('x, 'u, 'z) net_world_scheme \<Rightarrow> stop + (Connection \<times> ('x, 'u, 'z) net_world_scheme)) \<Rightarrow>
     'u closure \<Rightarrow> event \<Rightarrow> ('x, 'u, 'z) net_world_scheme \<Rightarrow> stop + ('x, 'u, 'z) net_world_scheme" where
  "run_closure X uev ucon (UserEvent u) e w = uev u e w"
| "run_closure X uev ucon (AcceptThen this u) (AcceptEvent client_fd) w = accept_then X ucon this u client_fd w"
| "run_closure X uev ucon (ConnectThen this u) ConnectEvent w = connect_then X ucon this u w"
| "run_closure X uev ucon _ _ w = Inl (BadCast nullptr)"

section \<open>The cell of a connector\<close>

interpretation connector_heap: object_heap connectors "\<lambda>q w. w\<lparr>connectors := q\<rparr>"
  by unfold_locales simp_all

lemma connector_access:
  "get_connector p = (\<lambda>w. deref (connectors w) p)"
  "put_connector p = (\<lambda>k w. bindE (store p k (connectors w)) (\<lambda>q. Inr (w\<lparr>connectors := q\<rparr>)))"
  by (simp_all add: fun_eq_iff get_connector_def put_connector_def)

interpretation ctr: memory_cell "get_connector p" "put_connector p" "\<lambda>w. pool_inv (connectors w)" for p
  unfolding connector_access by (rule connector_heap.object_at)

text \<open>A write to the cell touches nothing else.\<close>

lemma put_connector_frame: "put_connector p k w = Inr w' \<Longrightarrow> \<exists>pool. w' = w\<lparr>connectors := pool\<rparr>"
  by (auto simp: put_connector_def res_simps)

lemma get_connector_env [simp]: "get_connector p (w\<lparr>env := x\<rparr>) = get_connector p w"
  by (simp add: get_connector_def)

lemma put_connector_step:
  assumes "pool_inv (connectors w)" "get_connector p w = Inr k"
  obtains pool where "put_connector p k' w = Inr (w\<lparr>connectors := pool\<rparr>)" "pool_inv pool"
    "get_connector p (w\<lparr>connectors := pool\<rparr>) = Inr k'"
  using ctr.put_total [OF assms, of k'] put_connector_frame [of p k' w] that by fastforce

lemma sq_inv_connectors [simp]: "sq_inv (w\<lparr>connectors := pool\<rparr>) = sq_inv w"
  for w :: "('x, 'u, 'z) net_world_scheme"
  by (simp add: sq_inv_def)

lemma ConnectR_wf: "wf_request (ConnectR (new_ConnectRequest\<lparr>connect_fd := n, connect_addr := p, connect_addrlen := l\<rparr>))"
  by (simp add: wf_request_def new_ConnectRequest_def)

section \<open>What asyncConnect promises\<close>

definition connect_outcome ::
    "ptr \<Rightarrow> Connector \<Rightarrow> ('x, 'u, 'z) net_world_scheme \<Rightarrow> MessagedStatus \<Rightarrow> ('x, 'u, 'z) net_world_scheme \<Rightarrow> bool" where
  "connect_outcome this k w st w' \<longleftrightarrow>
     sq_inv w' \<and> pool_inv (connectors w') \<and> subscribers w' = subscribers w \<and>
     (\<exists>k'. get_connector this w' = Inr k' \<and> ctr_subscriber k' = ctr_subscriber k \<and>
        (if success st then
           connection_status k \<noteq> PENDING \<and> connection_status k' = PENDING \<and>
           (\<exists>p address. resolved_address k' = Inr address \<and> block_size (request_pool w) p = None \<and>
              deref (request_pool w') p = Inr (set_user_data (ctr_subscriber k)
                (ConnectR (new_ConnectRequest\<lparr>connect_fd := raw_fd (ctr_socket k'), connect_addr := this,
                             connect_addrlen := snd (as_sockaddr address)\<rparr>))) \<and>
              pending_requests w' = pending_push CONNECT p (pending_requests w))
         else connection_status k' = connection_status k \<and>
           request_pool w' = request_pool w \<and> pending_requests w' = pending_requests w))"

lemma connector_open_outcome:
  assumes "sq_inv w" "pool_inv (connectors w)" "get_connector this w = Inr k" "connection_status k \<noteq> PENDING"
    "resolved_address k = Inr address"
  obtains st w' where "connector_open X DP this k host port address w = Inr (st, w')" "connect_outcome this k w st w'"
proof -
  obtain raw x2 where 2: "sys_socket X (the (ip_version address)) DP 0 (env w) = (raw, x2)"
    by (cases "sys_socket X (the (ip_version address)) DP 0 (env w)")
  obtain sock x3 where 3: "assign_raw_socket X (ctr_socket k) raw x2 = (sock, x3)"
    by (cases "assign_raw_socket X (ctr_socket k) raw x2")
  have cell: "pool_inv (connectors (w\<lparr>env := x3\<rparr>))" "get_connector this (w\<lparr>env := x3\<rparr>) = Inr k"
    using assms(2,3) by simp_all
  obtain pool where pool: "put_connector this (k\<lparr>ctr_socket := sock\<rparr>) (w\<lparr>env := x3\<rparr>) = Inr (w\<lparr>env := x3, connectors := pool\<rparr>)"
      "pool_inv pool" "get_connector this (w\<lparr>env := x3, connectors := pool\<rparr>) = Inr (k\<lparr>ctr_socket := sock\<rparr>)"
    by (rule put_connector_step [OF cell])
  obtain s4 x4 where 4: "set_option X sock SO_REUSEADDR True x3 = (s4, x4)" by (cases "set_option X sock SO_REUSEADDR True x3")
  let ?w4 = "w\<lparr>connectors := pool, env := x4\<rparr>"
  have got: "get_connector this ?w4 = Inr (k\<lparr>ctr_socket := sock\<rparr>)" using pool(3) by (simp add: get_connector_def)
  have inv: "sq_inv ?w4" using assms(1) by simp
  show thesis
  proof (cases "status_ok s4")
    case False
    have "connect_outcome this k w (failure m host port y) ?w4" for m y
      using inv pool(2) got by (simp add: connect_outcome_def failure_def)
    with False 2 3 4 pool(1) show thesis by (intro that) (simp_all add: connector_open_def)
  next
    case True
    let ?r = "ConnectR (new_ConnectRequest\<lparr>connect_fd := raw_fd sock, connect_addr := this, connect_addrlen := snd (as_sockaddr address)\<rparr>)"
    obtain p rp where add: "loop_add ?r (ctr_subscriber k) ?w4 =
          Inr (OK, ?w4\<lparr>request_pool := rp, pending_requests := pending_push (kind ?r) p (pending_requests ?w4)\<rparr>)"
        "p \<noteq> nullptr" "block_size (request_pool ?w4) p = None"
        "contents rp = (contents (request_pool ?w4))(p \<mapsto> added_request ?r (ctr_subscriber k))"
        "sq_inv (?w4\<lparr>request_pool := rp, pending_requests := pending_push (kind ?r) p (pending_requests ?w4)\<rparr>)"
      by (rule loop_add_spec [OF inv ConnectR_wf])
    let ?w5 = "?w4\<lparr>request_pool := rp, pending_requests := pending_push CONNECT p (pending_requests w)\<rparr>"
    have cell5: "pool_inv (connectors ?w5)" "get_connector this ?w5 = Inr (k\<lparr>ctr_socket := sock\<rparr>)"
      using pool(2) got by (simp_all add: get_connector_def)
    obtain pool6 where pool6: "put_connector this (k\<lparr>ctr_socket := sock, connection_status := PENDING\<rparr>) ?w5 = Inr (?w5\<lparr>connectors := pool6\<rparr>)"
        "pool_inv pool6" "get_connector this (?w5\<lparr>connectors := pool6\<rparr>) = Inr (k\<lparr>ctr_socket := sock, connection_status := PENDING\<rparr>)"
      by (rule put_connector_step [OF cell5])
    have inv5: "sq_inv (?w5\<lparr>connectors := pool6\<rparr>)" using add(5) by (simp add: sq_inv_def)
    have "deref rp p = Inr (set_user_data (ctr_subscriber k) ?r)"
      using add(2,4) by (simp add: deref_contents added_request_def)
    then have "connect_outcome this k w \<lparr>success = True, message = m\<rparr> (?w5\<lparr>connectors := pool6\<rparr>)" for m
      using add(3) inv5 pool6(2,3) assms(4,5) by (auto simp: connect_outcome_def intro!: exI [of _ p])
    with True 2 3 4 pool(1) add(1) pool6(1) show thesis by (intro that) (simp_all add: connector_open_def)
  qed
qed

lemma connect_outcome_start:
  "connect_outcome this (k\<lparr>resolved_address := a\<rparr>) (w\<lparr>env := x, connectors := pool\<rparr>) st w' = connect_outcome this k w st w'"
  by (simp add: connect_outcome_def)

lemma asyncConnect_outcome:
  assumes "sq_inv w" "pool_inv (connectors w)" "get_connector this w = Inr k"
    "resolve X host port DP True (env w) = Inr (resolved, x1)"
  obtains st w' where "asyncConnect X DP this host port w = Inr (st, w')" "connect_outcome this k w st w'"
proof (cases "connection_status k = PENDING")
  case True
  have "connect_outcome this k w \<lparr>success = False, message = m\<rparr> w" for m
    using assms by (simp add: connect_outcome_def)
  with True assms(3) show thesis by (intro that) (simp_all add: asyncConnect_def)
next
  case False
  let ?k = "k\<lparr>resolved_address := resolved\<rparr>"
  have cell: "pool_inv (connectors (w\<lparr>env := x1\<rparr>))" "get_connector this (w\<lparr>env := x1\<rparr>) = Inr k"
    using assms(2,3) by simp_all
  obtain pool where pool: "put_connector this ?k (w\<lparr>env := x1\<rparr>) = Inr (w\<lparr>env := x1, connectors := pool\<rparr>)"
      "pool_inv pool" "get_connector this (w\<lparr>env := x1, connectors := pool\<rparr>) = Inr ?k"
    by (rule put_connector_step [OF cell])
  let ?w1 = "w\<lparr>env := x1, connectors := pool\<rparr>"
  have inv: "sq_inv ?w1" "pool_inv (connectors ?w1)" using assms(1) pool(2) by simp_all
  note start = asyncConnect_def assms(3,4)
  show thesis
  proof (cases resolved)
    case (Inl st)
    have "connect_outcome this k w (failure m host port y) ?w1" for m y
      using inv pool(3) by (simp add: connect_outcome_def failure_def)
    with Inl False pool(1) show thesis by (intro that) (simp_all add: start)
  next
    case (Inr address)
    have st: "connection_status ?k \<noteq> PENDING" "resolved_address ?k = Inr address" using False Inr by simp_all
    obtain st w' where "connector_open X DP this ?k host port address ?w1 = Inr (st, w')" "connect_outcome this ?k ?w1 st w'"
      by (rule connector_open_outcome [OF inv pool(3) st])
    moreover have "ip_version address \<noteq> None" by (cases address) simp_all
    ultimately show thesis using Inr False pool(1) by (intro that) (simp_all add: start connect_outcome_start)
  qed
qed

section \<open>Callbacks that leave the connectors alone\<close>

lemma put_subscriber_connectors: "put_subscriber p h w = Inr w' \<Longrightarrow> connectors w' = connectors w"
  for w :: "('x, 'u, 'z) net_world_scheme"
  by (auto simp: put_subscriber_def res_simps)

lemma handle_keeps_connectors:
  fixes w :: "('x, 'u, 'z) net_world_scheme"
  assumes "subscriber_handle cb p e w = Inr w'"
    "\<And>f u u'. handlers h (type_of e) = Some f \<Longrightarrow> cb f e u = Inr u' \<Longrightarrow> connectors u' = connectors u"
    "get_subscriber p w = Inr h"
  shows "connectors w' = connectors w"
proof -
  obtain w1 w2 h2 where 1: "put_subscriber p (h\<lparr>mutex_held := True\<rparr>) w = Inr w1"
      "(case handlers h (type_of e) of None \<Rightarrow> Inr w1 | Some f \<Rightarrow> cb f e w1) = Inr w2"
      "put_subscriber p h2 w2 = Inr w'"
    using assms(1,3) by (auto simp: subscriber_handle_def handle_def lock_def res_simps split: if_splits)
  then have "connectors w2 = connectors w1" using assms(2) by (auto split: option.splits)
  with 1 show ?thesis by (metis put_subscriber_connectors)
qed

section \<open>A program to run the theorems on\<close>

definition sample_connector :: Connector where
  "sample_connector = \<lparr>ctr_subscriber = 7, resolved_address = Inr new_SocketAddress, connection_status = DISCONNECTED,
     ctr_socket = FileDescriptor_of 5\<rparr>"

definition sample_client :: "(ref_env, nat) net_world" where
  "sample_client = sample_net\<lparr>connectors := \<lparr>blocks = [(3, 64, Some sample_connector)], free_blocks = [], pool_brk = 67\<rparr>\<rparr>"

lemma sample_client_facts:
  "sq_inv sample_client" "pool_inv (connectors sample_client)" "get_connector 3 sample_client = Inr sample_connector"
  "pool_inv (subscribers sample_client)"
  using sample_net_facts
  by (simp_all add: sample_client_def pool_inv_def live_def freed_def get_connector_def deref_def)

section \<open>Properties of connectors\<close>

text \<open>C22. Whenever the resolver answers, \<open>asyncConnect\<close> returns, and either reports success from a
  connector that was not pending, which then is, with exactly one connect request for its socket,
  pointing at the address it keeps, waiting to be submitted; or reports a failure, with nothing queued
  and the status unchanged.\<close>

theorem asyncConnect_succeeds_or_changes_nothing:
  assumes "sq_inv w" "pool_inv (connectors w)" "get_connector this w = Inr k"
    "resolve X host port DP True (env w) = Inr (resolved, x1)"
  shows "\<exists>st w'. asyncConnect X DP this host port w = Inr (st, w') \<and> connect_outcome this k w st w'"
  by (rule asyncConnect_outcome [OF assms]) blast

theorem asyncConnect_succeeds_or_changes_nothing_witness:
  "\<exists>st w'. asyncConnect (ref_sys 4) SOCK_STREAM 3 ''localhost'' 8080 sample_client = Inr (st, w') \<and>
     connect_outcome 3 sample_connector sample_client st w'"
proof -
  have "resolve (ref_sys 4) ''localhost'' 8080 SOCK_STREAM True (env sample_client) =
      Inr (Inr (sockaddr_in (replicate 16 0)), ref_init)"
    by (simp add: resolve_def ref_sys_def copy_address_def sizeof_sockaddr_in_def sample_client_def sample_net_def Let_def)
  with asyncConnect_succeeds_or_changes_nothing [OF sample_client_facts(1-3)] show ?thesis by blast
qed

text \<open>When the connection is established the connector's socket, and no other, becomes the connection
  the callback is given, with a fresh subscriber; the connector keeps no descriptor and is \<open>CONNECTED\<close>
  after the callback.\<close>

lemma connection_established:
  assumes "pool_inv (connectors w)" "pool_inv (subscribers w)" "get_connector this w = Inr k" "ctr_socket k = FileDescriptor_of n"
    "\<And>c u. ucon f c u = Inr (snd (move_Connection c), g c u)"
    "\<And>c u. connectors (g c u) = connectors u"
  shows "\<exists>p w2. block_size (subscribers w) p = None \<and>
     get_connector this w2 = Inr (k\<lparr>ctr_socket := no_FileDescriptor\<rparr>) \<and>
     (\<exists>w'. connect_then X ucon this f w = Inr w' \<and>
        w' = (g \<lparr>conn_socket = FileDescriptor_of n, conn_endpoint = Endpoint n, conn_subscriber = p\<rparr> w2)\<lparr>connectors := connectors w'\<rparr> \<and>
        get_connector this w' = Inr (k\<lparr>ctr_socket := no_FileDescriptor, connection_status := CONNECTED\<rparr>))"
proof -
  obtain p pool where new: "new_Connection (FileDescriptor_of n) w =
      Inr (\<lparr>conn_socket = FileDescriptor_of n, conn_endpoint = Endpoint n, conn_subscriber = p\<rparr>, no_FileDescriptor, w\<lparr>subscribers := pool\<rparr>)"
      "block_size (subscribers w) p = None"
    by (rule new_Connection_spec [OF assms(2)])
  let ?c = "\<lparr>conn_socket = FileDescriptor_of n, conn_endpoint = Endpoint n, conn_subscriber = p\<rparr>"
  have cell: "pool_inv (connectors (w\<lparr>subscribers := pool\<rparr>))" "get_connector this (w\<lparr>subscribers := pool\<rparr>) = Inr k"
    using assms(1,3) by (simp_all add: get_connector_def)
  obtain kp where kp: "put_connector this (k\<lparr>ctr_socket := no_FileDescriptor\<rparr>) (w\<lparr>subscribers := pool\<rparr>) =
        Inr (w\<lparr>subscribers := pool, connectors := kp\<rparr>)" "pool_inv kp"
      "get_connector this (w\<lparr>subscribers := pool, connectors := kp\<rparr>) = Inr (k\<lparr>ctr_socket := no_FileDescriptor\<rparr>)"
    by (rule put_connector_step [OF cell])
  let ?w2 = "w\<lparr>subscribers := pool, connectors := kp\<rparr>"
  have cell3: "pool_inv (connectors (g ?c ?w2))" "get_connector this (g ?c ?w2) = Inr (k\<lparr>ctr_socket := no_FileDescriptor\<rparr>)"
    using kp(2,3) assms(6) [of ?c ?w2] by (simp_all add: get_connector_def)
  obtain kq where kq: "put_connector this (k\<lparr>ctr_socket := no_FileDescriptor, connection_status := CONNECTED\<rparr>) (g ?c ?w2) =
        Inr ((g ?c ?w2)\<lparr>connectors := kq\<rparr>)"
      "get_connector this ((g ?c ?w2)\<lparr>connectors := kq\<rparr>) = Inr (k\<lparr>ctr_socket := no_FileDescriptor, connection_status := CONNECTED\<rparr>)"
    by (rule put_connector_step [OF cell3])
  have "connect_then X ucon this f w = Inr ((g ?c ?w2)\<lparr>connectors := kq\<rparr>)"
    using assms(3-5) new(1) kp(1) cell3(2) kq(1) by (simp add: connect_then_def delete_moved_Connection)
  with new(2) kp(3) kq(2) show ?thesis by (intro exI [of _ p] exI [of _ ?w2]) simp
qed

text \<open>A connector whose connection attempt fails stays \<open>PENDING\<close>: the error is handed to the error
  callback, which has no way to reset the status, and every later \<open>asyncConnect\<close> is refused.\<close>

lemma failed_connect_stays_pending:
  assumes "get_connector this w = Inr k" "connection_status k = PENDING"
    "deref (request_pool w) (cqe_user_data e) = Inr r" "wf_request r" "user_data (header r) = ctr_subscriber k" "cqe_res e < 0"
    "get_subscriber (ctr_subscriber k) w = Inr h" "handlers h ErrorEventT = Some (UserEvent f)"
    "\<And>n u u'. uev f (ErrorEvent n) u = Inr u' \<Longrightarrow> connectors u' = connectors u"
    "on_completion X (run_closure X uev ucon) e w = Inr w'"
  shows "asyncConnect X DP this host port w' = Inr (\<lparr>success = False, message = ''Already pending connection''\<rparr>, w')"
proof -
  let ?w0 = "w\<lparr>cerr := cerr w @ ''During handling of '' @ print_request r @ newline\<rparr>"
  have sub: "get_subscriber (ctr_subscriber k) ?w0 = Inr h" using assms(7) by (simp add: get_subscriber_def)
  have "ctr_subscriber k \<noteq> nullptr" using assms(7) by (auto simp: get_subscriber_def deref_contents)
  with on_completion_error [OF assms(3,4) _ assms(6)] assms(5,10)
  have "subscriber_handle (run_closure X uev ucon) (ctr_subscriber k) (ErrorEvent (- cqe_res e)) ?w0 = Inr w'" by metis
  then have "connectors w' = connectors ?w0"
    by (rule handle_keeps_connectors [OF _ _ sub]) (use assms(8,9) in auto)
  with assms(1,2) show ?thesis by (simp add: asyncConnect_def get_connector_def)
qed

definition sample_connecting :: "(ref_env, nat) net_world" where
  "sample_connecting = sample_client\<lparr>
     connectors := \<lparr>blocks = [(3, 64, Some (sample_connector\<lparr>connection_status := PENDING\<rparr>))], free_blocks = [], pool_brk = 67\<rparr>,
     request_pool := \<lparr>blocks = [(2, 40, Some (set_user_data 7 (ConnectR (new_ConnectRequest\<lparr>connect_fd := 5, connect_addr := 3, connect_addrlen := 16\<rparr>))))],
        free_blocks = [], pool_brk = 42\<rparr>\<rparr>"

end
