(* ===== verification/Connection_Map.thy ===== *)
theory Connection_Map
  imports Connection
begin

text \<open>
  \<open>std::map<Endpoint, Connection>\<close>, the registry of the servers in \<open>app/samples/benchmarks\<close>: a list sorted
  by key, with the three operations the samples use. The elements of a \<open>std::map\<close> stay where they are,
  so a reference to one is its key, as long as it is in the map.
\<close>

type_synonym connection_map = "(Endpoint \<times> Connection) list"

definition map_find :: "Endpoint \<Rightarrow> connection_map \<Rightarrow> Connection option" where
  "map_find k m = map_of m k"

primrec map_insert :: "Endpoint \<Rightarrow> Connection \<Rightarrow> connection_map \<Rightarrow> connection_map" where
  "map_insert k c [] = [(k, c)]"
| "map_insert k c (e # m) = (if k < fst e then (k, c) # e # m else e # map_insert k c m)"

text \<open>\<open>try_emplace\<close> moves from its argument only when it inserts.\<close>

definition map_try_emplace :: "Endpoint \<Rightarrow> Connection \<Rightarrow> connection_map \<Rightarrow> bool \<times> Connection \<times> connection_map" where
  "map_try_emplace k c m =
     (case map_find k m of
        Some _ \<Rightarrow> (False, c, m)
      | None \<Rightarrow> (case move_Connection c of (own, left) \<Rightarrow> (True, left, map_insert k own m)))"

text \<open>\<open>erase\<close> takes the element out and destroys it.\<close>

definition map_remove :: "Endpoint \<Rightarrow> connection_map \<Rightarrow> connection_map" where
  "map_remove k m = filter (\<lambda>e. fst e \<noteq> k) m"

definition map_inv :: "connection_map \<Rightarrow> bool" where
  "map_inv m \<longleftrightarrow> sorted_wrt (<) (map fst m)"

section \<open>The contract of an ordered registry\<close>

text \<open>
  Insertion adds exactly one binding when the key is absent and nothing otherwise, removal takes
  exactly one out, and the keys of a traversal come in strictly increasing order.
\<close>

locale ordered_registry =
  fixes find :: "('k :: linorder) \<Rightarrow> 'm \<Rightarrow> 'v option"
    and insert :: "'k \<Rightarrow> 'v \<Rightarrow> 'm \<Rightarrow> 'm"
    and remove :: "'k \<Rightarrow> 'm \<Rightarrow> 'm"
    and traverse :: "'m \<Rightarrow> ('k \<times> 'v) list"
    and inv :: "'m \<Rightarrow> bool"
  assumes find_insert: "inv m \<Longrightarrow> find k m = None \<Longrightarrow> find j (insert k v m) = (if j = k then Some v else find j m)"
    and find_remove: "inv m \<Longrightarrow> find j (remove k m) = (if j = k then None else find j m)"
    and inv_insert: "inv m \<Longrightarrow> find k m = None \<Longrightarrow> inv (insert k v m)"
    and inv_remove: "inv m \<Longrightarrow> inv (remove k m)"
    and traverse_sorted: "inv m \<Longrightarrow> sorted_wrt (<) (map fst (traverse m))"
    and traverse_find: "inv m \<Longrightarrow> (k, v) \<in> set (traverse m) \<longleftrightarrow> find k m = Some v"
begin

lemma remove_insert:
  assumes "inv m" "find k m = None"
  shows "find j (remove k (insert k v m)) = find j m"
  using assms find_remove [OF inv_insert [OF assms]] find_insert [OF assms] by auto

lemma traverse_insert:
  assumes "inv m" "find k m = None"
  shows "set (traverse (insert k v m)) = Set.insert (k, v) (set (traverse m))"
proof -
  have "(j, u) \<in> set (traverse (insert k v m)) \<longleftrightarrow> (j, u) = (k, v) \<or> (j, u) \<in> set (traverse m)" for j u
    using traverse_find [OF inv_insert [OF assms], where k = j and v = u]
      find_insert [OF assms, of j v] traverse_find [OF assms(1), of j u] assms(2) by auto
  then show ?thesis by auto
qed

end

lemma map_insert_keys: "set (map fst (map_insert k c m)) = insert k (set (map fst m))"
  by (induction m) auto

lemma map_insert_sorted:
  assumes "sorted_wrt (<) (map fst m)" "k \<notin> set (map fst m)"
  shows "sorted_wrt (<) (map fst (map_insert k c m))"
  using assms
proof (induction m)
  case (Cons e m)
  show ?case
  proof (cases "k < fst e")
    case True
    with Cons.prems show ?thesis by (auto dest: order.strict_trans)
  next
    case False
    then have "fst e < k" using Cons.prems(2) by (metis list.set_intros(1) list.simps(9) not_less_iff_gr_or_eq)
    with False Cons map_insert_keys [of k c m] show ?thesis by auto
  qed
qed simp

lemma map_find_insert: "map_find k m = None \<Longrightarrow> map_find j (map_insert k c m) = (if j = k then Some c else map_find j m)"
  by (induction m) (auto simp: map_find_def split: if_splits)

interpretation reg: ordered_registry map_find map_insert map_remove "\<lambda>m. m" map_inv
proof
  fix m k j c v
  assume inv: "map_inv m"
  show "map_find j (map_remove k m) = (if j = k then None else map_find j m)"
    by (simp add: map_find_def map_remove_def map_of_filter_key)
  show "map_inv (map_remove k m)"
    using inv by (simp add: map_inv_def map_remove_def map_fst_filter_key sorted_wrt_filter)
  show "sorted_wrt (<) (map fst m)" using inv by (simp add: map_inv_def)
  then have "distinct (map fst m)" by (simp add: strict_sorted_iff)
  then show "(k, v) \<in> set m \<longleftrightarrow> map_find k m = Some v" by (simp add: map_find_def)
  assume absent: "map_find k m = None"
  then show "map_find j (map_insert k c m) = (if j = k then Some c else map_find j m)" by (rule map_find_insert)
  show "map_inv (map_insert k c m)"
    using inv absent map_of_None_iff_fst [of m k] by (simp add: map_inv_def map_find_def map_insert_sorted)
qed

end
