(* ===== verification/App_World.thy ===== *)
theory App_World
  imports Connector Connection_Map
begin

text \<open>
  What the programs under \<open>app/samples\<close> share: the state of the library with the standard output, the
  two output streams, and the steps a program takes on the cells of its subscribers.
\<close>

record ('x, 'u) app_world = "('x, 'u) net_world" +
  cout :: string

definition log_cout :: "string \<Rightarrow> ('x, 'u, 'z) app_world_scheme \<Rightarrow> ('x, 'u, 'z) app_world_scheme" where
  "log_cout text w = w\<lparr>cout := cout w @ text @ newline\<rparr>"

definition log_cerr :: "string \<Rightarrow> ('x, 'u, 'z) app_world_scheme \<Rightarrow> ('x, 'u, 'z) app_world_scheme" where
  "log_cerr text w = w\<lparr>cerr := cerr w @ text @ newline\<rparr>"

section \<open>Callbacks of a connection\<close>

lemma subscriber_on_frame: "subscriber_on p t f w = Inr w' \<Longrightarrow> \<exists>pool. w' = w\<lparr>subscribers := pool\<rparr>"
  by (auto simp: subscriber_on_def on_def put_subscriber_def res_simps)

lemma subscriber_on_step:
  assumes "pool_inv (subscribers w)" "get_subscriber p w = Inr h" "\<not> mutex_held h"
  obtains pool where "subscriber_on p t f w = Inr (w\<lparr>subscribers := pool\<rparr>)" "pool_inv pool"
    "get_subscriber p (w\<lparr>subscribers := pool\<rparr>) = Inr (h\<lparr>handlers := (handlers h)(t \<mapsto> f)\<rparr>)"
proof -
  obtain w' where w': "subscriber_on p t f w = Inr w'" "pool_inv (subscribers w')"
      "get_subscriber p w' = Inr (h\<lparr>handlers := (handlers h)(t \<mapsto> f)\<rparr>)"
    unfolding subscriber_on_def by (rule sub.on_registers [OF assms])
  obtain pool where "w' = w\<lparr>subscribers := pool\<rparr>" using subscriber_on_frame [OF w'(1)] by blast
  with w' show thesis using that by simp
qed

lemma put_subscriber_step:
  assumes "pool_inv (subscribers w)" "get_subscriber p w = Inr h"
  obtains pool where "put_subscriber p h' w = Inr (w\<lparr>subscribers := pool\<rparr>)" "pool_inv pool"
    "block_size pool = block_size (subscribers w)" "get_subscriber p (w\<lparr>subscribers := pool\<rparr>) = Inr h'"
proof -
  obtain pool where pool: "store p h' (subscribers w) = Inr pool" "pool_inv pool"
      "contents pool = (contents (subscribers w))(p \<mapsto> h')" "block_size pool = block_size (subscribers w)"
    using store_deref [OF assms(1)] assms(2) unfolding get_subscriber_def by metis
  have "p \<noteq> nullptr" using assms(2) by (auto simp: get_subscriber_def deref_contents)
  with pool show thesis by (intro that [of pool]) (simp_all add: put_subscriber_def get_subscriber_def deref_contents)
qed

lemma map_try_emplace_new:
  "map_find k m = None \<Longrightarrow> map_try_emplace k c m = (True, snd (move_Connection c), map_insert k c m)"
  using move_Connection_own [of c] by (cases "move_Connection c") (simp add: map_try_emplace_def)

text \<open>
  A new connection gets its error and read callbacks and asks for a multi-shot read: both servers of the
  samples do this with every client they take on.
\<close>

definition watch_connection ::
    "Connection \<Rightarrow> 'u \<Rightarrow> 'u \<Rightarrow> ('x, 'u, 'z) app_world_scheme \<Rightarrow> stop + (MessagedStatus \<times> ('x, 'u, 'z) app_world_scheme)" where
  "watch_connection c on_error on_read w =
     bindE (conn_onError c on_error w) (\<lambda>w1.
     bindE (conn_onRead c on_read w1) (\<lambda>w2. asyncRead c w2))"

definition watched :: "Connection \<Rightarrow> 'u \<Rightarrow> 'u \<Rightarrow> ('x, 'u, 'z) app_world_scheme \<Rightarrow> ('x, 'u, 'z) app_world_scheme \<Rightarrow> bool" where
  "watched c on_error on_read w w' \<longleftrightarrow>
     sq_inv w' \<and>
     (\<exists>h. get_subscriber (conn_subscriber c) w' = Inr h \<and> \<not> mutex_held h \<and>
        handlers h ErrorEventT = Some (UserEvent on_error) \<and> handlers h ReadEventT = Some (UserEvent on_read)) \<and>
     (\<exists>a. block_size (request_pool w) a = None \<and>
        deref (request_pool w') a = Inr (added_request (read_request_of c) (conn_subscriber c)) \<and>
        pending_requests w' = pending_push READ_MULTISHOT a (pending_requests w))"

lemma watch_connection_spec:
  assumes "sq_inv w" "pool_inv (subscribers w)" "get_subscriber (conn_subscriber c) w = Inr h" "\<not> mutex_held h"
  obtains w' where "watch_connection c on_error on_read w = Inr (\<lparr>success = True, message = ''Success''\<rparr>, w')"
    "watched c on_error on_read w w'"
    "w' = w\<lparr>subscribers := subscribers w', request_pool := request_pool w', pending_requests := pending_requests w'\<rparr>"
proof -
  let ?p = "conn_subscriber c"
  obtain p1 where p1: "conn_onError c on_error w = Inr (w\<lparr>subscribers := p1\<rparr>)" "pool_inv p1"
      "get_subscriber ?p (w\<lparr>subscribers := p1\<rparr>) = Inr (h\<lparr>handlers := (handlers h)(ErrorEventT \<mapsto> UserEvent on_error)\<rparr>)"
    unfolding conn_onError_def by (rule subscriber_on_step [OF assms(2-4)])
  let ?h1 = "h\<lparr>handlers := (handlers h)(ErrorEventT \<mapsto> UserEvent on_error)\<rparr>" and ?w1 = "w\<lparr>subscribers := p1\<rparr>"
  have sub1: "pool_inv (subscribers ?w1)" "\<not> mutex_held ?h1" using p1(2) assms(4) by simp_all
  obtain p2 where p2: "conn_onRead c on_read ?w1 = Inr (?w1\<lparr>subscribers := p2\<rparr>)"
      "get_subscriber ?p (?w1\<lparr>subscribers := p2\<rparr>) = Inr (?h1\<lparr>handlers := (handlers ?h1)(ReadEventT \<mapsto> UserEvent on_read)\<rparr>)"
    unfolding conn_onRead_def by (rule subscriber_on_step [OF sub1(1) p1(3) sub1(2)])
  let ?w2 = "w\<lparr>subscribers := p2\<rparr>"
  have inv2: "sq_inv ?w2" using assms(1) by (simp add: sq_inv_def)
  obtain a rp where add: "loop_add (read_request_of c) ?p ?w2 =
        Inr (OK, ?w2\<lparr>request_pool := rp, pending_requests := pending_push (kind (read_request_of c)) a (pending_requests ?w2)\<rparr>)"
      "a \<noteq> nullptr" "block_size (request_pool ?w2) a = None"
      "contents rp = (contents (request_pool ?w2))(a \<mapsto> added_request (read_request_of c) ?p)"
      "sq_inv (?w2\<lparr>request_pool := rp, pending_requests := pending_push (kind (read_request_of c)) a (pending_requests ?w2)\<rparr>)"
    by (rule loop_add_spec [OF inv2 connection_requests_wf(1)])
  let ?w3 = "?w2\<lparr>request_pool := rp, pending_requests := pending_push READ_MULTISHOT a (pending_requests w)\<rparr>"
  have "get_subscriber ?p ?w3 = Inr (?h1\<lparr>handlers := (handlers ?h1)(ReadEventT \<mapsto> UserEvent on_read)\<rparr>)"
    using p2(2) by (simp add: get_subscriber_def)
  moreover have "deref (request_pool ?w3) a = Inr (added_request (read_request_of c) ?p)"
    using add(2,4) by (simp add: deref_contents)
  ultimately have "watched c on_error on_read w ?w3"
    using add(3,5) assms(4) by (auto simp: watched_def intro!: exI [of _ a])
  moreover have "watch_connection c on_error on_read w = Inr (\<lparr>success = True, message = ''Success''\<rparr>, ?w3)"
    using p1(1) p2(1) add(1) by (simp add: watch_connection_def async_ops_eq)
  ultimately show thesis by (intro that [of ?w3]) simp_all
qed

end
