(* ===== verification/Tcp_Writer.thy ===== *)
theory Tcp_Writer
  imports App_World
begin

text \<open>
  \<open>app/samples/benchmarks/*/ringnet_impl/ringnetTcpWriterClient.*\<close>: a client that writes one packet after
  the other and prints how much it has written every 100 MB.
\<close>

section \<open>State\<close>

datatype writer_callback = Writer_error | Writer_connected | Writer_connection_error | Writer_written

text \<open>The packet is a view of its storage: its bytes never change. The countdown is an \<open>int64_t\<close>.\<close>

record 'x tcp_writer = "('x, writer_callback) app_world" +
  writer_connector :: ptr
  writer_connection :: "Connection option"
  writer_packet :: span
  remaining_bytes_before_print :: "64 word"
  written_bytes :: "64 word"

definition BYTES_PRINT_INTERVAL :: "64 word" where "BYTES_PRINT_INTERVAL = 100000000"

section \<open>Operations\<close>

text \<open>The constructor; \<open>base\<close> is where the packet of \<open>chunk_size\<close> bytes is allocated.\<close>

definition new_RingnetTcpWriterClient :: "nat \<Rightarrow> ptr \<Rightarrow> 'x tcp_writer \<Rightarrow> stop + 'x tcp_writer" where
  "new_RingnetTcpWriterClient chunk_size base w =
     bindE (new_Connector w) (\<lambda>(this, w1).
       Inr (w1\<lparr>writer_connector := this, writer_connection := None, writer_packet := \<lparr>sp_base = base, sp_len = chunk_size\<rparr>,
               remaining_bytes_before_print := BYTES_PRINT_INTERVAL, written_bytes := 0\<rparr>))"

definition writer_connect :: "'x sys \<Rightarrow> string \<Rightarrow> 16 word \<Rightarrow> 'x tcp_writer \<Rightarrow> stop + 'x tcp_writer" where
  "writer_connect X server_address server_port w =
     (let w1 = log_cout (''TcpWriter: Connecting to '' @ address_text server_address server_port @ ''...'') w in
      bindE (connector_onError (writer_connector w1) Writer_error w1) (\<lambda>w2.
      bindE (connector_onConnection (writer_connector w2) Writer_connected w2) (\<lambda>w3.
      bindE (asyncConnect X SOCK_STREAM (writer_connector w3) server_address server_port w3) (\<lambda>(status, w4).
        if \<not> success status then
          let w5 = log_cerr (''TcpWriter: Could not connect to '' @ address_text server_address server_port) w4;
              w6 = log_cerr (message status) w5
          in Inl Terminate
        else Inr w4))))"

definition writer_onConnected :: "'x tcp_writer \<Rightarrow> stop + 'x tcp_writer" where
  "writer_onConnected w =
     bindE (assertE (writer_connection w \<noteq> None) ''connection'') (\<lambda>_.
       let c = the (writer_connection w) in
       bindE (conn_onError c Writer_connection_error w) (\<lambda>w1.
       bindE (conn_onWrite c Writer_written w1) (\<lambda>w2.
       bindE (asyncWrite c (writer_packet w2) w2) (\<lambda>(_, w3). Inr w3))))"

definition writer_connected :: "Connection \<Rightarrow> 'x tcp_writer \<Rightarrow> stop + (Connection \<times> 'x tcp_writer)" where
  "writer_connected accepted_connection w =
     (let w1 = log_cout (''TcpWriter: Connected to '' @ show_int (endpoint_fd (conn_endpoint_of accepted_connection))) w in
      bindE (case writer_connection w1 of
               None \<Rightarrow> (case move_Connection accepted_connection of (own, left) \<Rightarrow> Inr (own, left, w1))
             | Some this \<Rightarrow> move_assign_Connection this accepted_connection w1) (\<lambda>(own, left, w2).
      bindE (writer_onConnected (w2\<lparr>writer_connection := Some own\<rparr>)) (\<lambda>w3. Inr (left, w3))))"

text \<open>The write callback; it does not look at its event. It counts the packet, prints when the countdown has
  run out, and writes the packet again.\<close>

definition writer_tick :: "'x tcp_writer \<Rightarrow> 'x tcp_writer" where
  "writer_tick w =
     (let n = word_of_nat (sp_len (writer_packet w));
          w1 = w\<lparr>written_bytes := written_bytes w + n, remaining_bytes_before_print := remaining_bytes_before_print w - n\<rparr>
      in if sint (remaining_bytes_before_print w1) \<le> 0
         then (log_cout (''TcpWriter: Written '' @ show_nat (unat (written_bytes w1)) @ '' bytes'') w1)
                \<lparr>remaining_bytes_before_print := BYTES_PRINT_INTERVAL\<rparr>
         else w1)"

definition writer_written :: "'x tcp_writer \<Rightarrow> stop + 'x tcp_writer" where
  "writer_written w =
     (let w1 = writer_tick w in
      case writer_connection w1 of
        None \<Rightarrow> Inl NullDeref
      | Some c \<Rightarrow> bindE (asyncWrite c (writer_packet w1) w1) (\<lambda>(_, w2). Inr w2))"

fun writer_event :: "'x sys \<Rightarrow> writer_callback \<Rightarrow> event \<Rightarrow> 'x tcp_writer \<Rightarrow> stop + 'x tcp_writer" where
  "writer_event X Writer_error (ErrorEvent n) w =
     (let w1 = log_cerr (''TcpWriter: Error: '' @ sys_strerror X n) w in Inl Terminate)"
| "writer_event X Writer_connection_error (ErrorEvent n) w =
     (let w1 = log_cerr (''TcpWriter: Error: '' @ sys_strerror X n) w in Inl Terminate)"
| "writer_event X Writer_written (WriteEvent sock bytes) w = writer_written w"
| "writer_event X _ _ w = Inl (BadCast nullptr)"

fun writer_on_connection :: "writer_callback \<Rightarrow> Connection \<Rightarrow> 'x tcp_writer \<Rightarrow> stop + (Connection \<times> 'x tcp_writer)" where
  "writer_on_connection Writer_connected c w = writer_connected c w"
| "writer_on_connection _ c w = Inl (BadCast nullptr)"

text \<open>The set-up in \<open>main\<close>, on a fresh loop, up to \<open>loop.run()\<close>.\<close>

definition writer_main :: "'x sys \<Rightarrow> string \<Rightarrow> 16 word \<Rightarrow> nat \<Rightarrow> ptr \<Rightarrow> 'x tcp_writer \<Rightarrow> stop + 'x tcp_writer" where
  "writer_main X address port chunk_size base w =
     bindE (new_RingnetTcpWriterClient chunk_size base w) (writer_connect X address port)"

section \<open>The countdown\<close>

text \<open>The countdown is positive and at most one interval between two writes.\<close>

definition countdown_ok :: "'x tcp_writer \<Rightarrow> bool" where
  "countdown_ok w \<longleftrightarrow> 0 < sint (remaining_bytes_before_print w) \<and> sint (remaining_bytes_before_print w) \<le> 100000000"

lemma sint_countdown:
  assumes "0 < sint (r :: 64 word)" "sint r \<le> 100000000" "n < 2 ^ 31"
  shows "sint (r - word_of_nat n) = sint r - int n"
proof -
  have "r - word_of_nat n = word_of_int (sint r - int n)" by simp
  moreover have "sint (word_of_int (sint r - int n) :: 64 word) = sint r - int n"
    using assms by (simp only: sint_sbintrunc') (auto intro!: signed_take_bit_int_eq_self)
  ultimately show ?thesis by simp
qed

lemma writer_tick_frame [simp]:
  "writer_connection (writer_tick w) = writer_connection w" "writer_packet (writer_tick w) = writer_packet w"
  "request_pool (writer_tick w) = request_pool w" "pending_requests (writer_tick w) = pending_requests w"
  "sq_inv (writer_tick w) = sq_inv w"
  "written_bytes (writer_tick w) = written_bytes w + word_of_nat (sp_len (writer_packet w))"
  by (simp_all add: writer_tick_def Let_def log_cout_def sq_inv_def)

lemma writer_tick_counts:
  assumes "countdown_ok w" "sp_len (writer_packet w) < 2 ^ 31"
  shows "countdown_ok (writer_tick w)"
    "cout (writer_tick w) = (if sint (remaining_bytes_before_print w) \<le> int (sp_len (writer_packet w))
       then cout w @ ''TcpWriter: Written '' @ show_nat (unat (written_bytes (writer_tick w))) @ '' bytes'' @ newline else cout w)"
proof -
  have "sint (remaining_bytes_before_print w - word_of_nat (sp_len (writer_packet w))) =
      sint (remaining_bytes_before_print w) - int (sp_len (writer_packet w))"
    using assms by (intro sint_countdown) (simp_all add: countdown_ok_def)
  then show "countdown_ok (writer_tick w)"
    "cout (writer_tick w) = (if sint (remaining_bytes_before_print w) \<le> int (sp_len (writer_packet w))
       then cout w @ ''TcpWriter: Written '' @ show_nat (unat (written_bytes (writer_tick w))) @ '' bytes'' @ newline else cout w)"
    using assms(1) by (simp_all add: writer_tick_def Let_def countdown_ok_def log_cout_def BYTES_PRINT_INTERVAL_def)
qed

section \<open>Properties of the writer\<close>

text \<open>After every completed write, whatever the event says was written, the writer counts one whole packet,
  queues the next write of its packet on its connection, and prints a line exactly when the countdown of
  100 MB has run out, which then restarts; the countdown never leaves its range. A short write is counted
  as a full one.\<close>

lemma writer_counts_packets:
  assumes "sq_inv w" "countdown_ok w" "writer_connection w = Some c" "sp_len (writer_packet w) < 2 ^ 31"
  shows "\<exists>w' a. writer_event X Writer_written (WriteEvent n b) w = Inr w' \<and> sq_inv w' \<and> countdown_ok w' \<and>
     written_bytes w' = written_bytes w + word_of_nat (sp_len (writer_packet w)) \<and>
     cout w' = (if sint (remaining_bytes_before_print w) \<le> int (sp_len (writer_packet w))
       then cout w @ ''TcpWriter: Written '' @ show_nat (unat (written_bytes w')) @ '' bytes'' @ newline else cout w) \<and>
     block_size (request_pool w) a = None \<and>
     deref (request_pool w') a = Inr (added_request (write_request_of c (writer_packet w)) (conn_subscriber c)) \<and>
     pending_requests w' = pending_push WRITE a (pending_requests w)"
proof -
  let ?v = "writer_tick w"
  have inv: "sq_inv ?v" using assms(1) by simp
  obtain a rp where aw: "asyncWrite c (writer_packet w) ?v = Inr (\<lparr>success = True, message = ''Success''\<rparr>,
        ?v\<lparr>request_pool := rp, pending_requests := pending_push WRITE a (pending_requests ?v)\<rparr>)"
      "block_size (request_pool ?v) a = None" "a \<noteq> nullptr"
      "contents rp = (contents (request_pool ?v))(a \<mapsto> added_request (write_request_of c (writer_packet w)) (conn_subscriber c))"
      "sq_inv (?v\<lparr>request_pool := rp, pending_requests := pending_push WRITE a (pending_requests ?v)\<rparr>)"
    by (rule asyncWrite_spec [OF inv])
  let ?u = "?v\<lparr>request_pool := rp, pending_requests := pending_push WRITE a (pending_requests ?v)\<rparr>"
  have "writer_event X Writer_written (WriteEvent n b) w = Inr ?u"
    using aw(1) assms(3) by (simp add: writer_written_def)
  moreover have "countdown_ok ?u" using writer_tick_counts(1) [OF assms(2,4)] by (simp add: countdown_ok_def)
  ultimately show ?thesis
    using aw(2-5) writer_tick_counts(2) [OF assms(2,4)]
    by (intro exI [of _ ?u] exI [of _ a] conjI) (simp_all add: deref_contents)
qed

text \<open>A writer of packets of 1024 bytes, 1000 bytes short of its next line.\<close>

definition writer_sample_connection :: Connection where
  "writer_sample_connection = \<lparr>conn_socket = FileDescriptor_of 11, conn_endpoint = Endpoint 11, conn_subscriber = 407\<rparr>"

definition sample_writer :: "ref_env tcp_writer" where
  "sample_writer = \<lparr>env = ref_init, request_pool = empty_pool, pending_requests = no_pending, buffer_ring = 1,
     ring_buffers = sample_buffers, should_continue = True, error_handler = new_ErrorHandler,
     subscribers = empty_pool, cerr = [], acceptors = empty_pool, connectors = empty_pool, cout = [],
     writer_connector = 3, writer_connection = Some writer_sample_connection,
     writer_packet = \<lparr>sp_base = 30000, sp_len = 1024\<rparr>, remaining_bytes_before_print = 1000, written_bytes = 76\<rparr>"

end
