(* ===== verification/Ring_Contract.thy ===== *)
theory Ring_Contract
  imports Submission_Queue
begin

text \<open>
  The documented behaviour of the two rings together: what happens to an entry between its submission
  and its completions. It is a hypothesis on the environment, like the contracts of \<open>Sys_Env\<close>; a view
  gives the parts of the environment's state it speaks of.
\<close>

definition IORING_CQE_F_MORE :: nat where "IORING_CQE_F_MORE = 1"

record 'x ring_view =
  sq_view :: "'x \<Rightarrow> (nat \<times> sqe_call list) list"
  flight_view :: "'x \<Rightarrow> sqe_call list multiset"
  cq_view :: "'x \<Rightarrow> cqe list"

text \<open>The user data of an entry is the last one set; only the two multi-shot operations complete repeatedly.\<close>

primrec call_data :: "ptr \<Rightarrow> sqe_call \<Rightarrow> ptr" where
  "call_data p (Prep_multishot_accept _) = p"
| "call_data p (Prep_connect _ _ _) = p"
| "call_data p (Prep_write _ _ _ _) = p"
| "call_data p (Prep_read _ _ _ _) = p"
| "call_data p (Or_sqe_flags _) = p"
| "call_data p (Set_buf_group _) = p"
| "call_data p (Prep_read_multishot _ _ _ _) = p"
| "call_data p (Prep_cancel_fd _ _) = p"
| "call_data p (Set_data q) = q"

definition entry_data :: "sqe_call list \<Rightarrow> ptr" where
  "entry_data cs = foldl call_data nullptr cs"

primrec repeats :: "sqe_call \<Rightarrow> bool" where
  "repeats (Prep_multishot_accept _) = True"
| "repeats (Prep_connect _ _ _) = False"
| "repeats (Prep_write _ _ _ _) = False"
| "repeats (Prep_read _ _ _ _) = False"
| "repeats (Or_sqe_flags _) = False"
| "repeats (Set_buf_group _) = False"
| "repeats (Prep_read_multishot _ _ _ _) = True"
| "repeats (Prep_cancel_fd _ _) = False"
| "repeats (Set_data _) = False"

definition multishot_entry :: "sqe_call list \<Rightarrow> bool" where
  "multishot_entry cs = list_ex repeats cs"

text \<open>
  The kernel works off the entries in flight: it posts completions with the user data of the entry and a
  result that fits it (\<open>fits\<close>), one for an ordinary entry, any number with the flag \<open>IORING_CQE_F_MORE\<close>
  before the last one for a multi-shot entry.
\<close>

inductive posts :: "(sqe_call list \<Rightarrow> cqe \<Rightarrow> bool) \<Rightarrow> sqe_call list multiset \<Rightarrow> cqe list \<Rightarrow> sqe_call list multiset \<Rightarrow> bool"
  for fits where
  post_none: "posts fits E [] E"
| post_last: "e \<in># E \<Longrightarrow> cqe_user_data c = entry_data e \<Longrightarrow> fits e c \<Longrightarrow> \<not> bit (cqe_flags c) IORING_CQE_F_MORE \<Longrightarrow>
     posts fits (E - {#e#}) cs E' \<Longrightarrow> posts fits E (c # cs) E'"
| post_more: "e \<in># E \<Longrightarrow> multishot_entry e \<Longrightarrow> cqe_user_data c = entry_data e \<Longrightarrow> fits e c \<Longrightarrow>
     bit (cqe_flags c) IORING_CQE_F_MORE \<Longrightarrow> posts fits E cs E' \<Longrightarrow> posts fits E (c # cs) E'"

inductive_cases posts_Nil: "posts fits E [] E'"
inductive_cases posts_Cons: "posts fits E (c # cs) E'"

text \<open>Nothing happens to the rings.\<close>

definition same_rings :: "'x sys \<Rightarrow> 'x ring_view \<Rightarrow> 'x \<Rightarrow> 'x \<Rightarrow> bool" where
  "same_rings X V x x' \<longleftrightarrow> sq_view V x' = sq_view V x \<and> flight_view V x' = flight_view V x \<and>
     cq_view V x' = cq_view V x \<and> cq_khead X x' = cq_khead X x"

text \<open>The kernel takes the \<open>k\<close> oldest entries of the submission ring and posts completions.\<close>

definition ring_moves :: "'x sys \<Rightarrow> 'x ring_view \<Rightarrow> (sqe_call list \<Rightarrow> cqe \<Rightarrow> bool) \<Rightarrow> nat \<Rightarrow> 'x \<Rightarrow> 'x \<Rightarrow> bool" where
  "ring_moves X V fits k x x' \<longleftrightarrow>
     k \<le> length (sq_view V x) \<and> sq_view V x' = drop k (sq_view V x) \<and> cq_khead X x' = cq_khead X x \<and>
     (\<exists>cs. cq_view V x' = cq_view V x @ cs \<and>
        posts fits (flight_view V x + mset (map snd (take k (sq_view V x)))) cs (flight_view V x'))"

text \<open>
  Entries are taken at the calls that enter the kernel, some of them and possibly none even if the call
  reports an error; completions are posted at any of these calls. Marking completions as seen and the
  provided-buffer ring do not touch the entries.
\<close>

definition ring_contract :: "'x sys \<Rightarrow> 'x ring_view \<Rightarrow> (sqe_call list \<Rightarrow> cqe \<Rightarrow> bool) \<Rightarrow> bool" where
  "ring_contract X V fits \<longleftrightarrow>
     (\<forall>x e x'. io_uring_get_sqe X x = (Some e, x') \<longrightarrow> e \<notin> fst ` set (sq_view V x) \<and>
        sq_view V x' = sq_view V x @ [(e, [])] \<and> flight_view V x' = flight_view V x \<and> cq_view V x' = cq_view V x \<and>
        cq_khead X x' = cq_khead X x) \<and>
     (\<forall>x x'. io_uring_get_sqe X x = (None, x') \<longrightarrow> same_rings X V x x') \<and>
     (\<forall>x e c. sq_view V (sqe_apply X e c x) = map (\<lambda>q. if fst q = e then (e, snd q @ [c]) else q) (sq_view V x) \<and>
        flight_view V (sqe_apply X e c x) = flight_view V x \<and> cq_view V (sqe_apply X e c x) = cq_view V x \<and>
        cq_khead X (sqe_apply X e c x) = cq_khead X x) \<and>
     (\<forall>x n x'. io_uring_submit X x = (n, x') \<longrightarrow> (\<exists>k. ring_moves X V fits k x x')) \<and>
     (\<forall>x m n x'. io_uring_submit_and_wait X m x = (n, x') \<longrightarrow> (\<exists>k. ring_moves X V fits k x x')) \<and>
     (\<forall>x m t n p x'. io_uring_submit_and_wait_timeout X m t x = (n, p, x') \<longrightarrow> (\<exists>k. ring_moves X V fits k x x')) \<and>
     (\<forall>x n x'. io_uring_peek_cqe X x = (n, x') \<longrightarrow> ring_moves X V fits 0 x x') \<and>
     cq_contract X (cq_view V) \<and>
     (\<forall>x n. sq_view V (io_uring_cq_advance X n x) = sq_view V x \<and> flight_view V (io_uring_cq_advance X n x) = flight_view V x) \<and>
     (\<forall>x br sp bid m i. same_rings X V x (io_uring_buf_ring_add X br sp bid m i x)) \<and>
     (\<forall>x br n. same_rings X V x (io_uring_buf_ring_advance X br n x))"

lemmas ring_get_some = ring_contract_def [THEN iffD1, THEN conjunct1, rule_format]
lemmas ring_get_none = ring_contract_def [THEN iffD1, THEN conjunct2, THEN conjunct1, rule_format]
lemmas ring_apply = ring_contract_def [THEN iffD1, THEN conjunct2, THEN conjunct2, THEN conjunct1, rule_format]
lemmas ring_submit = ring_contract_def [THEN iffD1, THEN conjunct2, THEN conjunct2, THEN conjunct2, THEN conjunct1, rule_format]
lemmas ring_submit_and_wait = ring_contract_def [THEN iffD1, THEN conjunct2, THEN conjunct2, THEN conjunct2, THEN conjunct2, THEN conjunct1, rule_format]
lemmas ring_submit_and_wait_timeout = ring_contract_def [THEN iffD1, THEN conjunct2, THEN conjunct2, THEN conjunct2, THEN conjunct2, THEN conjunct2, THEN conjunct1, rule_format]
lemmas ring_peek = ring_contract_def [THEN iffD1, THEN conjunct2, THEN conjunct2, THEN conjunct2, THEN conjunct2, THEN conjunct2, THEN conjunct2, THEN conjunct1, rule_format]
lemmas ring_cq = ring_contract_def [THEN iffD1, THEN conjunct2, THEN conjunct2, THEN conjunct2, THEN conjunct2, THEN conjunct2, THEN conjunct2, THEN conjunct2, THEN conjunct1, rule_format]
lemmas ring_advance = ring_contract_def [THEN iffD1, THEN conjunct2, THEN conjunct2, THEN conjunct2, THEN conjunct2, THEN conjunct2, THEN conjunct2, THEN conjunct2, THEN conjunct2, THEN conjunct1, rule_format]
lemmas ring_buf_add = ring_contract_def [THEN iffD1, THEN conjunct2, THEN conjunct2, THEN conjunct2, THEN conjunct2, THEN conjunct2, THEN conjunct2, THEN conjunct2, THEN conjunct2, THEN conjunct2, THEN conjunct1, rule_format]
lemmas ring_buf_advance = ring_contract_def [THEN iffD1, THEN conjunct2, THEN conjunct2, THEN conjunct2, THEN conjunct2, THEN conjunct2, THEN conjunct2, THEN conjunct2, THEN conjunct2, THEN conjunct2, THEN conjunct2, rule_format]

lemma same_rings_refl [simp]: "same_rings X V x x"
  by (simp add: same_rings_def)

lemma same_rings_trans: "same_rings X V x y \<Longrightarrow> same_rings X V y z \<Longrightarrow> same_rings X V x z"
  by (simp add: same_rings_def)

text \<open>The socket calls have nothing to do with the rings.\<close>

definition posix_keeps_rings :: "'x sys \<Rightarrow> 'x ring_view \<Rightarrow> bool" where
  "posix_keeps_rings X V \<longleftrightarrow>
     (\<forall>a b h x n l x'. sys_getaddrinfo X a b h x = (n, l, x') \<longrightarrow> same_rings X V x x') \<and>
     (\<forall>d t p x n x'. sys_socket X d t p x = (n, x') \<longrightarrow> same_rings X V x x') \<and>
     (\<forall>fd l opt v x n x'. sys_setsockopt X fd l opt v x = (n, x') \<longrightarrow> same_rings X V x x') \<and>
     (\<forall>fd a l x n x'. sys_bind X fd a l x = (n, x') \<longrightarrow> same_rings X V x x') \<and>
     (\<forall>fd b x n x'. sys_listen X fd b x = (n, x') \<longrightarrow> same_rings X V x x') \<and>
     (\<forall>fd x. same_rings X V x (sys_close X fd x))"

lemmas posix_getaddrinfo = posix_keeps_rings_def [THEN iffD1, THEN conjunct1, rule_format]
lemmas posix_socket = posix_keeps_rings_def [THEN iffD1, THEN conjunct2, THEN conjunct1, rule_format]
lemmas posix_setsockopt = posix_keeps_rings_def [THEN iffD1, THEN conjunct2, THEN conjunct2, THEN conjunct1, rule_format]
lemmas posix_bind = posix_keeps_rings_def [THEN iffD1, THEN conjunct2, THEN conjunct2, THEN conjunct2, THEN conjunct1, rule_format]
lemmas posix_listen = posix_keeps_rings_def [THEN iffD1, THEN conjunct2, THEN conjunct2, THEN conjunct2, THEN conjunct2, THEN conjunct1, rule_format]
lemmas posix_close = posix_keeps_rings_def [THEN iffD1, THEN conjunct2, THEN conjunct2, THEN conjunct2, THEN conjunct2, THEN conjunct2, rule_format]

section \<open>Entries under way\<close>

text \<open>Prepared or in flight: the entries whose completions are still to come.\<close>

definition entries_of :: "'x ring_view \<Rightarrow> 'x \<Rightarrow> sqe_call list multiset" where
  "entries_of V x = mset (map snd (sq_view V x)) + flight_view V x"

lemma same_rings_views: "same_rings X V x x' \<Longrightarrow> entries_of V x' = entries_of V x \<and> cq_view V x' = cq_view V x"
  by (simp add: same_rings_def entries_of_def)

lemma posts_frame:
  "posts fits E cs E' \<Longrightarrow> posts fits (E + F) cs (E' + F)"
proof (induction rule: posts.induct)
  case (post_last e E c cs E')
  then have "posts fits (E + F - {#e#}) cs (E' + F)" by simp
  with post_last show ?case by (intro posts.post_last [of e]) auto
next
  case (post_more e E c cs E')
  then show ?case by (intro posts.post_more [of e]) auto
qed (rule posts.post_none)

lemma posts_append:
  "posts fits E cs E1 \<Longrightarrow> posts fits E1 ds E2 \<Longrightarrow> posts fits E (cs @ ds) E2"
  by (induction rule: posts.induct) (auto intro: posts.intros)

lemma ring_moves_entries:
  assumes "ring_moves X V fits k x x'"
  obtains cs where "cq_view V x' = cq_view V x @ cs" "posts fits (entries_of V x) cs (entries_of V x')"
proof -
  obtain cs where cs: "sq_view V x' = drop k (sq_view V x)" "cq_view V x' = cq_view V x @ cs"
      "posts fits (flight_view V x + mset (map snd (take k (sq_view V x)))) cs (flight_view V x')"
    using assms by (auto simp: ring_moves_def)
  have "mset (map snd (sq_view V x)) = mset (map snd (take k (sq_view V x))) + mset (map snd (drop k (sq_view V x)))"
    by (metis append_take_drop_id map_append mset_append)
  then have "posts fits (entries_of V x) cs (entries_of V x')"
    using posts_frame [OF cs(3), of "mset (map snd (drop k (sq_view V x)))"] cs(1)
    by (simp add: entries_of_def ac_simps)
  with cs(2) show thesis by (rule that)
qed

lemma sqe_apply_fold_ring:
  assumes "ring_contract X V fits" "sq_view V x = q @ [(e, ds)]" "e \<notin> fst ` set q"
  shows "sq_view V (fold (sqe_apply X e) cs x) = q @ [(e, ds @ cs)] \<and>
    flight_view V (fold (sqe_apply X e) cs x) = flight_view V x \<and> cq_view V (fold (sqe_apply X e) cs x) = cq_view V x \<and>
    cq_khead X (fold (sqe_apply X e) cs x) = cq_khead X x"
  using assms(2)
proof (induction cs arbitrary: x ds)
  case (Cons c cs)
  have "map (\<lambda>b. if fst b = e then (e, snd b @ [c]) else b) q = q" using assms(3) by (intro map_idI) auto
  then have "sq_view V (sqe_apply X e c x) = q @ [(e, ds @ [c])]"
    using Cons.prems ring_apply [OF assms(1)] by simp
  from Cons.IH [OF this] show ?case using ring_apply [OF assms(1), of e c x] by simp
qed simp

section \<open>Setting up\<close>

text \<open>A ring that \<open>io_uring_queue_init\<close> has set up is empty; registering a buffer ring is no matter of the two rings.\<close>

definition ring_setup_contract :: "'x sys \<Rightarrow> 'x ring_view \<Rightarrow> bool" where
  "ring_setup_contract X V \<longleftrightarrow>
     (\<forall>q x n x'. io_uring_queue_init X q x = (n, x') \<longrightarrow> 0 \<le> n \<longrightarrow>
        sq_view V x' = [] \<and> flight_view V x' = {#} \<and> cq_view V x' = []) \<and>
     (\<forall>n g f x br st x'. io_uring_setup_buf_ring X n g f x = (br, st, x') \<longrightarrow> same_rings X V x x')"

section \<open>The reference environment\<close>

definition ref_view :: "ref_env ring_view" where
  "ref_view = \<lparr>sq_view = ref_sq, flight_view = (\<lambda>x. mset (ref_submitted x)), cq_view = ref_cq_view\<rparr>"

lemma ref_view_simps [simp]:
  "sq_view ref_view = ref_sq" "flight_view ref_view x = mset (ref_submitted x)" "cq_view ref_view = ref_cq_view"
  by (simp_all add: ref_view_def)

lemma ref_ring_contract: "ring_contract (ref_sys cap) ref_view fits"
proof -
  have flush: "ring_moves (ref_sys cap) ref_view fits (length (ref_sq x)) x (ref_flush x)" for x
    by (auto simp: ring_moves_def ref_flush_def ref_cq_view_def ref_sys_def intro: posts.post_none)
  have peek: "ring_moves (ref_sys cap) ref_view fits 0 x x" for x
    by (auto simp: ring_moves_def intro: posts.post_none)
  show ?thesis
    unfolding ring_contract_def
  proof (intro conjI allI impI)
    show "cq_contract (ref_sys cap) (cq_view ref_view)" using ref_cq_contract by simp
    show "\<exists>k. ring_moves (ref_sys cap) ref_view fits k x x'" if "io_uring_submit (ref_sys cap) x = (n, x')" for x n x'
      using that flush [of x] by (auto simp: ref_sys_def)
    show "\<exists>k. ring_moves (ref_sys cap) ref_view fits k x x'" if "io_uring_submit_and_wait (ref_sys cap) m x = (n, x')" for x m n x'
      using that flush [of x] by (auto simp: ref_sys_def)
    show "\<exists>k. ring_moves (ref_sys cap) ref_view fits k x x'"
      if "io_uring_submit_and_wait_timeout (ref_sys cap) m t x = (n, p, x')" for x m t n p x'
      using that flush [of x] by (auto simp: ref_sys_def)
    show "ring_moves (ref_sys cap) ref_view fits 0 x x'" if "io_uring_peek_cqe (ref_sys cap) x = (n, x')" for x n x'
      using that peek [of x] by (auto simp: ref_sys_def)
  qed (use sum_list_fresh in \<open>auto simp: ref_sys_def same_rings_def ref_cq_view_def Let_def split: if_splits\<close>)
qed

lemma ref_ring_setup_contract: "ring_setup_contract (ref_sys cap) ref_view"
  by (simp add: ring_setup_contract_def ref_sys_def ref_cq_view_def)

lemma ref_posix_keeps_rings: "posix_keeps_rings (ref_sys cap) ref_view"
  by (auto simp: posix_keeps_rings_def ref_sys_def same_rings_def ref_cq_view_def)

end
