(* ===== verification/Transition_Systems.thy ===== *)
theory Transition_Systems
  imports Main
begin

text \<open>
  Runs of a system whose parts move in any order: what an invariant of single steps and a simulation of
  single steps give for whole runs. \<open>Request_Life\<close> and \<open>Queue_Refinement\<close> interpret them on the steps
  of the submission queue, the kernel and the program.
\<close>

locale step_invariant =
  fixes step :: "'s \<Rightarrow> 's \<Rightarrow> bool"
    and inv :: "'s \<Rightarrow> bool"
  assumes step_inv: "inv s \<Longrightarrow> step s s' \<Longrightarrow> inv s'"
begin

lemma run_inv:
  assumes "step\<^sup>*\<^sup>* s s'" "inv s"
  shows "inv s'"
  using assms by (induction rule: rtranclp_induct) (blast intro: step_inv)+

text \<open>What every step from a good state guarantees holds of every step of a run.\<close>

lemma run_step:
  assumes "step\<^sup>*\<^sup>* s s1" "inv s" "step s1 s2"
  shows "inv s1 \<and> inv s2"
  using assms run_inv step_inv by blast

end

locale step_simulation = step_invariant step inv
  for step :: "'s \<Rightarrow> 's \<Rightarrow> bool"
    and inv :: "'s \<Rightarrow> bool" +
  fixes abs :: "'s \<Rightarrow> 'a"
    and astep :: "'a \<Rightarrow> 'a \<Rightarrow> bool"
  assumes step_sim: "inv s \<Longrightarrow> step s s' \<Longrightarrow> astep\<^sup>*\<^sup>* (abs s) (abs s')"
begin

lemma run_sim:
  assumes "step\<^sup>*\<^sup>* s s'" "inv s"
  shows "astep\<^sup>*\<^sup>* (abs s) (abs s')"
  using assms(1)
proof (induction rule: rtranclp_induct)
  case (step s1 s2)
  then show ?case using step_sim run_inv [OF step.hyps(1) assms(2)] by (meson rtranclp_trans)
qed simp

end

end
