(* ===== verification/Request_Life.thy ===== *)
theory Request_Life
  imports Ring_Contract Transition_Systems
begin

text \<open>
  The life of requests under every interleaving of the operations of the threads that add them, the loop that submits them
  and walks the completions, and the kernel. A step relation collects what can happen to a queue; its
  invariant says that every address that is waiting, prepared, in flight or completed is the address of a
  live request, and that of a single-shot request only once. The submission queue then never touches a
  dead request. \<open>Queue_Refinement\<close> adds that it implements the cycle the comment in \<open>submissionQueue.hpp\<close>
  describes.

  \<open>good\<close> is what the program promises of the requests it adds, \<open>J\<close> an invariant of its own state and \<open>fits\<close>
  what the kernel promises of the results. \<open>cancel\<close> is left out: its completion has no user data and stops
  the loop, which \<open>Event_Loop\<close> proves.
\<close>

section \<open>The invariant\<close>

text \<open>
  Over a pool of requests: the waiting addresses \<open>P\<close>, the entries \<open>E\<close> that the kernel has or will get,
  and the completions \<open>cs\<close> that are still to be processed.
\<close>

definition claims :: "ptr multiset \<Rightarrow> sqe_call list multiset \<Rightarrow> cqe list \<Rightarrow> ptr multiset" where
  "claims P E cs = P + image_mset entry_data E + mset (map cqe_user_data cs)"

definition life ::
    "(request \<Rightarrow> bool) \<Rightarrow> (sqe_call list \<Rightarrow> cqe \<Rightarrow> bool) \<Rightarrow> request pool \<Rightarrow> ptr multiset \<Rightarrow> sqe_call list multiset \<Rightarrow> cqe list \<Rightarrow> bool" where
  "life good fits pool P E cs \<longleftrightarrow>
     (\<forall>a r. deref pool a = Inr r \<longrightarrow> good r) \<and>
     (\<forall>a \<in># P. \<exists>r. deref pool a = Inr r) \<and>
     (\<forall>e \<in># E. \<exists>a r. deref pool a = Inr r \<and> e = request_calls a r) \<and>
     (\<forall>c \<in> set cs. \<exists>r. deref pool (cqe_user_data c) = Inr r \<and> fits (request_calls (cqe_user_data c) r) c) \<and>
     (\<forall>a r. deref pool a = Inr r \<longrightarrow> single_shot (kind r) \<longrightarrow> count (claims P E cs) a \<le> 1)"

lemma entry_data_calls [simp]: "entry_data (request_calls a r) = a"
  by (cases r) (simp_all add: entry_data_def)

lemma multishot_calls [simp]: "multishot_entry (request_calls a r) = (\<not> single_shot (kind r))"
  by (cases r) (simp_all add: multishot_entry_def single_shot_def)

lemma claims_simps [simp]:
  "claims (add_mset a P) E cs = add_mset a (claims P E cs)"
  "claims P (add_mset e E) cs = add_mset (entry_data e) (claims P E cs)"
  "claims P E (c # cs) = add_mset (cqe_user_data c) (claims P E cs)"
  "claims P E (cs @ ds) = claims P E cs + mset (map cqe_user_data ds)"
  "claims {#} {#} [] = {#}"
  by (simp_all add: claims_def)

lemma lifeI:
  assumes "\<And>a r. deref pool a = Inr r \<Longrightarrow> good r" "\<And>a. a \<in># P \<Longrightarrow> \<exists>r. deref pool a = Inr r"
    "\<And>e. e \<in># E \<Longrightarrow> \<exists>a r. deref pool a = Inr r \<and> e = request_calls a r"
    "\<And>c. c \<in> set cs \<Longrightarrow> \<exists>r. deref pool (cqe_user_data c) = Inr r \<and> fits (request_calls (cqe_user_data c) r) c"
    "\<And>a r. deref pool a = Inr r \<Longrightarrow> single_shot (kind r) \<Longrightarrow> count (claims P E cs) a \<le> 1"
  shows "life good fits pool P E cs"
  using assms unfolding life_def by blast

lemma lifeD:
  assumes "life good fits pool P E cs"
  shows life_good: "\<And>a r. deref pool a = Inr r \<Longrightarrow> good r"
    and life_waiting: "\<And>a. a \<in># P \<Longrightarrow> \<exists>r. deref pool a = Inr r"
    and life_entry: "\<And>e. e \<in># E \<Longrightarrow> \<exists>a r. deref pool a = Inr r \<and> e = request_calls a r"
    and life_completion: "\<And>c. c \<in> set cs \<Longrightarrow> \<exists>r. deref pool (cqe_user_data c) = Inr r \<and> fits (request_calls (cqe_user_data c) r) c"
    and life_once: "\<And>a r. deref pool a = Inr r \<Longrightarrow> single_shot (kind r) \<Longrightarrow> count (claims P E cs) a \<le> 1"
  using assms unfolding life_def by blast+

lemma life_claims_live:
  assumes "life good fits pool P E cs" "a \<in># claims P E cs"
  shows "\<exists>r. deref pool a = Inr r"
proof -
  have "a \<in># P \<or> (\<exists>e \<in># E. a = entry_data e) \<or> (\<exists>c \<in> set cs. a = cqe_user_data c)"
    using assms(2) by (auto simp: claims_def)
  then show ?thesis using assms(1) unfolding life_def by fastforce
qed

text \<open>Fewer claims are no harm: a waiting request that gets no entry is forgotten.\<close>

lemma life_forget:
  assumes "life good fits pool (add_mset p P) E cs"
  shows "life good fits pool P E cs"
proof (rule lifeI)
  show "count (claims P E cs) a \<le> 1" if "deref pool a = Inr r" "single_shot (kind r)" for a r
    using life_once [OF assms that] by (simp split: if_splits)
qed (use lifeD(1-4) [OF assms] in auto)

text \<open>A waiting request becomes an entry.\<close>

lemma life_prepare:
  assumes "life good fits pool (add_mset p P) E cs" "deref pool p = Inr r"
  shows "life good fits pool P (add_mset (request_calls p r) E) cs"
proof (rule lifeI)
  show "count (claims P (add_mset (request_calls p r) E) cs) a \<le> 1" if "deref pool a = Inr q" "single_shot (kind q)" for a q
    using life_once [OF assms(1) that] by simp
qed (use lifeD(1-4) [OF assms(1)] assms(2) in auto)

text \<open>The kernel completes entries.\<close>

lemma life_post_one:
  assumes "life good fits pool P E cs" "e \<in># E" "cqe_user_data c = entry_data e" "fits e c"
    "E' = E - {#e#} \<or> E' = E \<and> multishot_entry e"
  shows "life good fits pool P E' (cs @ [c])"
proof -
  obtain a r where e: "deref pool a = Inr r" "e = request_calls a r"
    using assms(1,2) unfolding life_def by blast
  have E: "E = add_mset e (E - {#e#})" using assms(2) by simp
  have "count (claims P E' (cs @ [c])) b \<le> 1" if "deref pool b = Inr q" "single_shot (kind q)" for b q
  proof -
    have b: "count (claims P E cs) b \<le> 1" using assms(1) that unfolding life_def by blast
    from assms(5) show ?thesis
    proof
      assume "E' = E - {#e#}"
      then have "claims P E' (cs @ [c]) = claims P E cs" using assms(3) e(2) by (subst E) simp
      with b show ?thesis by simp
    next
      assume "E' = E \<and> multishot_entry e"
      moreover from this have "b \<noteq> a" using e that by auto
      ultimately show ?thesis using b assms(3) e(2) by simp
    qed
  qed
  moreover have sub: "f \<in># E" if "f \<in># E'" for f using that assms(5) by (auto dest: in_diffD)
  moreover have "deref pool (cqe_user_data c) = Inr r" "fits (request_calls (cqe_user_data c) r) c"
    using e assms(3,4) by simp_all
  ultimately show ?thesis using lifeD(1-4) [OF assms(1)] by (intro lifeI) auto
qed

lemma life_posts:
  assumes "posts fits E ds E'" "life good fits pool P E cs"
  shows "life good fits pool P E' (cs @ ds)"
  using assms
proof (induction arbitrary: cs rule: posts.induct)
  case (post_last e E c ds E')
  have "life good fits pool P (E - {#e#}) (cs @ [c])"
    by (rule life_post_one [OF post_last.prems post_last.hyps(1-3) disjI1 [OF refl]])
  from post_last.IH [OF this] show ?case by simp
next
  case (post_more e E c ds E')
  have "life good fits pool P E (cs @ [c])"
    using post_more.hyps(2) by (intro life_post_one [OF post_more.prems post_more.hyps(1,3,4)]) simp
  from post_more.IH [OF this] show ?case by simp
qed simp

section \<open>The operations of the queue\<close>

text \<open>The invariant of a queue while the completions \<open>cs\<close> are still to be processed.\<close>

abbreviation waiting_ptrs :: "('x, 'z) submission_queue_scheme \<Rightarrow> ptr multiset" where
  "waiting_ptrs s \<equiv> image_mset snd (mset (pending_entries (pending_requests s)))"

definition queue_life ::
    "'x ring_view \<Rightarrow> (request \<Rightarrow> bool) \<Rightarrow> (sqe_call list \<Rightarrow> cqe \<Rightarrow> bool) \<Rightarrow> ('x, 'z) submission_queue_scheme \<Rightarrow> cqe list \<Rightarrow> bool" where
  "queue_life V good fits s cs \<longleftrightarrow>
     sq_inv s \<and> life good fits (request_pool s) (waiting_ptrs s) (entries_of V (env s)) cs"

text \<open>Storing a request at a free address, and freeing one nobody claims.\<close>

lemma life_add:
  assumes "life good fits pool P E cs" "contents pool p = None" "p \<noteq> nullptr" "contents pool' = (contents pool)(p \<mapsto> r)" "good r"
  shows "life good fits pool' (add_mset p P) E cs"
proof -
  have keep: "deref pool' a = Inr q \<longleftrightarrow> (if a = p then q = r else deref pool a = Inr q)" for a q
    using assms(3,4) by (auto simp: deref_contents)
  have fresh: "p \<notin># claims P E cs"
    using life_claims_live [OF assms(1), of p] assms(2) by (auto simp: deref_contents)
  have old: "deref pool' a = Inr q" if "deref pool a = Inr q" for a q
    using that assms(2,4) by (auto simp: deref_contents)
  show ?thesis
  proof (rule lifeI)
    show "good q" if "deref pool' a = Inr q" for a q
      using that assms(5) lifeD(1) [OF assms(1)] by (auto simp: keep split: if_splits)
    show "\<exists>q. deref pool' a = Inr q" if "a \<in># add_mset p P" for a
      using that lifeD(2) [OF assms(1), of a] keep [of a] by (cases "a = p") auto
    show "\<exists>a q. deref pool' a = Inr q \<and> e = request_calls a q" if "e \<in># E" for e
      using lifeD(3) [OF assms(1) that] old by blast
    show "\<exists>q. deref pool' (cqe_user_data c) = Inr q \<and> fits (request_calls (cqe_user_data c) q) c" if "c \<in> set cs" for c
      using lifeD(4) [OF assms(1) that] old by blast
    show "count (claims (add_mset p P) E cs) a \<le> 1" if "deref pool' a = Inr q" "single_shot (kind q)" for a q
      using that fresh lifeD(5) [OF assms(1), of a q] by (auto simp: keep not_in_iff split: if_splits)
  qed
qed

lemma life_free:
  assumes "life good fits pool P E cs" "p \<notin># claims P E cs" "contents pool' = (contents pool)(p := None)"
  shows "life good fits pool' P E cs"
proof -
  have keep: "deref pool' a = Inr q \<longleftrightarrow> a \<noteq> p \<and> deref pool a = Inr q" for a q
    using assms(3) by (auto simp: deref_contents)
  have claimed: "a \<in># P \<Longrightarrow> a \<noteq> p" "e \<in># E \<Longrightarrow> entry_data e \<noteq> p" "c \<in> set cs \<Longrightarrow> cqe_user_data c \<noteq> p" for a e c
    using assms(2) by (auto simp: claims_def)
  show ?thesis
  proof (rule lifeI)
    show "\<exists>a q. deref pool' a = Inr q \<and> e = request_calls a q" if "e \<in># E" for e
      using lifeD(3) [OF assms(1) that] claimed(2) [OF that] by (auto simp: keep)
  qed (use lifeD [OF assms(1)] claimed in \<open>auto simp: keep\<close>)
qed

lemma queue_life_push:
  assumes "queue_life V good fits s cs" "wf_request r" "good r" "push r s = Inr s'"
  shows "queue_life V good fits s' cs"
proof -
  have inv: "sq_inv s" using assms(1) by (simp add: queue_life_def)
  obtain p pool where p: "push r s = Inr (s\<lparr>request_pool := pool, pending_requests := pending_push (kind r) p (pending_requests s)\<rparr>)"
      "p \<noteq> nullptr" "block_size (request_pool s) p = None" "contents pool = (contents (request_pool s))(p \<mapsto> r)"
      "sq_inv (s\<lparr>request_pool := pool, pending_requests := pending_push (kind r) p (pending_requests s)\<rparr>)"
    by (rule push_spec [OF inv assms(2)])
  have "contents (request_pool s) p = None" using p(3) pool.value_sized by fastforce
  then have "life good fits pool (add_mset p (waiting_ptrs s)) (entries_of V (env s)) cs"
    using assms(1,3) p(2,4) by (intro life_add) (simp_all add: queue_life_def)
  with p assms(4) show ?thesis by (simp add: queue_life_def pending_push_mset)
qed

lemma queue_life_release:
  assumes "queue_life V good fits s (c # cs)"
  obtains pool where "release c s = Inr (s\<lparr>request_pool := pool\<rparr>)" "queue_life V good fits (s\<lparr>request_pool := pool\<rparr>) cs"
proof -
  have inv: "sq_inv s" and l: "life good fits (request_pool s) (waiting_ptrs s) (entries_of V (env s)) (c # cs)"
    using assms by (simp_all add: queue_life_def)
  obtain r where r: "deref (request_pool s) (cqe_user_data c) = Inr r" using lifeD(4) [OF l, of c] by auto
  then have wf: "wf_request r" using inv by (auto simp: sq_inv_def typed_pool_def deref_contents)
  have rest: "life good fits (request_pool s) (waiting_ptrs s) (entries_of V (env s)) cs"
  proof (rule lifeI)
    show "count (claims (waiting_ptrs s) (entries_of V (env s)) cs) a \<le> 1" if "deref (request_pool s) a = Inr q" "single_shot (kind q)" for a q
      using lifeD(5) [OF l that] by (simp split: if_splits)
  qed (use lifeD(1-4) [OF l] in auto)
  show thesis
  proof (cases "single_shot (kind r)")
    case False
    then have "release c s = Inr s" by (rule release_multishot [OF r wf])
    with rest inv show ?thesis by (intro that [of "request_pool s"]) (simp_all add: queue_life_def)
  next
    case True
    have fresh: "cqe_user_data c \<notin># claims (waiting_ptrs s) (entries_of V (env s)) cs"
      using lifeD(5) [OF l r True] by (simp add: not_in_iff)
    obtain pool where pool: "release c s = Inr (s\<lparr>request_pool := pool\<rparr>)"
        "contents pool = (contents (request_pool s))(cqe_user_data c := None)"
      using release_single_shot [OF inv r True] by metis
    have "cqe_user_data c \<notin> snd ` set (pending_entries (pending_requests s))" using fresh by (auto simp: claims_def)
    then have "sq_inv (s\<lparr>request_pool := pool\<rparr>)" by (rule release_inv [OF inv _ pool(1)])
    moreover have "life good fits pool (waiting_ptrs s) (entries_of V (env s)) cs" by (rule life_free [OF rest fresh pool(2)])
    ultimately show ?thesis using pool(1) by (intro that [of pool]) (simp_all add: queue_life_def)
  qed
qed

section \<open>Submitting\<close>

text \<open>
  The ring never refuses an entry for good: it has room for at least one entry, its contents fit, and
  submitting a ring that is not empty makes progress.
\<close>

definition keeps_up :: "'x sys \<Rightarrow> 'x ring_view \<Rightarrow> nat \<Rightarrow> 'x \<Rightarrow> bool" where
  "keeps_up X V cap x \<longleftrightarrow> sq_contract X (sq_view V) cap \<and> 0 < cap \<and> length (sq_view V x) \<le> cap \<and>
     (\<forall>y. sq_view V y \<noteq> [] \<longrightarrow> 0 < fst (io_uring_submit X y))"

lemma keeps_up_get:
  assumes "keeps_up X V cap x" "io_uring_get_sqe X x = (o', x')"
  shows "keeps_up X V cap x'"
  using assms unfolding keeps_up_def sq_contract_def by (cases o') fastforce+

lemma keeps_up_moves: "keeps_up X V cap x \<Longrightarrow> ring_moves X V fits k x x' \<Longrightarrow> keeps_up X V cap x'"
  by (auto simp: keeps_up_def ring_moves_def)

lemma getNew_ring:
  assumes "ring_contract X V fits" "getNewSubmissionQueueEntry X s = (o', s')"
  obtains x q cs where "s' = s\<lparr>env := x\<rparr>" "cq_view V x = cq_view V (env s) @ cs"
    "posts fits (entries_of V (env s)) cs (mset (map snd q) + flight_view V x)"
    "case o' of None \<Rightarrow> sq_view V x = q | Some e \<Rightarrow> sq_view V x = q @ [(e, [])] \<and> e \<notin> fst ` set q"
    "\<forall>cap. keeps_up X V cap (env s) \<longrightarrow> o' \<noteq> None \<and> keeps_up X V cap x"
proof -
  obtain o1 x1 where 1: "io_uring_get_sqe X (env s) = (o1, x1)" by (cases "io_uring_get_sqe X (env s)")
  show thesis
  proof (cases o1)
    case (Some e)
    have "o' = Some e" "s' = s\<lparr>env := x1\<rparr>" using 1 Some assms(2) by (simp_all add: getNewSubmissionQueueEntry_def)
    then show ?thesis
      using ring_get_some [OF assms(1) 1 [unfolded Some]] keeps_up_get [OF _ 1]
      by (intro that [of x1 "[]" "sq_view V (env s)"]) (auto simp: entries_of_def intro: posts.post_none)
  next
    case None
    obtain n x2 where 2: "io_uring_submit X x1 = (n, x2)" by (cases "io_uring_submit X x1")
    obtain x3 where 3: "io_uring_get_sqe X x2 = (o', x3)" "s' = s\<lparr>env := x3\<rparr>"
      using 1 2 None assms(2) by (auto simp: getNewSubmissionQueueEntry_def split: prod.splits)
    have same: "entries_of V x1 = entries_of V (env s)" "cq_view V x1 = cq_view V (env s)"
      using same_rings_views [OF ring_get_none [OF assms(1) 1 [unfolded None]]] by simp_all
    obtain k where k: "ring_moves X V fits k x1 x2" using ring_submit [OF assms(1) 2] by blast
    obtain cs where cs: "cq_view V x2 = cq_view V x1 @ cs" "posts fits (entries_of V x1) cs (entries_of V x2)"
      by (rule ring_moves_entries [OF k])
    have up: "o' \<noteq> None \<and> keeps_up X V cap x3" if "keeps_up X V cap (env s)" for cap
    proof -
      have "\<exists>e s'. getNewSubmissionQueueEntry X s = (Some e, s')"
        using that by (intro getNew_progress [of X "sq_view V" cap]) (simp_all add: keeps_up_def)
      then have "o' \<noteq> None" using assms(2) by auto
      then show ?thesis using keeps_up_get [OF keeps_up_moves [OF keeps_up_get [OF that 1] k] 3(1)] by simp
    qed
    have end3: "cq_view V x3 = cq_view V x2 \<and> flight_view V x3 = flight_view V x2 \<and>
        (case o' of None \<Rightarrow> sq_view V x3 = sq_view V x2 | Some e \<Rightarrow> sq_view V x3 = sq_view V x2 @ [(e, [])] \<and> e \<notin> fst ` set (sq_view V x2))"
      using ring_get_some [OF assms(1), of x2] ring_get_none [OF assms(1), of x2] 3(1)
      by (auto simp: same_rings_def split: option.splits)
    then show ?thesis
      using 3(2) cs same up by (intro that [of x3 cs "sq_view V x2"]) (auto simp: entries_of_def)
  qed
qed

text \<open>
  A batch: the requests that got an entry (all of them, if the ring keeps up) are handed to the kernel
  with the rest, and completions may already come in.
\<close>

abbreviation entry_calls :: "request pool \<Rightarrow> Operation \<times> ptr \<Rightarrow> sqe_call list" where
  "entry_calls pool e \<equiv> request_calls (snd e) (the (contents pool (snd e)))"

definition batch_effect ::
    "'x sys \<Rightarrow> 'x ring_view \<Rightarrow> (sqe_call list \<Rightarrow> cqe \<Rightarrow> bool) \<Rightarrow> request pool \<Rightarrow> (Operation \<times> ptr) list \<Rightarrow> 'x \<Rightarrow> 'x \<Rightarrow> bool" where
  "batch_effect X V fits pool es x x' \<longleftrightarrow>
     (\<exists>B cs. B \<subseteq># mset es \<and> cq_view V x' = cq_view V x @ cs \<and>
        posts fits (entries_of V x + image_mset (entry_calls pool) B) cs (entries_of V x') \<and>
        (\<forall>cap. keeps_up X V cap x \<longrightarrow> B = mset es \<and> keeps_up X V cap x'))"

lemma batch_effect_refl: "batch_effect X V fits pool [] x x"
  by (auto simp: batch_effect_def intro: posts.post_none exI [of _ "{#}"])

lemma batch_effect_moves:
  assumes "batch_effect X V fits pool es x y" "ring_moves X V fits k y z"
  shows "batch_effect X V fits pool es x z"
proof -
  obtain B cs where B: "B \<subseteq># mset es" "cq_view V y = cq_view V x @ cs"
      "posts fits (entries_of V x + image_mset (entry_calls pool) B) cs (entries_of V y)"
      "\<forall>cap. keeps_up X V cap x \<longrightarrow> B = mset es \<and> keeps_up X V cap y"
    using assms(1) by (auto simp: batch_effect_def)
  obtain ds where ds: "cq_view V z = cq_view V y @ ds" "posts fits (entries_of V y) ds (entries_of V z)"
    by (rule ring_moves_entries [OF assms(2)])
  show ?thesis
    unfolding batch_effect_def
    using B ds posts_append [OF B(3) ds(2)] keeps_up_moves [OF _ assms(2)]
    by (intro exI [of _ B] exI [of _ "cs @ ds"]) auto
qed

lemma prepare_ring:
  assumes "ring_contract X V fits" "deref (request_pool s) (snd e) = Inr r" "kind r = fst e"
  obtains st x where "prepare (fst e) X (snd e) s = Inr (st, s\<lparr>env := x\<rparr>)"
    "batch_effect X V fits (request_pool s) [e] (env s) x"
proof -
  have c: "contents (request_pool s) (snd e) = Some r" using assms(2) by (simp add: deref_contents)
  obtain o' s' where g: "getNewSubmissionQueueEntry X s = (o', s')" by (cases "getNewSubmissionQueueEntry X s")
  obtain x q cs where x: "s' = s\<lparr>env := x\<rparr>" "cq_view V x = cq_view V (env s) @ cs"
      "posts fits (entries_of V (env s)) cs (mset (map snd q) + flight_view V x)"
      "case o' of None \<Rightarrow> sq_view V x = q | Some e \<Rightarrow> sq_view V x = q @ [(e, [])] \<and> e \<notin> fst ` set q"
      "\<forall>cap. keeps_up X V cap (env s) \<longrightarrow> o' \<noteq> None \<and> keeps_up X V cap x"
    by (rule getNew_ring [OF assms(1) g])
  show thesis
  proof (cases o')
    case None
    then have "batch_effect X V fits (request_pool s) [e] (env s) x"
      using x(2-5) unfolding batch_effect_def by (intro exI [of _ "{#}"] exI [of _ cs]) (auto simp: entries_of_def)
    then show ?thesis using prepare_full [OF g [unfolded None]] x(1) that by simp
  next
    case (Some i)
    let ?y = "fold (sqe_apply X i) (request_calls (snd e) r) x"
    have q: "sq_view V x = q @ [(i, [])]" "i \<notin> fst ` set q" using x(4) Some by simp_all
    have y: "sq_view V ?y = q @ [(i, request_calls (snd e) r)]" "flight_view V ?y = flight_view V x" "cq_view V ?y = cq_view V x"
      using sqe_apply_fold_ring [OF assms(1) q] by simp_all
    have up: "keeps_up X V cap ?y" if "keeps_up X V cap x" for cap using that y(1) q(1) by (simp add: keeps_up_def)
    have "posts fits (entries_of V (env s) + {#request_calls (snd e) r#}) cs (entries_of V ?y)"
      using posts_frame [OF x(3), of "{#request_calls (snd e) r#}"] y by (simp add: entries_of_def)
    then have "batch_effect X V fits (request_pool s) [e] (env s) ?y"
      using x(2,5) y(3) up c unfolding batch_effect_def by (intro exI [of _ "{#e#}"] exI [of _ cs]) auto
    then show ?thesis
      using prepare_entry [OF g [unfolded Some] assms(2)] assms(3) x(1) that by simp
  qed
qed

lemma batch_effect_append:
  assumes "batch_effect X V fits pool es x y" "batch_effect X V fits pool fs y z"
  shows "batch_effect X V fits pool (es @ fs) x z"
proof -
  obtain B cs where B: "B \<subseteq># mset es" "cq_view V y = cq_view V x @ cs"
      "posts fits (entries_of V x + image_mset (entry_calls pool) B) cs (entries_of V y)"
      "\<forall>cap. keeps_up X V cap x \<longrightarrow> B = mset es \<and> keeps_up X V cap y"
    using assms(1) by (auto simp: batch_effect_def)
  obtain D ds where D: "D \<subseteq># mset fs" "cq_view V z = cq_view V y @ ds"
      "posts fits (entries_of V y + image_mset (entry_calls pool) D) ds (entries_of V z)"
      "\<forall>cap. keeps_up X V cap y \<longrightarrow> D = mset fs \<and> keeps_up X V cap z"
    using assms(2) by (auto simp: batch_effect_def)
  have "posts fits (entries_of V x + image_mset (entry_calls pool) (B + D)) (cs @ ds) (entries_of V z)"
    using posts_append [OF posts_frame [OF B(3)] D(3)] by (simp add: ac_simps)
  with B D show ?thesis
    unfolding batch_effect_def by (intro exI [of _ "B + D"] exI [of _ "cs @ ds"]) (auto intro: subset_mset.add_mono)
qed

lemma prepare_batch_ring:
  assumes "ring_contract X V fits" "entries_ok (request_pool s) es"
  obtains x where "for_each_entry es (prepare_and_count X) (n, s) = Inr (n + length es, s\<lparr>env := x\<rparr>)"
    "batch_effect X V fits (request_pool s) es (env s) x"
  using assms(2)
proof (induction es arbitrary: n s thesis)
  case Nil
  have "s = s\<lparr>env := env s\<rparr>" by simp
  then show ?case by (intro Nil(1) [of "env s"]) (simp_all add: batch_effect_refl)
next
  case (Cons e es)
  obtain r where r: "deref (request_pool s) (snd e) = Inr r" "kind r = fst e"
    using Cons.prems(2) by (auto simp: entries_ok_def)
  obtain st x where x: "prepare (fst e) X (snd e) s = Inr (st, s\<lparr>env := x\<rparr>)"
      "batch_effect X V fits (request_pool s) [e] (env s) x"
    by (rule prepare_ring [OF assms(1) r])
  obtain y where y: "for_each_entry es (prepare_and_count X) (Suc n, s\<lparr>env := x\<rparr>) = Inr (Suc n + length es, s\<lparr>env := y\<rparr>)"
      "batch_effect X V fits (request_pool s) es x y"
    using Cons.IH [where s = "s\<lparr>env := x\<rparr>" and n = "Suc n"] Cons.prems(2) by (auto simp: entries_ok_def)
  show ?case
    using batch_effect_append [OF x(2) y(2)] y(1)
    by (intro Cons.prems(1) [of y]) (simp_all add: prepare_and_count_Inr [OF x(1)])
qed

text \<open>The part of \<open>submit\<close> after \<open>preparePendingRequests\<close>.\<close>

definition enter_ring :: "'x sys \<Rightarrow> int \<Rightarrow> nat \<Rightarrow> ('x, 'z) submission_queue_scheme \<Rightarrow> int \<times> ('x, 'z) submission_queue_scheme" where
  "enter_ring X timeout prepared_requests_count s =
     (if prepared_requests_count = 0 then (NOT_READY, s)
      else if timeout \<le> 0 then
        (case io_uring_submit_and_wait X 1 (env s) of (n, x1) \<Rightarrow> (n, s\<lparr>env := x1\<rparr>))
      else
        (case io_uring_submit_and_wait_timeout X 1 (milliseconds_to_timespec timeout) (env s) of
           (completions, completed_events, x1) \<Rightarrow>
             if 0 < completions \<and> completed_events = nullptr then
               (case io_uring_peek_cqe X x1 of (peek_status, x2) \<Rightarrow>
                  (if peek_status < 0 then peek_status else completions, s\<lparr>env := x2\<rparr>))
             else (completions, s\<lparr>env := x1\<rparr>)))"

lemma submit_enter_ring: "submit X t s = bindE (preparePendingRequests X s) (\<lambda>(n, s1). Inr (enter_ring X t n s1))"
  by (cases "preparePendingRequests X s") (auto simp: submit_def enter_ring_def split: prod.splits)

text \<open>It changes the rings only, in at most two calls of the kernel.\<close>

lemma enter_ring_moves:
  assumes "ring_contract X V fits"
  obtains n y where "enter_ring X t m s = (n, s\<lparr>env := y\<rparr>)"
    "y = env s \<or> (\<exists>k. ring_moves X V fits k (env s) y) \<or>
     (\<exists>k z. ring_moves X V fits k (env s) z \<and> ring_moves X V fits 0 z y)"
proof -
  obtain n1 x1 where w: "io_uring_submit_and_wait X 1 (env s) = (n1, x1)" by (cases "io_uring_submit_and_wait X 1 (env s)")
  obtain n2 c x2 where v: "io_uring_submit_and_wait_timeout X 1 (milliseconds_to_timespec t) (env s) = (n2, c, x2)"
    by (cases "io_uring_submit_and_wait_timeout X 1 (milliseconds_to_timespec t) (env s)")
  obtain n3 x3 where u: "io_uring_peek_cqe X x2 = (n3, x3)" by (cases "io_uring_peek_cqe X x2")
  obtain k1 k2 where moves: "ring_moves X V fits k1 (env s) x1" "ring_moves X V fits k2 (env s) x2" "ring_moves X V fits 0 x2 x3"
    using ring_submit_and_wait [OF assms w] ring_submit_and_wait_timeout [OF assms v] ring_peek [OF assms u] by blast
  show thesis
  proof (rule that)
    show "enter_ring X t m s = (if m = 0 then NOT_READY else if t \<le> 0 then n1 else if 0 < n2 \<and> c = nullptr \<and> n3 < 0 then n3 else n2,
        s\<lparr>env := if m = 0 then env s else if t \<le> 0 then x1 else if 0 < n2 \<and> c = nullptr then x3 else x2\<rparr>)"
      using w v u by (simp add: enter_ring_def)
  qed (use moves in auto)
qed

lemma submit_moves:
  assumes "ring_contract X V fits" "preparePendingRequests X s = Inr (m, s1)"
  obtains n y where "submit X t s = Inr (n, s1\<lparr>env := y\<rparr>)"
    "y = env s1 \<or> (\<exists>k. ring_moves X V fits k (env s1) y) \<or>
     (\<exists>k z. ring_moves X V fits k (env s1) z \<and> ring_moves X V fits 0 z y)"
  by (rule enter_ring_moves [OF assms(1), of t m s1]) (use assms(2) that in \<open>simp add: submit_enter_ring\<close>)

text \<open>\<open>submit\<close> always returns; it empties the pending lists and its effect on the rings is that of the batch.\<close>

lemma submit_ring:
  assumes "ring_contract X V fits" "sq_inv s"
  obtains n x where "submit X t s = Inr (n, s\<lparr>env := x, pending_requests := no_pending\<rparr>)"
    "batch_effect X V fits (request_pool s) (pending_entries (pending_requests s)) (env s) x"
proof -
  let ?es = "pending_entries (pending_requests s)"
  have "entries_ok (request_pool s) ?es" using assms(2) by (simp add: sq_inv_def)
  then obtain x where x: "for_each_entry ?es (prepare_and_count X) (0, s) = Inr (0 + length ?es, s\<lparr>env := x\<rparr>)"
      "batch_effect X V fits (request_pool s) ?es (env s) x"
    by (rule prepare_batch_ring [OF assms(1)])
  let ?s1 = "s\<lparr>env := x, pending_requests := no_pending\<rparr>"
  have prep: "preparePendingRequests X s = Inr (length ?es, ?s1)"
    using x(1) by (simp add: preparePendingRequests_def pending_for_each_def)
  obtain n y where y: "submit X t s = Inr (n, ?s1\<lparr>env := y\<rparr>)"
      "y = env ?s1 \<or> (\<exists>k. ring_moves X V fits k (env ?s1) y) \<or> (\<exists>k z. ring_moves X V fits k (env ?s1) z \<and> ring_moves X V fits 0 z y)"
    by (rule submit_moves [OF assms(1) prep])
  have "batch_effect X V fits (request_pool s) ?es (env s) y"
    using y(2) x(2) batch_effect_moves [OF x(2)] batch_effect_moves [OF batch_effect_moves [OF x(2)]] by auto
  with y(1) show thesis by (intro that) simp_all
qed

lemma life_forget_all: "life good fits pool (P + D) E cs \<Longrightarrow> life good fits pool P E cs"
  by (induction D) (simp_all add: life_forget)

lemma life_prepare_all:
  "life good fits pool (image_mset snd B) E cs \<Longrightarrow> life good fits pool {#} (E + image_mset (entry_calls pool) B) cs"
proof (induction B arbitrary: E)
  case (add e B)
  then obtain r where r: "deref pool (snd e) = Inr r" using life_waiting [OF add.prems] by auto
  then have "life good fits pool (image_mset snd B) (add_mset (entry_calls pool e) E) cs"
    using life_prepare [of good fits pool "snd e" "image_mset snd B" E cs r] add.prems by (simp add: deref_contents)
  from add.IH [OF this] show ?case by simp
qed simp

lemma life_batch:
  assumes "batch_effect X V fits pool es x x'" "life good fits pool (image_mset snd (mset es)) (entries_of V x) (cq_view V x)"
  shows "life good fits pool {#} (entries_of V x') (cq_view V x')"
proof -
  obtain B cs where B: "B \<subseteq># mset es" "cq_view V x' = cq_view V x @ cs"
      "posts fits (entries_of V x + image_mset (entry_calls pool) B) cs (entries_of V x')"
    using assms(1) by (auto simp: batch_effect_def)
  have "image_mset snd (mset es) = image_mset snd B + image_mset snd (mset es - B)"
    using B(1) by (metis image_mset_union subset_mset.add_diff_inverse)
  then have "life good fits pool (image_mset snd B) (entries_of V x) (cq_view V x)"
    using assms(2) life_forget_all by metis
  from life_posts [OF B(3) life_prepare_all [OF this]] B(2) show ?thesis by simp
qed

lemma queue_life_submit:
  assumes "ring_contract X V fits" "queue_life V good fits s (cq_view V (env s))"
  obtains n x where "submit X t s = Inr (n, s\<lparr>env := x, pending_requests := no_pending\<rparr>)"
    "queue_life V good fits (s\<lparr>env := x, pending_requests := no_pending\<rparr>) (cq_view V x)"
    "batch_effect X V fits (request_pool s) (pending_entries (pending_requests s)) (env s) x"
proof -
  have inv: "sq_inv s" and l: "life good fits (request_pool s) (waiting_ptrs s) (entries_of V (env s)) (cq_view V (env s))"
    using assms(2) by (simp_all add: queue_life_def)
  obtain n x where x: "submit X t s = Inr (n, s\<lparr>env := x, pending_requests := no_pending\<rparr>)"
      "batch_effect X V fits (request_pool s) (pending_entries (pending_requests s)) (env s) x"
    by (rule submit_ring [OF assms(1) inv])
  have "queue_life V good fits (s\<lparr>env := x, pending_requests := no_pending\<rparr>) (cq_view V x)"
    using life_batch [OF x(2) l] inv by (simp add: queue_life_def sq_inv_def entries_ok_def)
  with x show thesis by (intro that)
qed

section \<open>What the program may do\<close>

text \<open>
  Whatever the program does to its own state, and adding requests. The first covers callbacks that are
  registered, buffers given back, output; it leaves pool, pending lists and rings alone.
\<close>

inductive program_step ::
    "'x sys \<Rightarrow> 'x ring_view \<Rightarrow> (request \<Rightarrow> bool) \<Rightarrow> ('x, 'z) submission_queue_scheme \<Rightarrow> ('x, 'z) submission_queue_scheme \<Rightarrow> bool"
  for X V good where
  program_own: "request_pool s' = request_pool s \<Longrightarrow> pending_requests s' = pending_requests s \<Longrightarrow>
     same_rings X V (env s) (env s') \<Longrightarrow> program_step X V good s s'"
| program_push: "wf_request r \<Longrightarrow> good r \<Longrightarrow> push r s = Inr s' \<Longrightarrow> program_step X V good s s'"

text \<open>
  A function for the completions, together with an invariant \<open>J\<close> of the program: handling the completion of
  a live request takes such steps only, and with the release of the request keeps \<open>J\<close>, which does not
  depend on the environment and the pending lists.
\<close>

definition callback_ok ::
    "'x sys \<Rightarrow> 'x ring_view \<Rightarrow> (request \<Rightarrow> bool) \<Rightarrow> (sqe_call list \<Rightarrow> cqe \<Rightarrow> bool) \<Rightarrow>
     (('x, 'z) submission_queue_scheme \<Rightarrow> bool) \<Rightarrow>
     (cqe \<Rightarrow> ('x, 'z) submission_queue_scheme \<Rightarrow> stop + ('x, 'z) submission_queue_scheme) \<Rightarrow> bool" where
  "callback_ok X V good fits J f \<longleftrightarrow>
     (\<forall>c cs s s1. J s \<longrightarrow> queue_life V good fits s (c # cs) \<longrightarrow> f c s = Inr s1 \<longrightarrow>
        (program_step X V good)\<^sup>*\<^sup>* s s1 \<and> (\<forall>s2. release c s1 = Inr s2 \<longrightarrow> J s2)) \<and>
     (\<forall>s x q. J s \<longrightarrow> J (s\<lparr>env := x, pending_requests := q\<rparr>))"

lemma callback_okD:
  assumes "callback_ok X V good fits J f"
  shows "J s \<Longrightarrow> queue_life V good fits s (c # cs) \<Longrightarrow> f c s = Inr s1 \<Longrightarrow> (program_step X V good)\<^sup>*\<^sup>* s s1"
    "J s \<Longrightarrow> queue_life V good fits s (c # cs) \<Longrightarrow> f c s = Inr s1 \<Longrightarrow> release c s1 = Inr s2 \<Longrightarrow> J s2"
    "J s \<Longrightarrow> J (s\<lparr>env := x, pending_requests := q\<rparr>)" "J s \<Longrightarrow> J (s\<lparr>env := x\<rparr>)"
proof -
  show 1: "J s \<Longrightarrow> J (s\<lparr>env := x, pending_requests := q\<rparr>)" for q using assms unfolding callback_ok_def by blast
  show "J s \<Longrightarrow> J (s\<lparr>env := x\<rparr>)" using 1 [of "pending_requests s"] by simp
qed (use assms in \<open>unfold callback_ok_def, blast+\<close>)

lemma push_env: "push r s = Inr s' \<Longrightarrow> env s' = env s"
  by (auto simp: push_def res_simps split: prod.splits)

lemma program_step_rings: "program_step X V good s s' \<Longrightarrow> same_rings X V (env s) (env s')"
  by (induction rule: program_step.induct) (simp_all add: push_env)

lemma program_step_life:
  assumes "program_step X V good s s'" "queue_life V good fits s cs"
  shows "queue_life V good fits s' cs"
  using assms
proof (induction rule: program_step.induct)
  case (program_own s' s)
  then show ?case using same_rings_views [of X V "env s" "env s'"] by (simp add: queue_life_def sq_inv_def)
next
  case (program_push r s s')
  then show ?case using queue_life_push by blast
qed

lemma program_steps:
  assumes "(program_step X V good)\<^sup>*\<^sup>* s s'"
  shows "same_rings X V (env s) (env s')" "queue_life V good fits s cs \<Longrightarrow> queue_life V good fits s' cs"
  using assms
proof (induction rule: rtranclp_induct)
  case (step s1 s2)
  { case 1 show ?case using step same_rings_trans program_step_rings by metis }
  { case 2 then show ?case using step program_step_life by metis }
qed simp_all

section \<open>Walking the completions\<close>

lemma reap_life:
  assumes "callback_ok X V good fits J f" "J s" "queue_life V good fits s cs"
  shows "case reap f cs s of
      Inr s' \<Rightarrow> J s' \<and> queue_life V good fits s' [] \<and> same_rings X V (env s) (env s')
    | Inl e \<Rightarrow> \<exists>c ds s1. c \<in> set cs \<and> J s1 \<and> queue_life V good fits s1 (c # ds) \<and> f c s1 = Inl e"
  using assms(2,3)
proof (induction cs arbitrary: s)
  case (Cons c cs)
  show ?case
  proof (cases "f c s")
    case (Inl e)
    with Cons.prems show ?thesis by auto
  next
    case (Inr s1)
    have steps: "(program_step X V good)\<^sup>*\<^sup>* s s1" by (rule callback_okD(1) [OF assms(1) Cons.prems Inr])
    obtain pool where pool: "release c s1 = Inr (s1\<lparr>request_pool := pool\<rparr>)" "queue_life V good fits (s1\<lparr>request_pool := pool\<rparr>) cs"
      by (rule queue_life_release [OF program_steps(2) [OF steps Cons.prems(2)]])
    let ?s2 = "s1\<lparr>request_pool := pool\<rparr>"
    have J: "J ?s2" by (rule callback_okD(2) [OF assms(1) Cons.prems Inr pool(1)])
    have reap: "reap f (c # cs) s = reap f cs ?s2" using Inr pool(1) by simp
    have rings: "same_rings X V (env s) (env ?s2)" using program_steps(1) [OF steps] by simp
    show ?thesis
      using Cons.IH [OF J pool(2)] same_rings_trans [OF rings] unfolding reap
      by (cases "reap f cs ?s2") auto
  qed
qed simp

lemma walk_ok:
  assumes "callback_ok X V good fits J f"
  shows "walk_keeps_cq X (cq_view V) (\<lambda>cs s. J s \<and> queue_life V good fits s cs) f"
  unfolding walk_keeps_cq_def
proof (intro allI impI)
  fix c cs s s1 s2 assume K: "J s \<and> queue_life V good fits s (c # cs)" and s1: "f c s = Inr s1" "release c s1 = Inr s2"
  then have steps: "(program_step X V good)\<^sup>*\<^sup>* s s1" and J: "J s2" using callback_okD(1,2) [OF assms] by blast+
  have "queue_life V good fits s2 cs"
    by (rule queue_life_release [OF program_steps(2) [OF steps conjunct2 [OF K]]]) (use s1(2) in simp)
  with J program_steps(1) [OF steps]
  show "(J s2 \<and> queue_life V good fits s2 cs) \<and> cq_view V (env s1) = cq_view V (env s) \<and> cq_khead X (env s1) = cq_khead X (env s)"
    by (simp add: same_rings_def)
qed

text \<open>The walk comes back; only the callback itself can stop it, on a completion whose request is alive.\<close>

lemma forEachCompletion_life:
  assumes "ring_contract X V fits" "callback_ok X V good fits J f" "J s" "queue_life V good fits s (cq_view V (env s))"
  obtains (returns) s1 x where "reap f (cq_view V (env s)) s = Inr s1" "forEachCompletion X f s = Some (Inr (s1\<lparr>env := x\<rparr>))"
      "same_rings X V (env s) (env s1)" "sq_view V x = sq_view V (env s1)" "flight_view V x = flight_view V (env s1)"
      "cq_view V x = []" "queue_life V good fits (s1\<lparr>env := x\<rparr>) []" "J (s1\<lparr>env := x\<rparr>)"
  | (stops) e c ds s1 where "forEachCompletion X f s = Some (Inl e)" "c \<in> set (cq_view V (env s))"
      "J s1" "queue_life V good fits s1 (c # ds)" "f c s1 = Inl e"
proof (cases "reap f (cq_view V (env s)) s")
  case (Inl e)
  then obtain c ds s1 where "c \<in> set (cq_view V (env s))" "J s1" "queue_life V good fits s1 (c # ds)" "f c s1 = Inl e"
    using reap_life [OF assms(2-4)] by auto
  moreover have "forEachCompletion X f s = Some (Inl e)"
    using forEachCompletion_reap [OF ring_cq [OF assms(1)] walk_ok [OF assms(2)], of s] assms(3,4) Inl by simp
  ultimately show thesis by (intro stops)
next
  case (Inr s1)
  let ?n = "length (cq_view V (env s))"
  let ?x = "if cq_view V (env s) = [] then env s1 else io_uring_cq_advance X (word_of_nat ?n) (env s1)"
  have s1: "queue_life V good fits s1 []" "same_rings X V (env s) (env s1)" "J s1"
    using reap_life [OF assms(2-4)] Inr by auto
  have cq: "cq_view V (env s1) = cq_view V (env s)" using s1(2) by (simp add: same_rings_def)
  have "unat (word_of_nat ?n :: 32 word) = ?n"
    using ring_cq [OF assms(1)] by (intro unat_of_nat_small) (simp add: cq_contract_def)
  then have "cq_view V ?x = []" using ring_cq [OF assms(1)] cq by (simp add: cq_contract_def)
  moreover have x: "sq_view V ?x = sq_view V (env s1)" "flight_view V ?x = flight_view V (env s1)"
    using ring_advance [OF assms(1)] by simp_all
  moreover have "queue_life V good fits (s1\<lparr>env := ?x\<rparr>) []"
    using s1(1) x by (simp add: queue_life_def sq_inv_def entries_of_def cong: if_cong)
  moreover have "forEachCompletion X f s = Some (Inr (s1\<lparr>env := ?x\<rparr>))"
    using forEachCompletion_reap [OF ring_cq [OF assms(1)] walk_ok [OF assms(2)], of s] assms(3,4) Inr by simp
  moreover have "J (s1\<lparr>env := ?x\<rparr>)" by (rule callback_okD(4) [OF assms(2) s1(3)])
  ultimately show thesis using Inr s1(2) by (intro returns)
qed

section \<open>The steps of the system\<close>

text \<open>
  In any order: the program acts (keeping its invariant), the loop submits, the kernel posts completions of entries it has, the
  loop walks the completions with \<open>f\<close>.
\<close>

inductive queue_step ::
    "'x sys \<Rightarrow> 'x ring_view \<Rightarrow> (request \<Rightarrow> bool) \<Rightarrow> (sqe_call list \<Rightarrow> cqe \<Rightarrow> bool) \<Rightarrow> (('x, 'z) submission_queue_scheme \<Rightarrow> bool) \<Rightarrow>
     (cqe \<Rightarrow> ('x, 'z) submission_queue_scheme \<Rightarrow> stop + ('x, 'z) submission_queue_scheme) \<Rightarrow>
     ('x, 'z) submission_queue_scheme \<Rightarrow> ('x, 'z) submission_queue_scheme \<Rightarrow> bool"
  for X V good fits J f where
  by_program: "program_step X V good s s' \<Longrightarrow> J s' \<Longrightarrow> queue_step X V good fits J f s s'"
| by_submit: "submit X t s = Inr (n, s') \<Longrightarrow> queue_step X V good fits J f s s'"
| by_kernel: "ring_moves X V fits 0 (env s) x \<Longrightarrow> queue_step X V good fits J f s (s\<lparr>env := x\<rparr>)"
| by_walk: "forEachCompletion X f s = Some (Inr s') \<Longrightarrow> queue_step X V good fits J f s s'"

definition queue_ok ::
    "'x sys \<Rightarrow> 'x ring_view \<Rightarrow> (request \<Rightarrow> bool) \<Rightarrow> (sqe_call list \<Rightarrow> cqe \<Rightarrow> bool) \<Rightarrow> (('x, 'z) submission_queue_scheme \<Rightarrow> bool) \<Rightarrow>
     (cqe \<Rightarrow> ('x, 'z) submission_queue_scheme \<Rightarrow> stop + ('x, 'z) submission_queue_scheme) \<Rightarrow>
     ('x, 'z) submission_queue_scheme \<Rightarrow> bool" where
  "queue_ok X V good fits J f s \<longleftrightarrow>
     ring_contract X V fits \<and> callback_ok X V good fits J f \<and> J s \<and> queue_life V good fits s (cq_view V (env s))"

lemma queue_life_moves:
  assumes "ring_moves X V fits k (env s) x" "queue_life V good fits s (cq_view V (env s))"
  shows "queue_life V good fits (s\<lparr>env := x\<rparr>) (cq_view V x)"
proof -
  obtain cs where "cq_view V x = cq_view V (env s) @ cs" "posts fits (entries_of V (env s)) cs (entries_of V x)"
    by (rule ring_moves_entries [OF assms(1)])
  with assms(2) show ?thesis by (simp add: queue_life_def sq_inv_def life_posts)
qed

lemma queue_step_ok:
  assumes "queue_ok X V good fits J f s" "queue_step X V good fits J f s s'"
  shows "queue_ok X V good fits J f s'"
  using assms(2,1)
proof (induction rule: queue_step.induct)
  case (by_program s s')
  then show ?case
    using program_step_life [OF by_program.hyps(1)] program_step_rings [OF by_program.hyps(1)] by_program.hyps(2)
    by (auto simp: queue_ok_def same_rings_def)
next
  case (by_submit t s n s')
  then have "ring_contract X V fits" "queue_life V good fits s (cq_view V (env s))" by (simp_all add: queue_ok_def)
  then obtain m x where "submit X t s = Inr (m, s\<lparr>env := x, pending_requests := no_pending\<rparr>)"
      "queue_life V good fits (s\<lparr>env := x, pending_requests := no_pending\<rparr>) (cq_view V x)"
    by (rule queue_life_submit)
  with by_submit show ?case using callback_okD(3) [of X V good fits J f s] by (auto simp: queue_ok_def)
next
  case (by_kernel s x)
  then show ?case using queue_life_moves callback_okD(4) [of X V good fits J f s] by (auto simp: queue_ok_def)
next
  case (by_walk s s')
  then have "ring_contract X V fits" "callback_ok X V good fits J f" "J s" "queue_life V good fits s (cq_view V (env s))"
    by (simp_all add: queue_ok_def)
  then show ?case
    by (cases rule: forEachCompletion_life) (use by_walk in \<open>auto simp: queue_ok_def\<close>)
qed

interpretation queue: step_invariant "queue_step X V good fits J f" "queue_ok X V good fits J f" for X V good fits J f
  by unfold_locales (rule queue_step_ok)

section \<open>A run to apply the theorems to\<close>

text \<open>The write of \<open>sample_queue\<close> is in flight; then the kernel completes it.\<close>

definition flying_queue :: "ref_env submission_queue" where
  "flying_queue = sample_queue\<lparr>pending_requests := no_pending, env := ref_init\<lparr>ref_submitted := [request_calls 1 sample_write]\<rparr>\<rparr>"

definition landed_env :: ref_env where
  "landed_env = ref_init\<lparr>ref_cq := [\<lparr>cqe_user_data = 1, cqe_res = 13, cqe_flags = 0\<rparr>]\<rparr>"

abbreviation (input) any_request :: "request \<Rightarrow> bool" where "any_request \<equiv> (\<lambda>_. True)"
abbreviation (input) any_result :: "sqe_call list \<Rightarrow> cqe \<Rightarrow> bool" where "any_result \<equiv> (\<lambda>_ _. True)"
abbreviation (input) any_state :: "ref_env submission_queue \<Rightarrow> bool" where "any_state \<equiv> (\<lambda>_. True)"
abbreviation (input) no_callback :: "cqe \<Rightarrow> ref_env submission_queue \<Rightarrow> stop + ref_env submission_queue" where
  "no_callback \<equiv> (\<lambda>_ s. Inr s)"

lemma flying_queue_views:
  "entries_of ref_view (env flying_queue) = {#request_calls 1 sample_write#}" "ref_cq_view (env flying_queue) = []"
  "pending_requests flying_queue = no_pending" "request_pool flying_queue = sample_pool"
  by (simp_all add: flying_queue_def entries_of_def ref_init_def ref_cq_view_def sample_queue_def)

lemma flying_queue_ok: "queue_ok (ref_sys 4) ref_view any_request any_result any_state no_callback flying_queue"
proof -
  have "deref sample_pool 1 = Inr sample_write" by (simp add: deref_contents sample_contents)
  then have "life any_request any_result sample_pool {#} {#request_calls 1 sample_write#} []"
    by (intro lifeI) (auto simp: claims_def)
  moreover have "sq_inv flying_queue"
    using sample_pool_inv by (simp add: sq_inv_def flying_queue_views entries_ok_def)
  ultimately show ?thesis
    by (simp add: queue_ok_def queue_life_def flying_queue_views ref_ring_contract callback_ok_def)
qed

lemma flying_queue_lands:
  "queue_step (ref_sys 4) ref_view any_request any_result any_state no_callback flying_queue (flying_queue\<lparr>env := landed_env\<rparr>)"
proof (rule by_kernel)
  let ?c = "\<lparr>cqe_user_data = 1, cqe_res = 13, cqe_flags = 0\<rparr>"
  have "posts any_result {#request_calls 1 sample_write#} [?c] {#}"
    by (rule post_last [of "request_calls 1 sample_write"]) (auto intro: post_none)
  then show "ring_moves (ref_sys 4) ref_view any_result 0 (env flying_queue) landed_env"
    by (auto simp: ring_moves_def flying_queue_def landed_env_def ref_init_def ref_cq_view_def ref_sys_def)
qed

section \<open>Properties\<close>

text \<open>C6. Memory safety of requests. Start from any state in which the invariant holds (a new queue, for
  instance) and let the program, the submitting loop, the kernel and the walk over completions act in any
  order. Then \<open>submit\<close> returns, and the walk over the completions returns as well; the only thing that can
  stop it is the function it calls, and that is called on completions whose user data is the address of a
  live, well-formed request which the result fits. No request is read or freed after its block was freed,
  none is freed twice or with a wrong size, no completion has a foreign or null address.\<close>

theorem queue_never_touches_dead_requests:
  assumes "queue_ok X V good fits J f s0" "(queue_step X V good fits J f)\<^sup>*\<^sup>* s0 s"
  shows "(\<exists>n s'. submit X t s = Inr (n, s')) \<and>
    (\<exists>res. forEachCompletion X f s = Some res \<and>
      (\<forall>e. res = Inl e \<longrightarrow> (\<exists>c s1 r. c \<in> set (cq_view V (env s)) \<and> f c s1 = Inl e \<and>
         deref (request_pool s1) (cqe_user_data c) = Inr r \<and> wf_request r \<and> good r \<and> fits (request_calls (cqe_user_data c) r) c)))"
proof -
  have ok: "ring_contract X V fits" "callback_ok X V good fits J f" "J s" "queue_life V good fits s (cq_view V (env s))"
    using queue.run_inv [OF assms(2,1)] by (simp_all add: queue_ok_def)
  have "\<exists>n s'. submit X t s = Inr (n, s')" by (rule queue_life_submit [OF ok(1,4), of t]) blast
  moreover from ok have "\<exists>res. forEachCompletion X f s = Some res \<and>
      (\<forall>e. res = Inl e \<longrightarrow> (\<exists>c s1 r. c \<in> set (cq_view V (env s)) \<and> f c s1 = Inl e \<and>
         deref (request_pool s1) (cqe_user_data c) = Inr r \<and> wf_request r \<and> good r \<and> fits (request_calls (cqe_user_data c) r) c))"
  proof (cases rule: forEachCompletion_life)
    case (stops e c ds s1)
    then have l: "sq_inv s1" "life good fits (request_pool s1) (waiting_ptrs s1) (entries_of V (env s1)) (c # ds)"
      by (simp_all add: queue_life_def)
    obtain r where r: "deref (request_pool s1) (cqe_user_data c) = Inr r" "fits (request_calls (cqe_user_data c) r) c"
      using life_completion [OF l(2), of c] by auto
    then have "wf_request r" "good r"
      using l(1) life_good [OF l(2)] by (auto simp: sq_inv_def typed_pool_def deref_contents)
    with stops r show ?thesis by blast
  qed simp
  ultimately show ?thesis by blast
qed

theorem queue_never_touches_dead_requests_witness:
  "queue_ok (ref_sys 4) ref_view any_request any_result any_state no_callback flying_queue \<and>
   (\<exists>s'. forEachCompletion (ref_sys 4) no_callback (flying_queue\<lparr>env := landed_env\<rparr>) = Some (Inr s'))"
proof -
  have "\<exists>res. forEachCompletion (ref_sys 4) no_callback (flying_queue\<lparr>env := landed_env\<rparr>) = Some res \<and> (\<forall>e. res \<noteq> Inl e)"
    using queue_never_touches_dead_requests [OF flying_queue_ok r_into_rtranclp [of "queue_step _ _ _ _ _ _", OF flying_queue_lands]] by auto
  then show ?thesis using flying_queue_ok by (metis sum.exhaust)
qed

end
