(* ===== verification/Loop_Safety.thy ===== *)
theory Loop_Safety
  imports Event_Loop Request_Life
begin

text \<open>
  The event loop under the contract its documentation asks of a program: the subscriber of a request
  outlives its completion (the warning at \<open>EventLoop::add\<close>), and callbacks do nothing to the rings but add
  requests. Then no turn of \<open>run\<close> reads freed memory, deadlocks, fails an assertion or leaves a buffer's
  bounds: whatever the kernel posts, the only thing that can stop the loop is a callback of the program
  that stops by itself.
\<close>

section \<open>What the kernel and the program promise\<close>

text \<open>
  Results fit what was asked for: never more bytes than the length of the operation, and a multi-shot read
  that succeeds names a buffer of the ring and fits into it.
\<close>

primrec call_fits :: "span list \<Rightarrow> cqe \<Rightarrow> sqe_call \<Rightarrow> bool" where
  "call_fits bufs c (Prep_multishot_accept fd) = True"
| "call_fits bufs c (Prep_connect fd a n) = True"
| "call_fits bufs c (Prep_write fd a n off) = (cqe_res c \<le> uint n)"
| "call_fits bufs c (Prep_read fd a n off) = (cqe_res c \<le> uint n)"
| "call_fits bufs c (Or_sqe_flags fl) = True"
| "call_fits bufs c (Set_buf_group g) = True"
| "call_fits bufs c (Prep_read_multishot fd n off g) =
     (0 \<le> cqe_res c \<longrightarrow> cqe_buffer_id c < length bufs \<and> cqe_res c \<le> int (sp_len (bufs ! cqe_buffer_id c)))"
| "call_fits bufs c (Prep_cancel_fd fd fl) = True"
| "call_fits bufs c (Set_data p) = True"

definition kernel_fits :: "span list \<Rightarrow> sqe_call list \<Rightarrow> cqe \<Rightarrow> bool" where
  "kernel_fits bufs e c = list_all (call_fits bufs c) e"

text \<open>A request that may be added: it has a subscriber, and a buffer whose length is an \<open>int\<close>.\<close>

definition good_request :: "request \<Rightarrow> bool" where
  "good_request r \<longleftrightarrow> user_data (header r) \<noteq> nullptr \<and>
     (case r of ReadR q \<Rightarrow> sp_len (reception_buffer q) < 2 ^ 31 | WriteR q \<Rightarrow> sp_len (bytes_written q) < 2 ^ 31 | _ \<Rightarrow> True)"

lemma kernel_fits_result:
  assumes "kernel_fits bufs (request_calls a r) c" "good_request r" "length bufs < 2 ^ 31" "0 \<le> cqe_res c"
  shows "result_fits c bufs r"
proof -
  have "uint (word_of_nat n :: 32 word) = int n" if "n < 2 ^ 31" for n
    using that by (simp add: unsigned_of_nat take_bit_nat_eq_self)
  with assms show ?thesis by (cases r) (auto simp: kernel_fits_def good_request_def)
qed

section \<open>The invariant of the program's world\<close>

text \<open>The callbacks each live subscriber holds.\<close>

definition registered :: "('x, 'c, 'z) event_loop_scheme \<Rightarrow> ptr \<Rightarrow> (event_type \<Rightarrow> 'c option) option" where
  "registered w p = map_option handlers (contents (subscribers w) p)"

text \<open>
  Exactly the subscribers in \<open>H\<close> are locked; the requests \<open>m\<close> have live subscribers; \<open>I\<close> is the program's own
  invariant, on the fields it adds to the loop, the flag, the registered callbacks and the requests.
\<close>

definition world_ok ::
    "span list \<Rightarrow> (('x, 'c, 'z) event_loop_scheme \<Rightarrow> (ptr \<rightharpoonup> request) \<Rightarrow> bool) \<Rightarrow> ptr set \<Rightarrow>
     (ptr \<rightharpoonup> request) \<Rightarrow> ('x, 'c, 'z) event_loop_scheme \<Rightarrow> bool" where
  "world_ok bufs I H m w \<longleftrightarrow>
     pool_inv (subscribers w) \<and> H \<subseteq> dom (contents (subscribers w)) \<and>
     (\<forall>p h. contents (subscribers w) p = Some h \<longrightarrow> (mutex_held h \<longleftrightarrow> p \<in> H)) \<and>
     (\<forall>a r. m a = Some r \<longrightarrow> user_data (header r) \<in> dom (contents (subscribers w))) \<and>
     ring_buffers w = bufs \<and> default_errors w \<and> I w m"

text \<open>It depends on nothing else, and losing requests does not hurt it.\<close>

definition program_invariant :: "(('x, 'c, 'z) event_loop_scheme \<Rightarrow> (ptr \<rightharpoonup> request) \<Rightarrow> bool) \<Rightarrow> bool" where
  "program_invariant I \<longleftrightarrow> (\<forall>w w' m m'. I w m \<longrightarrow> event_loop.more w' = event_loop.more w \<longrightarrow>
     should_continue w' = should_continue w \<longrightarrow> registered w' = registered w \<longrightarrow> m' \<subseteq>\<^sub>m m \<longrightarrow> I w' m')"

definition released :: "ptr \<Rightarrow> request \<Rightarrow> (ptr \<rightharpoonup> request) \<Rightarrow> ptr \<rightharpoonup> request" where
  "released a r m = (if single_shot (kind r) then m(a := None) else m)"

text \<open>The events a subscriber may be given for a request.\<close>

definition may_see :: "span list \<Rightarrow> request \<Rightarrow> event \<Rightarrow> bool" where
  "may_see bufs r e \<longleftrightarrow> (\<exists>n>0. e = ErrorEvent n) \<or>
     (\<exists>c. 0 \<le> cqe_res c \<and> result_fits c bufs r \<and> e = completion_event c bufs r)"

text \<open>The state in which the callback \<open>f\<close> of the subscriber \<open>p\<close> is run for the request \<open>r\<close> at \<open>a\<close>.\<close>

definition callback_state ::
    "span list \<Rightarrow> (('x, 'c, 'z) event_loop_scheme \<Rightarrow> (ptr \<rightharpoonup> request) \<Rightarrow> bool) \<Rightarrow>
     ptr \<Rightarrow> ptr \<Rightarrow> request \<Rightarrow> 'c \<Rightarrow> event \<Rightarrow> ('x, 'c, 'z) event_loop_scheme \<Rightarrow> bool" where
  "callback_state bufs I p a r f e w \<longleftrightarrow>
     world_ok bufs I {p} (contents (request_pool w)) w \<and> sq_inv w \<and> contents (request_pool w) a = Some r \<and>
     user_data (header r) = p \<and> may_see bufs r e \<and>
     (\<exists>g. registered w p = Some g \<and> g (type_of e) = Some f)"

text \<open>
  What a callback must do: only steps of a program, and the world is in order again once the completed
  request is gone.
\<close>

definition well_behaved ::
    "'x sys \<Rightarrow> 'x ring_view \<Rightarrow> span list \<Rightarrow> (('x, 'c, 'z) event_loop_scheme \<Rightarrow> (ptr \<rightharpoonup> request) \<Rightarrow> bool) \<Rightarrow>
     ('c \<Rightarrow> event \<Rightarrow> ('x, 'c, 'z) event_loop_scheme \<Rightarrow> stop + ('x, 'c, 'z) event_loop_scheme) \<Rightarrow> bool" where
  "well_behaved X V bufs I cb \<longleftrightarrow>
     (\<forall>p a r f e w w'. callback_state bufs I p a r f e w \<longrightarrow> cb f e w = Inr w' \<longrightarrow>
        (program_step X V good_request)\<^sup>*\<^sup>* w w' \<and>
        world_ok bufs I {p} (released a r (contents (request_pool w'))) w')"

text \<open>A stop that a callback causes, as it leaves the \<open>noexcept\<close> function \<open>handle\<close>.\<close>

definition callback_stops ::
    "span list \<Rightarrow> (('x, 'c, 'z) event_loop_scheme \<Rightarrow> (ptr \<rightharpoonup> request) \<Rightarrow> bool) \<Rightarrow>
     ('c \<Rightarrow> event \<Rightarrow> ('x, 'c, 'z) event_loop_scheme \<Rightarrow> stop + ('x, 'c, 'z) event_loop_scheme) \<Rightarrow> stop \<Rightarrow> bool" where
  "callback_stops bufs I cb s \<longleftrightarrow>
     (\<exists>p a r f e w. callback_state bufs I p a r f e w \<and> noexceptE (cb f e w) = Inl s)"

lemma world_okD:
  assumes "world_ok bufs I H m w"
  shows "pool_inv (subscribers w)" "p \<in> H \<Longrightarrow> \<exists>h. contents (subscribers w) p = Some h"
    "contents (subscribers w) p = Some h \<Longrightarrow> mutex_held h \<longleftrightarrow> p \<in> H"
    "m a = Some r \<Longrightarrow> \<exists>h. contents (subscribers w) (user_data (header r)) = Some h"
    "ring_buffers w = bufs" "default_errors w" "I w m"
  using assms unfolding world_ok_def by blast+

lemma program_invariantD:
  "program_invariant I \<Longrightarrow> I w m \<Longrightarrow> event_loop.more w' = event_loop.more w \<Longrightarrow> should_continue w' = should_continue w \<Longrightarrow>
   registered w' = registered w \<Longrightarrow> m' \<subseteq>\<^sub>m m \<Longrightarrow> I w' m'"
  unfolding program_invariant_def by blast

lemma world_ok_mono:
  assumes "program_invariant I" "world_ok bufs I H m w" "m' \<subseteq>\<^sub>m m"
  shows "world_ok bufs I H m' w"
proof -
  have "m a = Some r" if "m' a = Some r" for a r using that assms(3) by (metis domI map_le_def)
  moreover have "I w m'" by (rule program_invariantD [OF assms(1) world_okD(7) [OF assms(2)] refl refl refl assms(3)])
  ultimately show ?thesis using assms(2) unfolding world_ok_def by blast
qed

lemma released_le: "released a r m \<subseteq>\<^sub>m m"
  by (simp add: released_def map_le_def)

text \<open>The world depends on neither rings, requests, pending lists nor output.\<close>

lemma world_ok_same:
  assumes "program_invariant I" "world_ok bufs I H m w" "event_loop.more w' = event_loop.more w"
    "should_continue w' = should_continue w" "subscribers w' = subscribers w" "ring_buffers w' = ring_buffers w" "error_handler w' = error_handler w"
  shows "world_ok bufs I H m w'"
proof -
  have "I w' m"
    by (rule program_invariantD [OF assms(1) world_okD(7) [OF assms(2)] assms(3,4)])
      (simp_all add: registered_def fun_eq_iff assms(5) map_le_def)
  then show ?thesis using assms(2) by (simp add: world_ok_def default_errors_def assms(5-7))
qed

lemma world_ok_frame:
  assumes "program_invariant I" "world_ok bufs I H m w"
  shows "world_ok bufs I H m (w\<lparr>env := x\<rparr>)" "world_ok bufs I H m (w\<lparr>env := x, pending_requests := q\<rparr>)"
    "world_ok bufs I H m (w\<lparr>request_pool := rp\<rparr>)" "world_ok bufs I H m (w\<lparr>cerr := t\<rparr>)"
  by (rule world_ok_same [OF assms]; simp)+

text \<open>Taking and giving back a subscriber's mutex.\<close>

lemma set_mutex:
  assumes "world_ok bufs I H m w" "contents (subscribers w) p = Some h" "program_invariant I"
  obtains pool where "put_subscriber p (h\<lparr>mutex_held := b\<rparr>) w = Inr (w\<lparr>subscribers := pool\<rparr>)"
    "contents pool = (contents (subscribers w))(p \<mapsto> h\<lparr>mutex_held := b\<rparr>)"
    "world_ok bufs I (if b then insert p H else H - {p}) m (w\<lparr>subscribers := pool\<rparr>)"
proof -
  have inv: "pool_inv (subscribers w)" by (rule world_okD(1) [OF assms(1)])
  have "p \<noteq> nullptr" using pool_inv_live_nonnull [OF inv] contents_live [OF assms(2)] by blast
  then have "deref (subscribers w) p = Inr h" using assms(2) by (simp add: deref_contents)
  then obtain pool where pool: "store p (h\<lparr>mutex_held := b\<rparr>) (subscribers w) = Inr pool" "pool_inv pool"
      "contents pool = (contents (subscribers w))(p \<mapsto> h\<lparr>mutex_held := b\<rparr>)"
    using store_deref [OF inv] by metis
  have "registered (w\<lparr>subscribers := pool\<rparr>) = registered w"
    using pool(3) assms(2) by (auto simp: registered_def fun_eq_iff)
  then have "I (w\<lparr>subscribers := pool\<rparr>) m"
    by (intro program_invariantD [OF assms(3) world_okD(7) [OF assms(1)]]) simp_all
  then have "world_ok bufs I (if b then insert p H else H - {p}) m (w\<lparr>subscribers := pool\<rparr>)"
    using assms(1,2) pool(2,3) by (fastforce simp: world_ok_def default_errors_def)
  with pool show thesis by (intro that [of pool]) (simp_all add: put_subscriber_def)
qed

text \<open>Registering a callback touches one subscriber.\<close>

lemma subscriber_on_contents:
  assumes "pool_inv (subscribers w)" "contents (subscribers w) p = Some h" "\<not> mutex_held h"
  obtains pool where "subscriber_on p t f w = Inr (w\<lparr>subscribers := pool\<rparr>)" "pool_inv pool"
    "contents pool = (contents (subscribers w))(p \<mapsto> h\<lparr>handlers := (handlers h)(t \<mapsto> f)\<rparr>)"
proof -
  let ?h = "h\<lparr>handlers := (handlers h)(t \<mapsto> f)\<rparr>"
  have "p \<noteq> nullptr" using pool_inv_live_nonnull [OF assms(1)] contents_live [OF assms(2)] by blast
  then have d: "deref (subscribers w) p = Inr h" using assms(2) by (simp add: deref_contents)
  obtain pool where pool: "store p ?h (subscribers w) = Inr pool" "pool_inv pool"
      "contents pool = (contents (subscribers w))(p \<mapsto> ?h)"
    using store_deref [OF assms(1) d] by metis
  have "unlock (h\<lparr>mutex_held := True, handlers := (handlers h)(t \<mapsto> f)\<rparr>) = ?h"
    using assms(3) by (simp add: unlock_def)
  with pool d assms(3) show thesis
    by (intro that [of pool]) (simp_all add: subscriber_on_def on_def get_subscriber_def put_subscriber_def lock_def)
qed

section \<open>Handling one completion\<close>

lemma program_steps_own:
  assumes "(program_step X V good)\<^sup>*\<^sup>* s s1" "request_pool s2 = request_pool s1" "pending_requests s2 = pending_requests s1"
    "same_rings X V (env s1) (env s2)"
  shows "(program_step X V good)\<^sup>*\<^sup>* s s2"
  using assms(1) program_own [OF assms(2-4)] by (rule rtranclp.rtrancl_into_rtrancl)

text \<open>The program never takes a request away.\<close>

lemma program_steps_keep:
  assumes "(program_step X V good)\<^sup>*\<^sup>* s s'" "sq_inv s"
  shows "sq_inv s' \<and> contents (request_pool s) \<subseteq>\<^sub>m contents (request_pool s')"
  using assms
proof (induction rule: rtranclp_induct)
  case (step s1 s2)
  then have inv: "sq_inv s1" and le: "contents (request_pool s) \<subseteq>\<^sub>m contents (request_pool s1)" by simp_all
  from step.hyps(2) have "sq_inv s2 \<and> contents (request_pool s1) \<subseteq>\<^sub>m contents (request_pool s2)"
  proof cases
    case program_own
    with inv show ?thesis by (simp add: sq_inv_def map_le_def)
  next
    case (program_push r)
    obtain p pool where p: "push r s1 = Inr (s1\<lparr>request_pool := pool, pending_requests := pending_push (kind r) p (pending_requests s1)\<rparr>)"
        "block_size (request_pool s1) p = None" "contents pool = (contents (request_pool s1))(p \<mapsto> r)"
        "sq_inv (s1\<lparr>request_pool := pool, pending_requests := pending_push (kind r) p (pending_requests s1)\<rparr>)"
      by (rule push_spec [OF inv program_push(1)])
    have "contents (request_pool s1) p = None" using p(2) pool.value_sized by fastforce
    with p program_push(3) show ?thesis by (auto simp: map_le_def)
  qed
  with le show ?case using map_le_trans by blast
qed (simp add: map_le_def)

lemma get_subscriber_contents:
  assumes "world_ok bufs I H m w" "contents (subscribers w) p = Some h"
  shows "get_subscriber p w = Inr h"
  using assms pool_inv_live_nonnull [OF world_okD(1) [OF assms(1)] contents_live [OF assms(2)]]
  by (simp add: get_subscriber_def deref_contents)

lemma br_release_step:
  assumes "ring_contract X V fits" "cqe_buffer_id c < length (ring_buffers w)"
  obtains x where "br_release X c w = Inr (w\<lparr>env := x\<rparr>)" "same_rings X V (env w) x"
  using assms(2) same_rings_trans [OF ring_buf_add [OF assms(1)] ring_buf_advance [OF assms(1)]]
  by (intro that) (simp_all add: br_release_eq add_buffer_def Let_def)

abbreviation world_inv ::
    "span list \<Rightarrow> (('x, 'c, 'z) event_loop_scheme \<Rightarrow> (ptr \<rightharpoonup> request) \<Rightarrow> bool) \<Rightarrow> ('x, 'c, 'z) event_loop_scheme \<Rightarrow> bool" where
  "world_inv bufs I w \<equiv> world_ok bufs I {} (contents (request_pool w)) w"

lemma completion_request:
  assumes "queue_life V good fits w (c # cs)"
  obtains r where "sq_inv w" "contents (request_pool w) (cqe_user_data c) = Some r" "good r" "wf_request r"
    "fits (request_calls (cqe_user_data c) r) c"
proof -
  have l: "sq_inv w" "life good fits (request_pool w) (waiting_ptrs w) (entries_of V (env w)) (c # cs)"
    using assms by (simp_all add: queue_life_def)
  obtain r where r: "deref (request_pool w) (cqe_user_data c) = Inr r" "fits (request_calls (cqe_user_data c) r) c"
    using life_completion [OF l(2), of c] by auto
  then show thesis
    using l(1) life_good [OF l(2) r(1)]
    by (intro that [of r]) (auto simp: deref_contents sq_inv_def typed_pool_def)
qed

lemma release_contents:
  assumes "sq_inv s" "contents (request_pool s) (cqe_user_data c) = Some r" "release c s = Inr s'"
  shows "contents (request_pool s') = released (cqe_user_data c) r (contents (request_pool s))"
proof -
  have d: "deref (request_pool s) (cqe_user_data c) = Inr r" "wf_request r"
    using assms(1,2) contents_live [OF assms(2)] pool_inv_live_nonnull [of "request_pool s" "cqe_user_data c"]
    by (auto simp: sq_inv_def typed_pool_def deref_contents)
  show ?thesis
  proof (cases "single_shot (kind r)")
    case True
    show ?thesis
      by (rule release_single_shot [OF assms(1) d(1) True, of ?thesis]) (use assms(3) True in \<open>simp add: released_def\<close>)
  next
    case False
    with release_multishot [OF d False] assms(3) show ?thesis by (simp add: released_def)
  qed
qed

text \<open>
  A state of the loop in order: the contract holds of the environment, the queue's life-cycle
  invariant and the world's hold of the state.
\<close>

definition loop_ok ::
    "'x sys \<Rightarrow> 'x ring_view \<Rightarrow> span list \<Rightarrow> (('x, 'c, 'z) event_loop_scheme \<Rightarrow> (ptr \<rightharpoonup> request) \<Rightarrow> bool) \<Rightarrow>
     ('x, 'c, 'z) event_loop_scheme \<Rightarrow> bool" where
  "loop_ok X V bufs I w \<longleftrightarrow>
     ring_contract X V (kernel_fits bufs) \<and> length bufs < 2 ^ 31 \<and>
     world_inv bufs I w \<and> queue_life V good_request (kernel_fits bufs) w (cq_view V (env w))"

lemma error_handle_event_default:
  assumes "default_errors w"
  shows "error_handle_event cb (Error_of_event X n) w = Inr (w\<lparr>cerr := cerr w @ sys_strerror X n\<rparr>)"
  using error_handle_default [OF assms, of cb "sys_strerror X n"]
  by (simp add: error_handle_def error_handle_event_def Error_of_event_def)

section \<open>Programs on the loop\<close>

text \<open>
  The contract between the loop and a program, as an interface: an invariant of the program that its
  callbacks keep. What the loop gives in return is proved once, for every such program.
\<close>

locale loop_program =
  fixes X :: "'x sys" and V :: "'x ring_view" and bufs :: "span list"
    and I :: "('x, 'c, 'z) event_loop_scheme \<Rightarrow> (ptr \<rightharpoonup> request) \<Rightarrow> bool"
    and cb :: "'c \<Rightarrow> event \<Rightarrow> ('x, 'c, 'z) event_loop_scheme \<Rightarrow> stop + ('x, 'c, 'z) event_loop_scheme"
  assumes invariant: "program_invariant I"
    and behaves: "well_behaved X V bufs I cb"
begin

text \<open>Handing an event to the subscriber of a request.\<close>

lemma handle_world:
  assumes "world_ok bufs I {} (contents (request_pool w)) w" "sq_inv w"
    "contents (request_pool w) a = Some r" "may_see bufs r e"
  shows "(\<exists>w'. subscriber_handle cb (user_data (header r)) e w = Inr w' \<and> (program_step X V good_request)\<^sup>*\<^sup>* w w' \<and>
      world_ok bufs I {} (released a r (contents (request_pool w'))) w') \<or>
    (\<exists>s. subscriber_handle cb (user_data (header r)) e w = Inl s \<and> callback_stops bufs I cb s)"
proof -
  let ?p = "user_data (header r)"
  obtain h where h: "contents (subscribers w) ?p = Some h" using world_okD(4) [OF assms(1,3)] by blast
  note get = get_subscriber_contents [OF assms(1) h] and inv = world_okD(1) [OF assms(1)]
  have free: "\<not> mutex_held h" using world_okD(3) [OF assms(1) h] by simp
  show ?thesis
  proof (cases "handlers h (type_of e)")
    case None
    have "subscriber_handle cb ?p e w = Inr w"
      unfolding subscriber_handle_def by (rule sub.handle_unset [OF inv get free None])
    then show ?thesis using world_ok_mono [OF invariant assms(1) released_le] by auto
  next
    case (Some f)
    obtain pool where pool: "put_subscriber ?p (h\<lparr>mutex_held := True\<rparr>) w = Inr (w\<lparr>subscribers := pool\<rparr>)"
        "contents pool = (contents (subscribers w))(?p \<mapsto> h\<lparr>mutex_held := True\<rparr>)"
        "world_ok bufs I {?p} (contents (request_pool w)) (w\<lparr>subscribers := pool\<rparr>)"
      using set_mutex [OF assms(1) h invariant, of True] by (metis (full_types))
    let ?w1 = "w\<lparr>subscribers := pool\<rparr>"
    have eq: "subscriber_handle cb ?p e w =
        noexceptE (bindE (cb f e ?w1) (\<lambda>w2. bindE (get_subscriber ?p w2) (\<lambda>h2. put_subscriber ?p (unlock h2) w2)))"
      unfolding subscriber_handle_def
      by (rule sub.handle_runs [OF inv get free Some, where run = cb]) (use pool(1) in simp)
    have st: "callback_state bufs I ?p a r f e ?w1"
      using pool(2,3) assms(2-4) Some by (simp add: callback_state_def sq_inv_def registered_def)
    show ?thesis
    proof (cases "cb f e ?w1")
      case (Inl s)
      then obtain s' where s': "noexceptE (cb f e ?w1) = Inl s'"
        by (cases "noexceptE (cb f e ?w1)") (auto simp: res_simps)
      moreover have "subscriber_handle cb ?p e w = noexceptE (cb f e ?w1)" using Inl by (simp add: eq)
      moreover have "callback_stops bufs I cb s'" using st s' unfolding callback_stops_def by blast
      ultimately show ?thesis by simp
    next
      case (Inr w2)
      with st behaves have w2: "(program_step X V good_request)\<^sup>*\<^sup>* ?w1 w2"
          "world_ok bufs I {?p} (released a r (contents (request_pool w2))) w2"
        unfolding well_behaved_def by blast+
      obtain h2 where h2: "contents (subscribers w2) ?p = Some h2" using world_okD(2) [OF w2(2)] by blast
      obtain pool2 where pool2: "put_subscriber ?p (h2\<lparr>mutex_held := False\<rparr>) w2 = Inr (w2\<lparr>subscribers := pool2\<rparr>)"
          "world_ok bufs I {} (released a r (contents (request_pool w2))) (w2\<lparr>subscribers := pool2\<rparr>)"
        using set_mutex [OF w2(2) h2 invariant, of False] by (metis Diff_cancel)
      have "subscriber_handle cb ?p e w = Inr (w2\<lparr>subscribers := pool2\<rparr>)"
        using Inr get_subscriber_contents [OF w2(2) h2] pool2(1) by (simp add: eq unlock_def)
      moreover have "(program_step X V good_request)\<^sup>*\<^sup>* w ?w1" by (rule program_steps_own [OF rtranclp.rtrancl_refl]) simp_all
      then have "(program_step X V good_request)\<^sup>*\<^sup>* w (w2\<lparr>subscribers := pool2\<rparr>)"
        by (rule program_steps_own [OF rtranclp_trans [OF _ w2(1)]]) simp_all
      ultimately show ?thesis using pool2(2) by auto
    qed
  qed
qed

text \<open>The whole of \<open>on_completion\<close>: none of its error branches is taken.\<close>

lemma on_completion_world:
  assumes "ring_contract X V (kernel_fits bufs)" "length bufs < 2 ^ 31"
    "world_ok bufs I {} (contents (request_pool w)) w" "sq_inv w" "contents (request_pool w) (cqe_user_data c) = Some r"
    "good_request r" "kernel_fits bufs (request_calls (cqe_user_data c) r) c"
  shows "(\<exists>w'. on_completion X cb c w = Inr w' \<and> (program_step X V good_request)\<^sup>*\<^sup>* w w' \<and>
      world_ok bufs I {} (released (cqe_user_data c) r (contents (request_pool w'))) w') \<or>
    (\<exists>s. on_completion X cb c w = Inl s \<and> callback_stops bufs I cb s)"
proof -
  have r: "deref (request_pool w) (cqe_user_data c) = Inr r" "wf_request r" "user_data (header r) \<noteq> nullptr"
    using assms(4-6) contents_live [OF assms(5)] pool_inv_live_nonnull [of "request_pool w" "cqe_user_data c"]
    by (auto simp: sq_inv_def typed_pool_def deref_contents good_request_def)
  note bufs = world_okD(5) [OF assms(3)]
  show ?thesis
  proof (cases "cqe_res c < 0")
    case True
    let ?w0 = "w\<lparr>cerr := cerr w @ ''During handling of '' @ print_request r @ newline\<rparr>"
    have ok: "world_ok bufs I {} (contents (request_pool ?w0)) ?w0" "sq_inv ?w0"
        "contents (request_pool ?w0) (cqe_user_data c) = Some r" "may_see bufs r (ErrorEvent (- cqe_res c))"
      using assms(3-5) True world_ok_frame(4) [OF invariant assms(3)] by (simp_all add: sq_inv_def may_see_def del: append.simps)
    have "(program_step X V good_request)\<^sup>*\<^sup>* w ?w0" by (rule program_steps_own [OF rtranclp.rtrancl_refl]) simp_all
    note first = rtranclp_trans [OF this]
    from handle_world [OF ok] show ?thesis
      unfolding on_completion_error [OF r True, of X cb] by (elim disjE exE conjE) (blast dest: first)+
  next
    case False
    then have pos: "0 \<le> cqe_res c" by simp
    have fit: "result_fits c (ring_buffers w) r"
      unfolding bufs by (rule kernel_fits_result [OF assms(7,6,2) pos])
    have see: "may_see bufs r (completion_event c bufs r)" using pos fit bufs by (auto simp: may_see_def)
    note eq = on_completion_event [OF r pos fit, of X cb, unfolded bufs]
    show ?thesis
    proof (cases "kind r = READ_MULTISHOT")
      case False
      then show ?thesis using handle_world [OF assms(3-5) see] by (simp add: eq)
    next
      case True
      then have id: "cqe_buffer_id c < length bufs" using fit bufs by (cases r) auto
      from handle_world [OF assms(3-5) see] show ?thesis
      proof (elim disjE exE conjE)
        fix w1 assume w1: "subscriber_handle cb (user_data (header r)) (completion_event c bufs r) w = Inr w1"
          "(program_step X V good_request)\<^sup>*\<^sup>* w w1" "world_ok bufs I {} (released (cqe_user_data c) r (contents (request_pool w1))) w1"
        have "cqe_buffer_id c < length (ring_buffers w1)" using id world_okD(5) [OF w1(3)] by simp
        then obtain x where x: "br_release X c w1 = Inr (w1\<lparr>env := x\<rparr>)" "same_rings X V (env w1) x"
          by (rule br_release_step [OF assms(1)])
        have "(program_step X V good_request)\<^sup>*\<^sup>* w (w1\<lparr>env := x\<rparr>)" by (rule program_steps_own [OF w1(2)]) (simp_all add: x(2))
        with w1(1) x(1) True world_ok_frame(1) [OF invariant w1(3), of x] show ?thesis by (simp add: eq)
      qed (simp add: eq)
    qed
  qed
qed

text \<open>So the function the loop hands to the walk meets the contract of \<open>Request_Life\<close>.\<close>

lemma on_completion_ok:
  assumes "ring_contract X V (kernel_fits bufs)" "length bufs < 2 ^ 31"
  shows "callback_ok X V good_request (kernel_fits bufs) (world_inv bufs I) (on_completion X cb)"
  unfolding callback_ok_def
proof (rule conjI; intro allI impI)
  fix c cs s s1
  assume ok: "world_inv bufs I s" and life: "queue_life V good_request (kernel_fits bufs) s (c # cs)"
    and s1: "on_completion X cb c s = Inr s1"
  obtain r where r: "sq_inv s" "contents (request_pool s) (cqe_user_data c) = Some r" "good_request r"
      "kernel_fits bufs (request_calls (cqe_user_data c) r) c"
    by (rule completion_request [OF life])
  have w1: "(program_step X V good_request)\<^sup>*\<^sup>* s s1"
      "world_ok bufs I {} (released (cqe_user_data c) r (contents (request_pool s1))) s1"
    using on_completion_world [OF assms ok r] s1 by auto
  have inv: "sq_inv s1" and "contents (request_pool s1) (cqe_user_data c) = Some r"
    using program_steps_keep [OF w1(1) r(1)] r(2) by (auto simp: map_le_def dom_def)
  then have "world_inv bufs I s2" if "release c s1 = Inr s2" for s2
    using release_contents [OF _ _ that] world_ok_frame(3) [OF invariant w1(2), of "request_pool s2"] release_frame [OF that] by metis
  with w1(1) show "(program_step X V good_request)\<^sup>*\<^sup>* s s1 \<and> (\<forall>s2. release c s1 = Inr s2 \<longrightarrow> world_inv bufs I s2)" by blast
qed (simp add: world_ok_frame [OF invariant])

text \<open>Turns and whole runs.\<close>

lemma loop_ok_queue:
  "loop_ok X V bufs I w \<Longrightarrow>
   queue_ok X V good_request (kernel_fits bufs) (world_inv bufs I) (on_completion X cb) w"
  by (simp add: loop_ok_def queue_ok_def on_completion_ok)

lemma queue_loop_ok:
  "loop_ok X V bufs I w0 \<Longrightarrow>
   queue_ok X V good_request (kernel_fits bufs) (world_inv bufs I) (on_completion X cb) w \<Longrightarrow> loop_ok X V bufs I w"
  by (simp add: loop_ok_def queue_ok_def)

lemma loop_ok_reach:
  assumes "loop_ok X V bufs I w0"
    "(queue_step X V good_request (kernel_fits bufs) (world_inv bufs I) (on_completion X cb))\<^sup>*\<^sup>* w0 w"
  shows "loop_ok X V bufs I w"
  by (rule queue_loop_ok [OF assms(1) queue.run_inv [OF assms(2) loop_ok_queue [OF assms(1)]]])

lemma walk_stop:
  assumes "loop_ok X V bufs I w0" "world_inv bufs I w" "queue_life V good_request (kernel_fits bufs) w (c # cs)"
    "on_completion X cb c w = Inl s"
  shows "callback_stops bufs I cb s"
proof -
  obtain r where r: "sq_inv w" "contents (request_pool w) (cqe_user_data c) = Some r" "good_request r"
      "kernel_fits bufs (request_calls (cqe_user_data c) r) c"
    by (rule completion_request [OF assms(3)])
  have "ring_contract X V (kernel_fits bufs)" "length bufs < 2 ^ 31"
    using assms(1) by (simp_all add: loop_ok_def)
  from on_completion_world [OF this assms(2) r] assms(4) show ?thesis by auto
qed

lemma run_iteration_ok:
  assumes ok: "loop_ok X V bufs I w"
  shows "(\<exists>w'. run_iteration X cb w = Some (Inr w') \<and> loop_ok X V bufs I w') \<or>
    (\<exists>s. run_iteration X cb w = Some (Inl s) \<and> callback_stops bufs I cb s)"
proof -
  note q = loop_ok_queue [OF ok]
  then have "ring_contract X V (kernel_fits bufs)" "queue_life V good_request (kernel_fits bufs) w (cq_view V (env w))"
    by (simp_all add: queue_ok_def)
  then obtain n x where sub: "submit X 100 w = Inr (n, w\<lparr>env := x, pending_requests := no_pending\<rparr>)"
    by (rule queue_life_submit)
  let ?w1 = "w\<lparr>env := x, pending_requests := no_pending\<rparr>"
  have q1: "queue_ok X V good_request (kernel_fits bufs) (world_inv bufs I) (on_completion X cb) ?w1"
    by (rule queue_step_ok [OF q by_submit [OF sub]])
  then have "ring_contract X V (kernel_fits bufs)"
      "callback_ok X V good_request (kernel_fits bufs) (world_inv bufs I) (on_completion X cb)"
      "world_inv bufs I ?w1" "queue_life V good_request (kernel_fits bufs) ?w1 (cq_view V (env ?w1))"
    by (simp_all add: queue_ok_def)
  then show ?thesis
  proof (cases rule: forEachCompletion_life)
    case (stops e c ds s1)
    then show ?thesis using walk_stop [OF ok stops(3-5)] sub by (simp add: run_iteration_def)
  next
    case (returns s1 y)
    let ?w2 = "s1\<lparr>env := y\<rparr>"
    have ok2: "loop_ok X V bufs I ?w2"
      by (rule queue_loop_ok [OF ok queue_step_ok [OF q1 by_walk [OF returns(2)]]])
    then have "world_inv bufs I ?w2" by (simp add: loop_ok_def)
    note err = error_handle_event_default [OF world_okD(6) [OF this]]
    have "loop_ok X V bufs I (?w2\<lparr>cerr := t\<rparr>)" for t
      using ok2 world_ok_frame(4) [OF invariant, of bufs "{}" "contents (request_pool ?w2)" ?w2 t] by (simp add: loop_ok_def queue_life_def sq_inv_def)
    with ok2 sub returns(2) show ?thesis by (simp add: run_iteration_def err)
  qed
qed

lemma turns_ok:
  assumes "turns X cb n w = Some res" "loop_ok X V bufs I w"
  shows "case res of Inr w' \<Rightarrow> \<not> should_continue w' \<and> loop_ok X V bufs I w' | Inl s \<Rightarrow> callback_stops bufs I cb s"
  using assms
proof (induction n arbitrary: w)
  case (Suc n)
  show ?case
  proof (cases "should_continue w")
    case True
    from run_iteration_ok [OF Suc.prems(2)] show ?thesis
      using Suc.IH Suc.prems(1) True by (elim disjE exE conjE; clarsimp)
  qed (use Suc.prems in auto)
qed (auto split: if_splits)

end

section \<open>A program without requests\<close>

text \<open>A program that has no request keeps the contract whatever its callbacks do, since none of them is ever run.\<close>

definition idle_inv :: "('x, 'c, 'z) event_loop_scheme \<Rightarrow> (ptr \<rightharpoonup> request) \<Rightarrow> bool" where
  "idle_inv w m \<longleftrightarrow> should_continue w \<and> m = Map.empty"

lemma idle_callback_state: "\<not> callback_state bufs idle_inv p a r f e w"
  using world_okD(7) [of bufs idle_inv "{p}" "contents (request_pool w)" w] by (auto simp: callback_state_def idle_inv_def)

interpretation idle: loop_program X V bufs idle_inv cb for X V bufs cb
  by unfold_locales (auto simp: program_invariant_def idle_inv_def map_le_def well_behaved_def idle_callback_state)

lemma idle_run:
  assumes "loop_ok X V bufs idle_inv w"
  shows "run X cb w = None"
proof (rule ccontr)
  assume "run X cb w \<noteq> None"
  then obtain res where "run X cb w = Some res" by blast
  then obtain n where n: "turns X cb n w = Some res" using run_turns by blast
  have "should_continue v" if "loop_ok X V bufs idle_inv v" for v
    using that world_okD(7) [of bufs idle_inv "{}" _ v] by (auto simp: loop_ok_def idle_inv_def)
  then show False
    using idle.turns_ok [OF n assms] by (cases res) (auto simp: callback_stops_def idle_callback_state)
qed

section \<open>A loop to apply the theorem to\<close>

text \<open>The sample program, to which the kernel has reported the end of its write.\<close>

definition busy_loop :: sample_world where
  "busy_loop = sample_loop\<lparr>env := ref_init\<lparr>ref_cq := [\<lparr>cqe_user_data = 2, cqe_res = 13, cqe_flags = 0\<rparr>]\<rparr>\<rparr>"

abbreviation (input) no_invariant :: "sample_world \<Rightarrow> (ptr \<rightharpoonup> request) \<Rightarrow> bool" where
  "no_invariant \<equiv> (\<lambda>_ _. True)"

lemma sample_cb_behaves: "well_behaved X V bufs no_invariant sample_cb"
  unfolding well_behaved_def
proof (intro allI impI)
  fix p a r f e and w w' :: sample_world
  assume st: "callback_state bufs no_invariant p a r f e w" and w': "sample_cb f e w = Inr w'"
  have eq: "w' = w\<lparr>seen := seen w @ [e]\<rparr>" using w' by (simp add: sample_cb_def)
  have "program_invariant no_invariant" by (simp add: program_invariant_def)
  moreover have "world_ok bufs no_invariant {p} (contents (request_pool w)) w" using st by (simp add: callback_state_def)
  ultimately have "world_ok bufs no_invariant {p} (released a r (contents (request_pool w))) w"
    by (rule world_ok_mono) (rule released_le)
  then have "world_ok bufs no_invariant {p} (released a r (contents (request_pool w'))) w'"
    by (simp add: eq world_ok_def default_errors_def)
  moreover have "(program_step X V good_request)\<^sup>*\<^sup>* w w'"
    by (rule program_steps_own [OF rtranclp.rtrancl_refl]) (simp_all add: eq)
  ultimately show "(program_step X V good_request)\<^sup>*\<^sup>* w w' \<and> world_ok bufs no_invariant {p} (released a r (contents (request_pool w'))) w'"
    by simp
qed

interpretation sample: loop_program X V bufs no_invariant sample_cb for X V bufs
  by unfold_locales (simp add: program_invariant_def, rule sample_cb_behaves)

lemma busy_loop_facts:
  "contents (request_pool busy_loop) = [2 \<mapsto> set_user_data 7 sample_write, 42 \<mapsto> set_user_data 7 sample_multishot]"
  "contents (subscribers busy_loop) = [7 \<mapsto> sample_handler]" "pool_inv (subscribers busy_loop)" "sq_inv busy_loop"
  "ref_cq_view (env busy_loop) = [\<lparr>cqe_user_data = 2, cqe_res = 13, cqe_flags = 0\<rparr>]"
  "entries_of ref_view (env busy_loop) = {#}" "pending_requests busy_loop = no_pending"
  "ring_buffers busy_loop = sample_buffers" "default_errors busy_loop"
  using sample_loop_inv
  by (auto simp: busy_loop_def sample_loop_def contents_def fun_eq_iff pool_inv_def live_def freed_def sq_inv_def
      ref_init_def ref_cq_view_def entries_of_def default_errors_def)

lemma busy_loop_ok: "loop_ok (ref_sys 4) ref_view sample_buffers no_invariant busy_loop"
proof -
  have requests: "good_request (set_user_data 7 sample_write)" "good_request (set_user_data 7 sample_multishot)"
      "kernel_fits bufs (request_calls 2 (set_user_data 7 sample_write)) \<lparr>cqe_user_data = 2, cqe_res = 13, cqe_flags = 0\<rparr>" for bufs
    by (simp_all add: good_request_def sample_write_def sample_multishot_def kernel_fits_def)
  have "life good_request (kernel_fits sample_buffers) (request_pool busy_loop) {#} {#} [\<lparr>cqe_user_data = 2, cqe_res = 13, cqe_flags = 0\<rparr>]"
    using requests by (intro lifeI) (auto simp: busy_loop_facts deref_contents claims_def split: if_splits)
  moreover have "world_inv sample_buffers no_invariant busy_loop"
    by (auto simp: world_ok_def busy_loop_facts sample_handler_def split: if_splits)
  ultimately show ?thesis
    using ref_ring_contract by (simp add: loop_ok_def queue_life_def busy_loop_facts sample_buffers_def)
qed

section \<open>Properties of whole runs\<close>

text \<open>C2. Safety of the event loop. Take a program that keeps the contract the library documents (subscribers
  outlive their requests; callbacks do nothing to the rings but add requests) and a kernel whose results
  fit what was asked for, start in a state in order, and let other threads add requests and the kernel
  complete them at any moments. Then every turn of \<open>run\<close> comes back, in order again, unless a callback
  of the program stopped by itself; and if \<open>run\<close> comes back the flag is down and the state in order, or
  such a callback stopped it. No freed or null object is used, no assertion of the library fails, nothing
  deadlocks, no buffer is overrun.\<close>

theorem loop_stops_only_by_callbacks:
  assumes "program_invariant I" "well_behaved X V bufs I cb" "loop_ok X V bufs I w0"
    "(queue_step X V good_request (kernel_fits bufs) (world_inv bufs I) (on_completion X cb))\<^sup>*\<^sup>* w0 w"
  shows "(\<exists>res. run_iteration X cb w = Some res \<and>
       (case res of Inr w' \<Rightarrow> loop_ok X V bufs I w' | Inl s \<Rightarrow> callback_stops bufs I cb s)) \<and>
     (\<forall>res. run X cb w = Some res \<longrightarrow>
       (case res of Inr w' \<Rightarrow> \<not> should_continue w' \<and> loop_ok X V bufs I w' | Inl s \<Rightarrow> callback_stops bufs I cb s))"
proof -
  have prog: "loop_program X V bufs I cb" by unfold_locales (rule assms(1), rule assms(2))
  have ok: "loop_ok X V bufs I w" by (rule loop_program.loop_ok_reach [OF prog assms(3,4)])
  have "\<exists>res. run_iteration X cb w = Some res \<and>
      (case res of Inr w' \<Rightarrow> loop_ok X V bufs I w' | Inl s \<Rightarrow> callback_stops bufs I cb s)"
    using loop_program.run_iteration_ok [OF prog ok] by (elim disjE exE conjE) simp_all
  moreover have "case res of Inr w' \<Rightarrow> \<not> should_continue w' \<and> loop_ok X V bufs I w' | Inl s \<Rightarrow> callback_stops bufs I cb s"
    if run: "run X cb w = Some res" for res
  proof -
    obtain n where "turns X cb n w = Some res" using run_turns [OF run] by blast
    from loop_program.turns_ok [OF prog this ok] show ?thesis .
  qed
  ultimately show ?thesis by blast
qed

theorem loop_stops_only_by_callbacks_witness:
  "\<exists>w'. run_iteration (ref_sys 4) sample_cb busy_loop = Some (Inr w') \<and>
     loop_ok (ref_sys 4) ref_view sample_buffers no_invariant w'"
proof -
  have "\<not> callback_stops sample_buffers no_invariant sample_cb s" for s
    by (simp add: callback_stops_def sample_cb_def)
  then show ?thesis
    using loop_stops_only_by_callbacks [OF sample.invariant sample.behaves busy_loop_ok rtranclp.rtrancl_refl] by (auto split: sum.splits)
qed

end
