(* ===== verification/Net_Safety.thy ===== *)
theory Net_Safety
  imports Connector Loop_Safety
begin

text \<open>
  What the operations of the network layer mean for the contract of \<open>Loop_Safety\<close>: which of them are steps
  of a program, how they change the world invariant, and the state in which a program's \<open>main\<close> finds the
  loop. The programs that are shown safe as a whole (\<open>Writer_Safety\<close>) rest on these lemmas.
\<close>

section \<open>Requests and subscribers a program adds\<close>

text \<open>The subscribers of new requests are live, old ones stay.\<close>

lemma world_ok_requests:
  assumes "world_ok bufs I H m w" "\<And>a r. m' a = Some r \<Longrightarrow> m a = Some r \<or> user_data (header r) \<in> dom (contents (subscribers w))"
    "subscribers w' = subscribers w" "ring_buffers w' = ring_buffers w" "error_handler w' = error_handler w" "I w' m'"
  shows "world_ok bufs I H m' w'"
  using assms unfolding world_ok_def default_errors_def by (metis (no_types, lifting))

lemma world_ok_new_subscriber:
  assumes "world_ok bufs I H m w" "contents (subscribers w) q = None"
    "contents (subscribers w') = (contents (subscribers w))(q \<mapsto> h)" "pool_inv (subscribers w')" "\<not> mutex_held h"
    "\<And>a r. m' a = Some r \<Longrightarrow> m a = Some r \<or> user_data (header r) = q"
    "ring_buffers w' = ring_buffers w" "error_handler w' = error_handler w" "I w' m'"
  shows "world_ok bufs I H m' w'"
proof -
  have "q \<notin> H" using world_okD(2) [OF assms(1), of q] assms(2) by auto
  then have "\<forall>p g. contents (subscribers w') p = Some g \<longrightarrow> (mutex_held g \<longleftrightarrow> p \<in> H)"
    using world_okD(3) [OF assms(1)] assms(3,5) by (auto split: if_splits)
  moreover have "\<forall>a r. m' a = Some r \<longrightarrow> user_data (header r) \<in> dom (contents (subscribers w'))"
    using world_okD(4) [OF assms(1)] assms(3,6) by fastforce
  moreover have "H \<subseteq> dom (contents (subscribers w'))" using assms(1,3) by (auto simp: world_ok_def)
  moreover have "ring_buffers w' = bufs" "default_errors w'"
    using world_okD(5,6) [OF assms(1)] assms(7,8) by (simp_all add: default_errors_def)
  ultimately show ?thesis using assms(4,9) by (simp add: world_ok_def)
qed

lemma write_request_good:
  "p \<noteq> nullptr \<Longrightarrow> sp_len b < 2 ^ 31 \<Longrightarrow> good_request (added_request (write_request_of c b) p)"
  "wf_request (added_request (write_request_of c b) p)" "kind (added_request (write_request_of c b) p) = WRITE"
  "user_data (header (added_request (write_request_of c b) p)) = p"
  by (simp_all add: good_request_def added_request_facts) (simp add: added_request_def write_request_of_def)

text \<open>Writing a packet adds one request to those of the connection.\<close>

lemma asyncWrite_adds:
  assumes "sq_inv w" "conn_subscriber c \<noteq> nullptr" "sp_len b < 2 ^ 31"
  obtains a rp where
    "asyncWrite c b w = Inr (\<lparr>success = True, message = ''Success''\<rparr>,
       w\<lparr>request_pool := rp, pending_requests := pending_push WRITE a (pending_requests w)\<rparr>)"
    "contents rp = (contents (request_pool w))(a \<mapsto> added_request (write_request_of c b) (conn_subscriber c))"
    "contents (request_pool w) a = None"
    "program_step X V good_request w (w\<lparr>request_pool := rp, pending_requests := pending_push WRITE a (pending_requests w)\<rparr>)"
proof -
  let ?r = "added_request (write_request_of c b) (conn_subscriber c)"
  obtain a rp where p: "push ?r w = Inr (w\<lparr>request_pool := rp, pending_requests := pending_push (kind ?r) a (pending_requests w)\<rparr>)"
      "block_size (request_pool w) a = None" "contents rp = (contents (request_pool w))(a \<mapsto> ?r)"
    by (rule push_spec [OF assms(1) write_request_good(2)])
  have "contents (request_pool w) a = None" using p(2) pool.value_sized by fastforce
  moreover have "program_step X V good_request w (w\<lparr>request_pool := rp, pending_requests := pending_push WRITE a (pending_requests w)\<rparr>)"
    using p(1) by (intro program_push [of ?r] write_request_good assms(2,3)) (simp add: write_request_good(3))
  ultimately show thesis
    using p by (intro that [of a rp]) (simp_all add: async_ops_eq loop_add_eq write_request_good(3))
qed

text \<open>So does asking for a multi-shot read.\<close>

lemma read_request_good:
  "p \<noteq> nullptr \<Longrightarrow> good_request (added_request (read_request_of c) p)"
  "wf_request (added_request (read_request_of c) p)" "kind (added_request (read_request_of c) p) = READ_MULTISHOT"
  "user_data (header (added_request (read_request_of c) p)) = p"
  by (simp_all add: good_request_def added_request_facts) (simp add: added_request_def read_request_of_def)

lemma asyncRead_adds:
  assumes "sq_inv w" "conn_subscriber c \<noteq> nullptr"
  obtains a rp where
    "asyncRead c w = Inr (\<lparr>success = True, message = ''Success''\<rparr>,
       w\<lparr>request_pool := rp, pending_requests := pending_push READ_MULTISHOT a (pending_requests w)\<rparr>)"
    "contents rp = (contents (request_pool w))(a \<mapsto> added_request (read_request_of c) (conn_subscriber c))"
    "contents (request_pool w) a = None"
    "program_step X V good_request w (w\<lparr>request_pool := rp, pending_requests := pending_push READ_MULTISHOT a (pending_requests w)\<rparr>)"
proof -
  let ?r = "added_request (read_request_of c) (conn_subscriber c)"
  obtain a rp where p: "push ?r w = Inr (w\<lparr>request_pool := rp, pending_requests := pending_push (kind ?r) a (pending_requests w)\<rparr>)"
      "block_size (request_pool w) a = None" "contents rp = (contents (request_pool w))(a \<mapsto> ?r)"
    by (rule push_spec [OF assms(1) read_request_good(2)])
  have "contents (request_pool w) a = None" using p(2) pool.value_sized by fastforce
  moreover have "program_step X V good_request w (w\<lparr>request_pool := rp, pending_requests := pending_push READ_MULTISHOT a (pending_requests w)\<rparr>)"
    using p(1) by (intro program_push [of ?r] read_request_good assms(2)) (simp add: read_request_good(3))
  ultimately show thesis
    using p by (intro that [of a rp]) (simp_all add: async_ops_eq loop_add_eq read_request_good(3))
qed

section \<open>Connecting\<close>

lemma resolve_rings:
  assumes "posix_keeps_rings X V" "resolve X host port DP b x = Inr (res, x')"
  shows "same_rings X V x x'"
proof -
  obtain n l y where y: "sys_getaddrinfo X host (show_nat (unat port)) \<lparr>hint_family = AF_UNSPEC, hint_socktype = DP,
      hint_flags = (if b then AI_PASSIVE else 0)\<rparr> x = (n, l, y)"
    by (metis prod_cases3)
  then have "y = x'" using assms(2) by (auto simp: resolve_def Let_def res_simps split: if_splits list.splits)
  with y show ?thesis using posix_getaddrinfo [OF assms(1)] by blast
qed

lemma socket_calls_rings:
  assumes "posix_keeps_rings X V"
  shows "assign_raw_socket X d raw x = (sock, x') \<Longrightarrow> same_rings X V x x'"
    "set_option X sock opt en x = (st, x') \<Longrightarrow> same_rings X V x x'"
  using posix_setsockopt [OF assms] posix_close [OF assms]
  by (auto simp: assign_raw_socket_def fd_move_assign_def delete_FileDescriptor_def set_option_def split: prod.splits)

lemma push_frame:
  assumes "push r w = Inr w'"
  shows "w' = w\<lparr>request_pool := request_pool w', pending_requests := pending_requests w'\<rparr>"
    "request_pool v = request_pool w \<Longrightarrow> pending_requests v = pending_requests w \<Longrightarrow>
     push r v = Inr (v\<lparr>request_pool := request_pool w', pending_requests := pending_requests w'\<rparr>)"
  using assms by (auto simp: push_def res_simps split: prod.splits)

lemma push_contents:
  assumes "sq_inv w" "wf_request r" "push r w = Inr w'"
  obtains a where "contents (request_pool w') = (contents (request_pool w))(a \<mapsto> r)"
proof -
  obtain a pool where "push r w = Inr (w\<lparr>request_pool := pool, pending_requests := pending_push (kind r) a (pending_requests w)\<rparr>)"
      "contents pool = (contents (request_pool w))(a \<mapsto> r)"
    by (rule push_spec [OF assms(1,2)])
  with assms(3) show thesis by (intro that [of a]) auto
qed

text \<open>What a successful \<open>asyncConnect\<close> does to the queue: it pushes one request, and nothing happens to the rings.\<close>

lemma connector_open_pushes:
  assumes "posix_keeps_rings X V" "connector_open X DP this k host port address w = Inr (st, w')" "success st"
  shows "\<exists>r. wf_request r \<and> kind r = CONNECT \<and> user_data (header r) = ctr_subscriber k \<and>
    push r w = Inr (w\<lparr>request_pool := request_pool w', pending_requests := pending_requests w'\<rparr>) \<and>
    same_rings X V (env w) (env w') \<and>
    w' = w\<lparr>env := env w', connectors := connectors w', request_pool := request_pool w', pending_requests := pending_requests w'\<rparr>"
proof -
  obtain raw x2 where 2: "sys_socket X (the (ip_version address)) DP 0 (env w) = (raw, x2)"
    by (cases "sys_socket X (the (ip_version address)) DP 0 (env w)")
  obtain sock x3 where 3: "assign_raw_socket X (ctr_socket k) raw x2 = (sock, x3)"
    by (cases "assign_raw_socket X (ctr_socket k) raw x2")
  obtain s4 x4 where 4: "set_option X sock SO_REUSEADDR True x3 = (s4, x4)" by (cases "set_option X sock SO_REUSEADDR True x3")
  let ?r = "ConnectR (new_ConnectRequest\<lparr>connect_fd := raw_fd sock, connect_addr := this, connect_addrlen := snd (as_sockaddr address)\<rparr>)"
  obtain kp where kp: "put_connector this (k\<lparr>ctr_socket := sock\<rparr>) (w\<lparr>env := x3\<rparr>) = Inr (w\<lparr>env := x3, connectors := kp\<rparr>)"
    using assms(2) 2 3 put_connector_frame [of this "k\<lparr>ctr_socket := sock\<rparr>" "w\<lparr>env := x3\<rparr>"]
    by (cases "put_connector this (k\<lparr>ctr_socket := sock\<rparr>) (w\<lparr>env := x3\<rparr>)") (auto simp: connector_open_def)
  let ?v = "w\<lparr>connectors := kp, env := x4\<rparr>"
  have ok: "status_ok s4" using assms(2,3) 2 3 4 kp by (cases "status_ok s4") (auto simp: connector_open_def failure_def)
  obtain w4 where w4: "push (added_request ?r (ctr_subscriber k)) ?v = Inr w4"
      "put_connector this (k\<lparr>ctr_socket := sock, connection_status := PENDING\<rparr>) w4 = Inr w'"
    using assms(2) 2 3 4 kp ok by (auto simp: connector_open_def loop_add_eq res_simps)
  let ?rp = "request_pool w4" and ?pd = "pending_requests w4"
  have p: "w4 = ?v\<lparr>request_pool := ?rp, pending_requests := ?pd\<rparr>"
      "push (added_request ?r (ctr_subscriber k)) w = Inr (w\<lparr>request_pool := ?rp, pending_requests := ?pd\<rparr>)"
    using push_frame(1) [OF w4(1)] push_frame(2) [OF w4(1), of w] by simp_all
  obtain kq where w': "w' = w4\<lparr>connectors := kq\<rparr>" using put_connector_frame [OF w4(2)] by blast
  have "same_rings X V (env w) x4"
    by (rule same_rings_trans [OF same_rings_trans [OF posix_socket [OF assms(1) 2] socket_calls_rings(1) [OF assms(1) 3]]
          socket_calls_rings(2) [OF assms(1) 4]])
  moreover have "wf_request (added_request ?r (ctr_subscriber k))" "kind (added_request ?r (ctr_subscriber k)) = CONNECT"
      "user_data (header (added_request ?r (ctr_subscriber k))) = ctr_subscriber k"
    by (simp_all add: added_request_facts ConnectR_wf)
  moreover have "env w' = x4" "w' = w\<lparr>env := x4, connectors := kq, request_pool := ?rp, pending_requests := ?pd\<rparr>"
    unfolding w' by (subst p(1), simp)+
  ultimately show ?thesis using p(2) by (intro exI [of _ "added_request ?r (ctr_subscriber k)"]) simp
qed

lemma asyncConnect_pushes:
  assumes "posix_keeps_rings X V" "sq_inv w" "pool_inv (connectors w)" "get_connector this w = Inr k"
    "asyncConnect X DP this host port w = Inr (st, w')" "success st"
  obtains r k' where "wf_request r" "kind r = CONNECT" "user_data (header r) = ctr_subscriber k"
    "push r w = Inr (w\<lparr>request_pool := request_pool w', pending_requests := pending_requests w'\<rparr>)"
    "same_rings X V (env w) (env w')"
    "w' = w\<lparr>env := env w', connectors := connectors w', request_pool := request_pool w', pending_requests := pending_requests w'\<rparr>"
    "get_connector this w' = Inr k'" "ctr_subscriber k' = ctr_subscriber k" "pool_inv (connectors w')"
proof -
  have idle: "connection_status k \<noteq> PENDING" using assms(4-6) by (auto simp: asyncConnect_def)
  obtain resolved x1 where res: "resolve X host port DP True (env w) = Inr (resolved, x1)"
    using assms(4,5) idle by (cases "resolve X host port DP True (env w)") (auto simp: asyncConnect_def)
  obtain k' where k': "get_connector this w' = Inr k'" "ctr_subscriber k' = ctr_subscriber k" "pool_inv (connectors w')"
    using asyncConnect_outcome [OF assms(2-4) res] assms(5) by (auto simp: connect_outcome_def)
  have cell: "pool_inv (connectors (w\<lparr>env := x1\<rparr>))" "get_connector this (w\<lparr>env := x1\<rparr>) = Inr k" using assms(3,4) by simp_all
  obtain kp where kp: "put_connector this (k\<lparr>resolved_address := resolved\<rparr>) (w\<lparr>env := x1\<rparr>) = Inr (w\<lparr>env := x1\<rparr>\<lparr>connectors := kp\<rparr>)"
    by (rule put_connector_step [OF cell])
  let ?w1 = "w\<lparr>env := x1, connectors := kp\<rparr>" and ?k = "k\<lparr>resolved_address := resolved\<rparr>"
  obtain address where "resolved = Inr address"
    using assms(4-6) idle res kp by (cases resolved) (auto simp: asyncConnect_def failure_def)
  then have "connector_open X DP this ?k host port address ?w1 = Inr (st, w')"
    using assms(4,5) idle res kp by (auto simp: asyncConnect_def res_simps)
  from connector_open_pushes [OF assms(1) this assms(6)] obtain r where
    r: "wf_request r" "kind r = CONNECT" "user_data (header r) = ctr_subscriber k"
      "push r ?w1 = Inr (?w1\<lparr>request_pool := request_pool w', pending_requests := pending_requests w'\<rparr>)"
      "same_rings X V x1 (env w')"
      "w' = ?w1\<lparr>env := env w', connectors := connectors w', request_pool := request_pool w', pending_requests := pending_requests w'\<rparr>"
    by auto
  have "push r w = Inr (w\<lparr>request_pool := request_pool w', pending_requests := pending_requests w'\<rparr>)"
    using push_frame(2) [OF r(4), of w] by simp
  moreover have "same_rings X V (env w) (env w')" by (rule same_rings_trans [OF resolve_rings [OF assms(1) res] r(5)])
  moreover have "w' = w\<lparr>env := env w', connectors := connectors w', request_pool := request_pool w', pending_requests := pending_requests w'\<rparr>"
    by (subst r(6)) simp
  ultimately show thesis using that r(1-3) k' by blast
qed

section \<open>Listening\<close>

text \<open>A \<open>listen\<close> that fails leaves the loop as it was, but for descriptors.\<close>

lemma put_acceptor_env: "put_acceptor this a w = Inr w' \<Longrightarrow> \<exists>q. w' = w\<lparr>acceptors := q\<rparr>"
  by (auto simp: put_acceptor_def res_simps)

lemma sock_calls_rings:
  assumes "posix_keeps_rings X V"
  shows "sock_bind X sock address x = (st, x') \<Longrightarrow> same_rings X V x x'"
    "sock_listen X sock n x = (st, x') \<Longrightarrow> same_rings X V x x'"
  using posix_bind [OF assms] posix_listen [OF assms]
  by (auto simp: sock_bind_def sock_listen_def split: prod.splits)

lemma acceptor_open_fails:
  assumes "posix_keeps_rings X V" "acceptor_open X DP this a host port address w = Inr (st, w')" "\<not> success st"
  shows "\<exists>x q. w' = w\<lparr>env := x, acceptors := q\<rparr> \<and> same_rings X V (env w) x"
proof -
  obtain raw x2 where 2: "sys_socket X (the (ip_version address)) DP 0 (env w) = (raw, x2)"
    by (cases "sys_socket X (the (ip_version address)) DP 0 (env w)")
  obtain sock x3 where 3: "assign_raw_socket X (listening_socket a) raw x2 = (sock, x3)"
    by (cases "assign_raw_socket X (listening_socket a) raw x2")
  obtain s4 x4 where 4: "set_option X sock SO_REUSEADDR True x3 = (s4, x4)" by (cases "set_option X sock SO_REUSEADDR True x3")
  obtain s5 x5 where 5: "sock_bind X sock address x4 = (s5, x5)" by (cases "sock_bind X sock address x4")
  obtain s6 x6 where 6: "sock_listen X sock (max_connections a) x5 = (s6, x6)" by (cases "sock_listen X sock (max_connections a) x5")
  obtain q where q: "put_acceptor this (a\<lparr>listening_socket := sock\<rparr>) (w\<lparr>env := x3\<rparr>) = Inr (w\<lparr>env := x3, acceptors := q\<rparr>)"
    using assms(2) 2 3 put_acceptor_env [of this "a\<lparr>listening_socket := sock\<rparr>" "w\<lparr>env := x3\<rparr>"]
    by (auto simp: acceptor_open_def res_simps)
  have x4: "same_rings X V (env w) x4"
    by (rule same_rings_trans [OF same_rings_trans [OF posix_socket [OF assms(1) 2] socket_calls_rings(1) [OF assms(1) 3]]
          socket_calls_rings(2) [OF assms(1) 4]])
  note x5 = same_rings_trans [OF x4 sock_calls_rings(1) [OF assms(1) 5]]
  note x6 = same_rings_trans [OF x5 sock_calls_rings(2) [OF assms(1) 6]]
  have "\<exists>x \<in> {x4, x5, x6}. w' = w\<lparr>env := x, acceptors := q\<rparr>"
    using assms(2,3) 2 3 4 5 6 q by (auto simp: acceptor_open_def loop_add_eq res_simps split: if_splits)
  with x4 x5 x6 show ?thesis by blast
qed

lemma acceptor_listen_fails:
  assumes "posix_keeps_rings X V" "acceptor_listen X DP this host port w = Inr (st, w')" "\<not> success st"
  obtains x q where "w' = w\<lparr>env := x, acceptors := q\<rparr>" "same_rings X V (env w) x"
proof -
  obtain a where a: "get_acceptor this w = Inr a" using assms(2) by (auto simp: acceptor_listen_def res_simps)
  show thesis
  proof (cases "acc_status a")
    case LISTENING
    then have "w' = w\<lparr>env := env w, acceptors := acceptors w\<rparr>" using a assms(2) by (simp add: acceptor_listen_def)
    then show ?thesis by (rule that) simp
  next
    case NOT_LISTENING
    obtain resolved x1 where res: "resolve X host port DP True (env w) = Inr (resolved, x1)"
      using a NOT_LISTENING assms(2) by (cases "resolve X host port DP True (env w)") (auto simp: acceptor_listen_def)
    note x1 = resolve_rings [OF assms(1) res]
    show ?thesis
    proof (cases resolved)
      case (Inl e)
      then have "w' = w\<lparr>env := x1, acceptors := acceptors w\<rparr>" using a NOT_LISTENING assms(2) res by (auto simp: acceptor_listen_def)
      then show ?thesis using x1 by (rule that)
    next
      case (Inr address)
      then have "acceptor_open X DP this a host port address (w\<lparr>env := x1\<rparr>) = Inr (st, w')"
        using a NOT_LISTENING assms(2) res by (simp add: acceptor_listen_def res_simps)
      from acceptor_open_fails [OF assms(1) this assms(3)] show ?thesis
        using that same_rings_trans [OF x1] by auto
    qed
  qed
qed

text \<open>The acceptor stays where it is in any case.\<close>

lemma acceptor_listen_keeps:
  assumes "sq_inv w" "pool_inv (acceptors w)" "get_acceptor this w = Inr a" "acceptor_listen X DP this host port w = Inr (st, w')"
  obtains a' where "get_acceptor this w' = Inr a'"
proof (cases "acc_status a")
  case LISTENING
  then have "w' = w" using assms(3,4) by (simp add: acceptor_listen_def)
  with assms(3) show thesis by (intro that) simp
next
  case NOT_LISTENING
  then obtain resolved x1 where "resolve X host port DP True (env w) = Inr (resolved, x1)"
    using assms(3,4) by (cases "resolve X host port DP True (env w)") (auto simp: acceptor_listen_def)
  then obtain st' w'' where "acceptor_listen X DP this host port w = Inr (st', w'')" "listen_outcome this a w st' w''"
    by (rule acceptor_listen_outcome [OF assms(1-3)])
  with assms(4) show thesis using that by (auto simp: listen_outcome_def)
qed

text \<open>A successful one pushes one accept request.\<close>

lemma acceptor_open_pushes:
  assumes "posix_keeps_rings X V" "acceptor_open X DP this a host port address w = Inr (st, w')" "success st"
  shows "\<exists>r. wf_request r \<and> kind r = ACCEPT \<and> user_data (header r) = acc_subscriber a \<and>
    push r w = Inr (w\<lparr>request_pool := request_pool w', pending_requests := pending_requests w'\<rparr>) \<and>
    same_rings X V (env w) (env w') \<and>
    w' = w\<lparr>env := env w', acceptors := acceptors w', request_pool := request_pool w', pending_requests := pending_requests w'\<rparr>"
proof -
  obtain raw x2 where 2: "sys_socket X (the (ip_version address)) DP 0 (env w) = (raw, x2)"
    by (cases "sys_socket X (the (ip_version address)) DP 0 (env w)")
  obtain sock x3 where 3: "assign_raw_socket X (listening_socket a) raw x2 = (sock, x3)"
    by (cases "assign_raw_socket X (listening_socket a) raw x2")
  obtain s4 x4 where 4: "set_option X sock SO_REUSEADDR True x3 = (s4, x4)" by (cases "set_option X sock SO_REUSEADDR True x3")
  obtain s5 x5 where 5: "sock_bind X sock address x4 = (s5, x5)" by (cases "sock_bind X sock address x4")
  obtain s6 x6 where 6: "sock_listen X sock (max_connections a) x5 = (s6, x6)" by (cases "sock_listen X sock (max_connections a) x5")
  let ?r = "AcceptR (new_AcceptRequest\<lparr>listening_socket_fd := raw_fd sock\<rparr>)"
  obtain q where q: "put_acceptor this (a\<lparr>listening_socket := sock\<rparr>) (w\<lparr>env := x3\<rparr>) = Inr (w\<lparr>env := x3, acceptors := q\<rparr>)"
    using assms(2) 2 3 put_acceptor_env [of this "a\<lparr>listening_socket := sock\<rparr>" "w\<lparr>env := x3\<rparr>"]
    by (auto simp: acceptor_open_def res_simps)
  let ?v = "w\<lparr>acceptors := q, env := x6\<rparr>"
  have ok: "status_ok s4" "status_ok s5" "status_ok s6"
    using assms(2,3) 2 3 4 5 6 q by (auto simp: acceptor_open_def failure_def split: if_splits)
  obtain w4 where w4: "push (added_request ?r (acc_subscriber a)) ?v = Inr w4"
      "put_acceptor this (a\<lparr>listening_socket := sock, acc_status := LISTENING\<rparr>) w4 = Inr w'"
    using assms(2) 2 3 4 5 6 q ok by (auto simp: acceptor_open_def loop_add_eq res_simps)
  let ?rp = "request_pool w4" and ?pd = "pending_requests w4"
  have p: "w4 = ?v\<lparr>request_pool := ?rp, pending_requests := ?pd\<rparr>"
      "push (added_request ?r (acc_subscriber a)) w = Inr (w\<lparr>request_pool := ?rp, pending_requests := ?pd\<rparr>)"
    using push_frame(1) [OF w4(1)] push_frame(2) [OF w4(1), of w] by simp_all
  obtain q' where w': "w' = w4\<lparr>acceptors := q'\<rparr>" using put_acceptor_env [OF w4(2)] by blast
  have "same_rings X V (env w) x6"
    by (rule same_rings_trans [OF same_rings_trans [OF same_rings_trans [OF same_rings_trans [OF posix_socket [OF assms(1) 2]
        socket_calls_rings(1) [OF assms(1) 3]] socket_calls_rings(2) [OF assms(1) 4]] sock_calls_rings(1) [OF assms(1) 5]]
        sock_calls_rings(2) [OF assms(1) 6]])
  moreover have "wf_request (added_request ?r (acc_subscriber a))" "kind (added_request ?r (acc_subscriber a)) = ACCEPT"
      "user_data (header (added_request ?r (acc_subscriber a))) = acc_subscriber a"
    by (simp_all add: added_request_facts AcceptR_wf)
  moreover have "env w' = x6" "w' = w\<lparr>env := x6, acceptors := q', request_pool := ?rp, pending_requests := ?pd\<rparr>"
    unfolding w' by (subst p(1), simp)+
  ultimately show ?thesis using p(2) by (intro exI [of _ "added_request ?r (acc_subscriber a)"]) simp
qed

lemma acceptor_listen_pushes:
  assumes "posix_keeps_rings X V" "sq_inv w" "pool_inv (acceptors w)" "get_acceptor this w = Inr a"
    "acceptor_listen X DP this host port w = Inr (st, w')" "success st"
  obtains r a' where "wf_request r" "kind r = ACCEPT" "user_data (header r) = acc_subscriber a"
    "push r w = Inr (w\<lparr>request_pool := request_pool w', pending_requests := pending_requests w'\<rparr>)"
    "same_rings X V (env w) (env w')"
    "w' = w\<lparr>env := env w', acceptors := acceptors w', request_pool := request_pool w', pending_requests := pending_requests w'\<rparr>"
    "get_acceptor this w' = Inr a'"
proof -
  have idle: "acc_status a \<noteq> LISTENING" using assms(4-6) by (auto simp: acceptor_listen_def)
  obtain resolved x1 where res: "resolve X host port DP True (env w) = Inr (resolved, x1)"
    using assms(4,5) idle by (cases "resolve X host port DP True (env w)") (auto simp: acceptor_listen_def)
  obtain a' where a': "get_acceptor this w' = Inr a'" by (rule acceptor_listen_keeps [OF assms(2-5)])
  obtain address where "resolved = Inr address"
    using assms(4-6) idle res by (cases resolved) (auto simp: acceptor_listen_def failure_def)
  then have "acceptor_open X DP this a host port address (w\<lparr>env := x1\<rparr>) = Inr (st, w')"
    using assms(4,5) idle res by (simp add: acceptor_listen_def res_simps)
  from acceptor_open_pushes [OF assms(1) this assms(6)] obtain r where
    r: "wf_request r" "kind r = ACCEPT" "user_data (header r) = acc_subscriber a"
      "push r (w\<lparr>env := x1\<rparr>) = Inr (w\<lparr>env := x1\<rparr>\<lparr>request_pool := request_pool w', pending_requests := pending_requests w'\<rparr>)"
      "same_rings X V x1 (env w')"
      "w' = w\<lparr>env := x1\<rparr>\<lparr>env := env w', acceptors := acceptors w', request_pool := request_pool w', pending_requests := pending_requests w'\<rparr>"
    by auto
  have "push r w = Inr (w\<lparr>request_pool := request_pool w', pending_requests := pending_requests w'\<rparr>)"
    using push_frame(2) [OF r(4), of w] by simp
  moreover have "same_rings X V (env w) (env w')" by (rule same_rings_trans [OF resolve_rings [OF assms(1) res] r(5)])
  moreover have "w' = w\<lparr>env := env w', acceptors := acceptors w', request_pool := request_pool w', pending_requests := pending_requests w'\<rparr>"
    by (subst r(6)) simp
  ultimately show thesis using that r(1-3) a' by blast
qed

section \<open>A fresh loop\<close>

text \<open>The state \<open>main\<close> starts from: a loop as its constructor leaves it, with its buffers, and nothing under way.\<close>

definition fresh_loop :: "'x ring_view \<Rightarrow> span list \<Rightarrow> ('x, 'u, 'z) net_world_scheme \<Rightarrow> bool" where
  "fresh_loop V bufs w \<longleftrightarrow>
     should_continue w \<and> default_errors w \<and> ring_buffers w = bufs \<and> request_pool w = empty_pool \<and> pending_requests w = no_pending \<and>
     subscribers w = empty_pool \<and> connectors w = empty_pool \<and> entries_of V (env w) = {#} \<and> cq_view V (env w) = []"

lemma empty_pool_facts: "contents empty_pool = Map.empty" "deref empty_pool a \<noteq> Inr v"
  by (simp_all add: contents_def empty_pool_def fun_eq_iff deref_def)

lemma fresh_loop_life: "fresh_loop V bufs w \<Longrightarrow> queue_life V good fits w (cq_view V (env w))"
  by (auto simp: fresh_loop_def queue_life_def sq_inv_def typed_pool_def entries_ok_def empty_pool_facts claims_def
      no_pending_def pending_entries_def intro!: lifeI)

text \<open>After a set-up made of steps of a program, with the program's invariant established, the loop is in order.\<close>

lemma fresh_loop_ok:
  assumes "ring_contract X V (kernel_fits bufs)" "length bufs < 2 ^ 31" "fresh_loop V bufs w"
    "(program_step X V good_request)\<^sup>*\<^sup>* w w'" "world_inv bufs I w'"
  shows "loop_ok X V bufs I w'"
proof -
  have "queue_life V good_request (kernel_fits bufs) w' (cq_view V (env w))"
    by (rule program_steps(2) [OF assms(4) fresh_loop_life [OF assms(3)]])
  moreover have "cq_view V (env w') = cq_view V (env w)" using program_steps(1) [OF assms(4)] by (simp add: same_rings_def)
  ultimately show ?thesis using assms(1,2,5) by (simp add: loop_ok_def)
qed

section \<open>The loop's constructor\<close>

lemma add_buffers_keep_rings:
  assumes "ring_contract X V fits"
  shows "\<exists>x'. fold (\<lambda>i. add_buffer X i (int i)) is w = w\<lparr>env := x'\<rparr> \<and> same_rings X V (env w) x'"
proof (induction "is" arbitrary: w)
  case Nil
  show ?case by (rule exI [of _ "env w"]) simp
next
  case (Cons i "is")
  obtain x where step: "add_buffer X i (int i) w = w\<lparr>env := x\<rparr>" "same_rings X V (env w) x"
    using ring_buf_add [OF assms] that by (auto simp: add_buffer_def)
  obtain y where "fold (\<lambda>i. add_buffer X i (int i)) is (w\<lparr>env := x\<rparr>) = w\<lparr>env := x\<rparr>\<lparr>env := y\<rparr>" "same_rings X V x y"
    using Cons [of "w\<lparr>env := x\<rparr>"] by auto
  then have "fold (\<lambda>i. add_buffer X i (int i)) (i # is) w = w\<lparr>env := y\<rparr> \<and> same_rings X V (env w) y"
    using step same_rings_trans [OF step(2)] by simp
  then show ?case ..
qed

lemma loop_buffers_length [simp]: "length (loop_buffers base) = 2048"
  by (simp add: loop_buffers_def del: upt_rec_numeral)

lemma setupBuffers_loop:
  assumes "ring_contract X V fits" "ring_setup_contract X V" "buffer_ring w = nullptr"
    "setupBuffers X (loop_buffers base) w = (st, w')"
  shows "w' = w\<lparr>env := env w', buffer_ring := buffer_ring w', ring_buffers := loop_buffers base\<rparr>" "same_rings X V (env w) (env w')"
proof -
  have pow: "isPowerOfTwo (word_of_nat (length (loop_buffers base)))" by (simp add: isPowerOfTwo_def)
  obtain br n x where x: "io_uring_setup_buf_ring X (word_of_nat (length (loop_buffers base))) BUFFER_GROUP_ID BUFFER_RING_FLAGS (env w) = (br, n, x)"
    by (metis prod_cases3)
  have rings: "same_rings X V (env w) x" using assms(2) x unfolding ring_setup_contract_def by blast
  let ?w2 = "w\<lparr>ring_buffers := loop_buffers base, env := x, buffer_ring := br\<rparr>"
  obtain y where y: "fold (\<lambda>i. add_buffer X i (int i)) [0..<length (loop_buffers base)] ?w2 = ?w2\<lparr>env := y\<rparr>" "same_rings X V x y"
    using add_buffers_keep_rings [OF assms(1), of "[0..<length (loop_buffers base)]" ?w2] by auto
  have eq: "w' = (if br = nullptr then ?w2 else ?w2\<lparr>env := io_uring_buf_ring_advance X br (int (length (loop_buffers base))) y\<rparr>)"
    using assms(3,4) pow x y(1) by (auto simp: setupBuffers_def free_buffer_ring_def Let_def simp del: loop_buffers_length split: if_splits)
  then show "w' = w\<lparr>env := env w', buffer_ring := buffer_ring w', ring_buffers := loop_buffers base\<rparr>" by simp
  show "same_rings X V (env w) (env w')"
    using eq rings same_rings_trans [OF rings same_rings_trans [OF y(2) ring_buf_advance [OF assms(1)]]] by simp
qed

text \<open>A loop as its constructor leaves it: the rings are empty, and the buffers are there even when the kernel refused them.\<close>

lemma new_EventLoop_fresh:
  assumes "ring_contract X V fits" "ring_setup_contract X V" "new_EventLoop cb X n base x = Inr l"
  shows "should_continue l" "default_errors l" "ring_buffers l = loop_buffers base" "request_pool l = empty_pool"
    "pending_requests l = no_pending" "subscribers l = empty_pool" "entries_of V (env l) = {#}" "cq_view V (env l) = []"
proof -
  obtain m y where y: "io_uring_queue_init X (word_of_nat n) x = (m, y)" "0 \<le> m"
    using assms(3) by (auto simp: new_EventLoop_def new_SubmissionQueue_def throwOnError_def res_simps split: prod.splits if_splits)
  then have rings: "entries_of V y = {#}" "cq_view V y = []"
    using assms(2) unfolding ring_setup_contract_def entries_of_def by (metis (no_types) list.map(1) mset.simps(1) add.right_neutral)+
  let ?w = "\<lparr>env = y, request_pool = empty_pool, pending_requests = no_pending, buffer_ring = nullptr, ring_buffers = [],
      should_continue = True, error_handler = new_ErrorHandler, subscribers = empty_pool, cerr = []\<rparr> :: ('a, 'b) event_loop"
  obtain st w1 where s: "setupBuffers X (loop_buffers base) ?w = (st, w1)" by (cases "setupBuffers X (loop_buffers base) ?w")
  note w1 = setupBuffers_loop [OF assms(1,2) _ s]
  have ok: "default_errors w1" by (subst w1(1)) (simp_all add: default_errors_def)
  have l: "l = w1 \<or> l = w1\<lparr>cerr := cerr w1 @ message st\<rparr>"
    using assms(3) y s error_handle_default [OF ok, of cb "message st"]
    by (auto simp: new_EventLoop_def new_SubmissionQueue_def throwOnError_def Let_def split: if_splits)
  have views: "entries_of V (env w1) = {#}" "cq_view V (env w1) = []" using same_rings_views [OF w1(2)] rings by simp_all
  have eq: "should_continue w1" "ring_buffers w1 = loop_buffers base" "request_pool w1 = empty_pool"
    "pending_requests w1 = no_pending" "subscribers w1 = empty_pool" by (subst w1(1); simp)+
  from l ok views eq show "should_continue l" "default_errors l" "ring_buffers l = loop_buffers base" "request_pool l = empty_pool"
    "pending_requests l = no_pending" "subscribers l = empty_pool" "entries_of V (env l) = {#}" "cq_view V (env l) = []"
    by (auto simp: default_errors_def)
qed

lemma new_Connector_spec:
  assumes "pool_inv (connectors w)" "pool_inv (subscribers w)"
  obtains this k sp kp where "new_Connector w = Inr (this, w\<lparr>subscribers := sp, connectors := kp\<rparr>)" "pool_inv sp" "pool_inv kp"
    "get_connector this (w\<lparr>subscribers := sp, connectors := kp\<rparr>) = Inr k" "block_size (subscribers w) (ctr_subscriber k) = None"
    "contents sp = (contents (subscribers w))(ctr_subscriber k \<mapsto> new_EventHandler)"
proof -
  obtain this pool1 where a: "allocate sizeof_Connector (connectors w) = (this, pool1)"
    by (cases "allocate sizeof_Connector (connectors w)")
  have sub: "pool_inv (subscribers (w\<lparr>connectors := pool1\<rparr>))" using assms(2) by simp
  obtain p sp where p: "new_Subscriber (w\<lparr>connectors := pool1\<rparr>) = Inr (p, w\<lparr>connectors := pool1\<rparr>\<lparr>subscribers := sp\<rparr>)" "pool_inv sp"
      "block_size (subscribers (w\<lparr>connectors := pool1\<rparr>)) p = None"
      "contents sp = (contents (subscribers (w\<lparr>connectors := pool1\<rparr>)))(p \<mapsto> new_EventHandler)"
    by (rule new_Subscriber_spec [OF sub])
  let ?k = "\<lparr>ctr_subscriber = p, resolved_address = Inr new_SocketAddress, connection_status = DISCONNECTED, ctr_socket = no_FileDescriptor\<rparr>"
  have pos: "0 < sizeof_Connector" by (simp add: sizeof_Connector_def)
  obtain kp where kp: "store this ?k pool1 = Inr kp" "pool_inv kp" "this \<noteq> nullptr" "contents kp = (contents (connectors w))(this \<mapsto> ?k)"
    by (rule pool.new_object [OF assms(1) pos a, of ?k])
  show thesis
    by (rule that [of this kp sp ?k])
       (use p kp in \<open>simp_all add: new_Connector_def a put_connector_def get_connector_def deref_contents\<close>)
qed

lemma new_Acceptor_spec:
  assumes "pool_inv (acceptors w)" "pool_inv (subscribers w)"
  obtains this a sp ap where "new_Acceptor n w = Inr (this, w\<lparr>subscribers := sp, acceptors := ap\<rparr>)" "pool_inv sp" "pool_inv ap"
    "get_acceptor this (w\<lparr>subscribers := sp, acceptors := ap\<rparr>) = Inr a" "acc_status a = NOT_LISTENING"
    "contents sp = (contents (subscribers w))(acc_subscriber a \<mapsto> new_EventHandler)"
proof -
  obtain this pool1 where a: "allocate sizeof_Acceptor (acceptors w) = (this, pool1)"
    by (cases "allocate sizeof_Acceptor (acceptors w)")
  have sub: "pool_inv (subscribers (w\<lparr>acceptors := pool1\<rparr>))" using assms(2) by simp
  obtain p sp where p: "new_Subscriber (w\<lparr>acceptors := pool1\<rparr>) = Inr (p, w\<lparr>acceptors := pool1\<rparr>\<lparr>subscribers := sp\<rparr>)" "pool_inv sp"
      "contents sp = (contents (subscribers (w\<lparr>acceptors := pool1\<rparr>)))(p \<mapsto> new_EventHandler)"
    by (rule new_Subscriber_spec [OF sub])
  let ?a = "\<lparr>acc_subscriber = p, acc_status = NOT_LISTENING, max_connections = n, listening_socket = no_FileDescriptor\<rparr>"
  have pos: "0 < sizeof_Acceptor" by (simp add: sizeof_Acceptor_def)
  obtain ap where ap: "store this ?a pool1 = Inr ap" "pool_inv ap" "this \<noteq> nullptr" "contents ap = (contents (acceptors w))(this \<mapsto> ?a)"
    by (rule pool.new_object [OF assms(1) pos a, of ?a])
  show thesis
    by (rule that [of this ap sp ?a])
       (use p ap in \<open>simp_all add: new_Acceptor_def a put_acceptor_def get_acceptor_def deref_contents\<close>)
qed

text \<open>Registering the two callbacks of an acceptor.\<close>

lemma acceptor_callbacks:
  assumes "pool_inv (subscribers w)" "get_acceptor this w = Inr a" "contents (subscribers w) (acc_subscriber a) = Some new_EventHandler"
  obtains s1 s2 where "acceptor_onError this u w = Inr (w\<lparr>subscribers := s1\<rparr>)"
    "acceptor_onNewConnection this v (w\<lparr>subscribers := s1\<rparr>) = Inr (w\<lparr>subscribers := s2\<rparr>)" "pool_inv s2"
    "contents s2 = (contents (subscribers w))(acc_subscriber a \<mapsto>
       \<lparr>handlers = (\<lambda>_. None)(ErrorEventT \<mapsto> UserEvent u, AcceptEventT \<mapsto> AcceptThen this v), mutex_held = False\<rparr>)"
proof -
  let ?p = "acc_subscriber a"
  let ?h1 = "new_EventHandler\<lparr>handlers := (handlers new_EventHandler)(ErrorEventT \<mapsto> UserEvent u)\<rparr>"
  obtain s1 where s1: "subscriber_on ?p ErrorEventT (UserEvent u) w = Inr (w\<lparr>subscribers := s1\<rparr>)" "pool_inv s1"
      "contents s1 = (contents (subscribers w))(?p \<mapsto> ?h1)"
    by (rule subscriber_on_contents [OF assms(1,3)]) (simp add: new_EventHandler_def)
  let ?w1 = "w\<lparr>subscribers := s1\<rparr>"
  have sub1: "pool_inv (subscribers ?w1)" "contents (subscribers ?w1) ?p = Some ?h1" "\<not> mutex_held ?h1"
    using s1 by (simp_all add: new_EventHandler_def)
  obtain s2 where s2: "subscriber_on ?p AcceptEventT (AcceptThen this v) ?w1 = Inr (?w1\<lparr>subscribers := s2\<rparr>)" "pool_inv s2"
      "contents s2 = (contents (subscribers ?w1))(?p \<mapsto> ?h1\<lparr>handlers := (handlers ?h1)(AcceptEventT \<mapsto> AcceptThen this v)\<rparr>)"
    by (rule subscriber_on_contents [OF sub1])
  have "get_acceptor this ?w1 = Inr a" using assms(2) by (simp add: get_acceptor_def)
  then show thesis
    using s1 s2 assms(2) by (intro that [of s1 s2]) (simp_all add: acceptor_onError_def acceptor_onNewConnection_def new_EventHandler_def)
qed

lemma failure_success [simp]: "\<not> success (failure what address port why)"
  by (simp add: failure_def)

text \<open>Where every \<open>bind\<close> is refused, as for a port in use, \<open>listen\<close> fails.\<close>

definition bind_refused :: "'x sys \<Rightarrow> bool" where
  "bind_refused X \<longleftrightarrow> (\<forall>fd address len x rc x'. sys_bind X fd address len x = (rc, x') \<longrightarrow> sys_errno X x' \<noteq> 0)"

lemma acceptor_listen_refused:
  assumes "bind_refused X" "resolver_contract X" "sq_inv w" "pool_inv (acceptors w)" "get_acceptor this w = Inr a"
  obtains st w' where "acceptor_listen X DP this host port w = Inr (st, w')" "\<not> success st"
proof -
  obtain resolved x1 where r: "resolve X host port DP True (env w) = Inr (resolved, x1)" by (rule resolve_returns [OF assms(2)])
  obtain st w' where l: "acceptor_listen X DP this host port w = Inr (st, w')" by (rule acceptor_listen_outcome [OF assms(3-5) r])
  have "\<not> success s" if opened: "acceptor_open X DP this a host port address v = Inr (s, v')" for address v s v'
  proof -
    obtain raw x2 where 2: "sys_socket X (the (ip_version address)) DP 0 (env v) = (raw, x2)"
      by (cases "sys_socket X (the (ip_version address)) DP 0 (env v)")
    obtain sock x3 where 3: "assign_raw_socket X (listening_socket a) raw x2 = (sock, x3)"
      by (cases "assign_raw_socket X (listening_socket a) raw x2")
    obtain v3 where v3: "put_acceptor this (a\<lparr>listening_socket := sock\<rparr>) (v\<lparr>env := x3\<rparr>) = Inr v3"
      using opened 2 3 by (auto simp: acceptor_open_def res_simps)
    obtain s4 x4 where 4: "set_option X sock SO_REUSEADDR True (env v3) = (s4, x4)" by (cases "set_option X sock SO_REUSEADDR True (env v3)")
    obtain s5 x5 where 5: "sock_bind X sock address x4 = (s5, x5)" by (cases "sock_bind X sock address x4")
    have "\<not> status_ok s5"
      using 5 assms(1)
      by (auto simp: sock_bind_def status_ok_def FileDescriptorStatus_of_def bind_refused_def STATUS_SUCCESS_def split: prod.splits)
    then show ?thesis using opened 2 3 v3 4 5 by (auto simp: acceptor_open_def simp del: append.simps split: if_splits)
  qed
  then have "\<not> success st"
    using l r assms(5) by (auto simp: acceptor_listen_def res_simps simp del: append.simps split: sum.splits if_splits)
  with l show thesis by (rule that)
qed

end
