(* ===== verification/App_Safety.thy ===== *)
theory App_Safety
  imports App_World Net_Safety
begin

text \<open>
  What the sample programs that are shown safe as a whole (\<open>Writer_Safety\<close>, \<open>Reader_Safety\<close>, \<open>Echo_Safety\<close>) share:
  registering the callbacks of a connector, and taking on a connection, as steps of a program.
\<close>

text \<open>A client's connection gets its callbacks and one multi-shot read.\<close>

lemma watch_connection_adds:
  assumes "sq_inv w" "pool_inv (subscribers w)" "contents (subscribers w) (conn_subscriber c) = Some new_EventHandler"
  obtains a rp pool where
    "watch_connection c ue ur w = Inr (\<lparr>success = True, message = ''Success''\<rparr>,
       w\<lparr>subscribers := pool, request_pool := rp, pending_requests := pending_push READ_MULTISHOT a (pending_requests w)\<rparr>)"
    "pool_inv pool" "contents pool = (contents (subscribers w))(conn_subscriber c \<mapsto>
       \<lparr>handlers = (\<lambda>_. None)(ErrorEventT \<mapsto> UserEvent ue, ReadEventT \<mapsto> UserEvent ur), mutex_held = False\<rparr>)"
    "contents rp = (contents (request_pool w))(a \<mapsto> added_request (read_request_of c) (conn_subscriber c))"
    "contents (request_pool w) a = None"
    "(program_step X V good_request)\<^sup>*\<^sup>* w
       (w\<lparr>subscribers := pool, request_pool := rp, pending_requests := pending_push READ_MULTISHOT a (pending_requests w)\<rparr>)"
proof -
  let ?p = "conn_subscriber c" and ?h1 = "new_EventHandler\<lparr>handlers := (handlers new_EventHandler)(ErrorEventT \<mapsto> UserEvent ue)\<rparr>"
  have nn: "?p \<noteq> nullptr" using pool_inv_live_nonnull [OF assms(2)] contents_live [OF assms(3)] by blast
  obtain p1 where p1: "conn_onError c ue w = Inr (w\<lparr>subscribers := p1\<rparr>)" "pool_inv p1" "contents p1 = (contents (subscribers w))(?p \<mapsto> ?h1)"
    unfolding conn_onError_def by (rule subscriber_on_contents [OF assms(2,3)]) (simp add: new_EventHandler_def)
  let ?w1 = "w\<lparr>subscribers := p1\<rparr>"
  have sub1: "pool_inv (subscribers ?w1)" "contents (subscribers ?w1) ?p = Some ?h1" "\<not> mutex_held ?h1"
    using p1(2,3) by (simp_all add: new_EventHandler_def)
  obtain p2 where p2: "conn_onRead c ur ?w1 = Inr (?w1\<lparr>subscribers := p2\<rparr>)" "pool_inv p2"
      "contents p2 = (contents (subscribers ?w1))(?p \<mapsto> ?h1\<lparr>handlers := (handlers ?h1)(ReadEventT \<mapsto> UserEvent ur)\<rparr>)"
    unfolding conn_onRead_def by (rule subscriber_on_contents [OF sub1])
  let ?w2 = "w\<lparr>subscribers := p2\<rparr>"
  have w2: "sq_inv ?w2" using assms(1) by (simp add: sq_inv_def)
  obtain a rp where add: "asyncRead c ?w2 = Inr (\<lparr>success = True, message = ''Success''\<rparr>,
        ?w2\<lparr>request_pool := rp, pending_requests := pending_push READ_MULTISHOT a (pending_requests ?w2)\<rparr>)"
      "contents rp = (contents (request_pool ?w2))(a \<mapsto> added_request (read_request_of c) ?p)" "contents (request_pool ?w2) a = None"
      "program_step X V good_request ?w2 (?w2\<lparr>request_pool := rp, pending_requests := pending_push READ_MULTISHOT a (pending_requests ?w2)\<rparr>)"
    by (rule asyncRead_adds [OF w2 nn])
  have "program_step X V good_request w ?w2" by (rule program_own) simp_all
  then have "(program_step X V good_request)\<^sup>*\<^sup>* w
      (w\<lparr>subscribers := p2, request_pool := rp, pending_requests := pending_push READ_MULTISHOT a (pending_requests w)\<rparr>)"
    using add(4) by (simp del: pending_push.simps)
  then show thesis
    by (intro that [of a rp p2]) (use p1 p2 add in \<open>simp_all add: watch_connection_def new_EventHandler_def\<close>)
qed

text \<open>Registering the two callbacks of a connector.\<close>

lemma connector_callbacks:
  assumes "pool_inv (subscribers w)" "get_connector this w = Inr k" "contents (subscribers w) (ctr_subscriber k) = Some new_EventHandler"
  obtains sp where "bindE (connector_onError this u w) (connector_onConnection this v) = Inr (w\<lparr>subscribers := sp\<rparr>)" "pool_inv sp"
    "contents sp = (contents (subscribers w))(ctr_subscriber k \<mapsto>
       \<lparr>handlers = (\<lambda>_. None)(ErrorEventT \<mapsto> UserEvent u, ConnectEventT \<mapsto> ConnectThen this v), mutex_held = False\<rparr>)"
proof -
  let ?p = "ctr_subscriber k"
  let ?h1 = "new_EventHandler\<lparr>handlers := (handlers new_EventHandler)(ErrorEventT \<mapsto> UserEvent u)\<rparr>"
  obtain p1 where p1: "subscriber_on ?p ErrorEventT (UserEvent u) w = Inr (w\<lparr>subscribers := p1\<rparr>)" "pool_inv p1"
      "contents p1 = (contents (subscribers w))(?p \<mapsto> ?h1)"
    by (rule subscriber_on_contents [OF assms(1,3)]) (simp add: new_EventHandler_def)
  let ?w1 = "w\<lparr>subscribers := p1\<rparr>"
  have sub1: "pool_inv (subscribers ?w1)" "contents (subscribers ?w1) ?p = Some ?h1" "\<not> mutex_held ?h1"
    using p1(2,3) by (simp_all add: new_EventHandler_def)
  obtain p2 where p2: "subscriber_on ?p ConnectEventT (ConnectThen this v) ?w1 = Inr (?w1\<lparr>subscribers := p2\<rparr>)" "pool_inv p2"
      "contents p2 = (contents (subscribers ?w1))(?p \<mapsto> ?h1\<lparr>handlers := (handlers ?h1)(ConnectEventT \<mapsto> ConnectThen this v)\<rparr>)"
    by (rule subscriber_on_contents [OF sub1])
  have "get_connector this ?w1 = Inr k" using assms(2) by (simp add: get_connector_def)
  then show thesis
    using p1 p2 assms(2) by (intro that [of p2]) (simp_all add: connector_onError_def connector_onConnection_def new_EventHandler_def)
qed

text \<open>
  The lambda of a connector: it gives the program's callback a connection with a fresh subscriber, and marks the
  connector as connected once the callback has taken the connection over.
\<close>

lemma connect_then_hands_over:
  assumes "pool_inv (subscribers w)" "pool_inv (connectors w)" "get_connector this w = Inr k"
  obtains s1 c kp where "pool_inv s1" "contents (subscribers w) (conn_subscriber c) = None"
    "contents s1 = (contents (subscribers w))(conn_subscriber c \<mapsto> new_EventHandler)"
    "\<forall>w3. ucon u c (w\<lparr>subscribers := s1, connectors := kp\<rparr>) = Inr (snd (move_Connection c), w3) \<longrightarrow> connectors w3 = kp \<longrightarrow>
       (\<exists>kq k'. connect_then X ucon this u w = Inr (w3\<lparr>connectors := kq\<rparr>) \<and> pool_inv kq \<and> get_connector this (w3\<lparr>connectors := kq\<rparr>) = Inr k')"
proof -
  obtain own left where mv: "fd_move (ctr_socket k) = (own, left)" by (cases "fd_move (ctr_socket k)")
  obtain q s1 where q: "new_Subscriber w = Inr (q, w\<lparr>subscribers := s1\<rparr>)" "pool_inv s1" "block_size (subscribers w) q = None"
      "contents s1 = (contents (subscribers w))(q \<mapsto> new_EventHandler)"
    by (rule new_Subscriber_spec [OF assms(1)])
  have fresh: "contents (subscribers w) q = None" using q(3) pool.value_sized by fastforce
  let ?c = "\<lparr>conn_socket = own, conn_endpoint = Endpoint (raw_fd own), conn_subscriber = q\<rparr>" and ?w1 = "w\<lparr>subscribers := s1\<rparr>"
  let ?k = "k\<lparr>ctr_socket := left\<rparr>"
  have cell: "pool_inv (connectors ?w1)" "get_connector this ?w1 = Inr k" using assms(2,3) by (simp_all add: get_connector_def)
  obtain kp where kp: "put_connector this ?k ?w1 = Inr (?w1\<lparr>connectors := kp\<rparr>)" "pool_inv kp" "get_connector this (?w1\<lparr>connectors := kp\<rparr>) = Inr ?k"
    by (rule put_connector_step [OF cell])
  have "\<exists>kq k'. connect_then X ucon this u w = Inr (w3\<lparr>connectors := kq\<rparr>) \<and> pool_inv kq \<and> get_connector this (w3\<lparr>connectors := kq\<rparr>) = Inr k'"
    if w3: "ucon u ?c (w\<lparr>subscribers := s1, connectors := kp\<rparr>) = Inr (snd (move_Connection ?c), w3)" "connectors w3 = kp" for w3
  proof -
    have cell3: "pool_inv (connectors w3)" "get_connector this w3 = Inr ?k" using kp(2,3) w3(2) by (simp_all add: get_connector_def)
    obtain kq where kq: "put_connector this (?k\<lparr>connection_status := CONNECTED\<rparr>) w3 = Inr (w3\<lparr>connectors := kq\<rparr>)" "pool_inv kq"
        "get_connector this (w3\<lparr>connectors := kq\<rparr>) = Inr (?k\<lparr>connection_status := CONNECTED\<rparr>)"
      by (rule put_connector_step [OF cell3])
    have "connect_then X ucon this u w = Inr (w3\<lparr>connectors := kq\<rparr>)"
      using assms(3) q(1) mv kp(1) w3(1) cell3(2) kq(1) by (simp add: connect_then_def new_Connection_def delete_moved_Connection)
    with kq(2,3) show ?thesis by blast
  qed
  with q(2,4) fresh show thesis by (intro that [of s1 ?c kp]) simp_all
qed

text \<open>\<open>listen\<close> as steps of a program: it adds at most one accept request, whether it succeeds or not.\<close>

lemma acceptor_listens:
  assumes "posix_keeps_rings X V" "sq_inv w" "pool_inv (acceptors w)" "get_acceptor this w = Inr a" "acc_subscriber a \<noteq> nullptr"
    "acceptor_listen X DP this host port w = Inr (st, w')"
  obtains a' where "(program_step X V good_request)\<^sup>*\<^sup>* w w'" "get_acceptor this w' = Inr a'"
    "w' = w\<lparr>env := env w', acceptors := acceptors w', request_pool := request_pool w', pending_requests := pending_requests w'\<rparr>"
    "\<forall>b r. contents (request_pool w') b = Some r \<longrightarrow>
       contents (request_pool w) b = Some r \<or> kind r = ACCEPT \<and> user_data (header r) = acc_subscriber a"
proof (cases "success st")
  case False
  obtain x q where w': "w' = w\<lparr>env := x, acceptors := q\<rparr>" "same_rings X V (env w) x"
    by (rule acceptor_listen_fails [OF assms(1,6) False])
  obtain a' where a': "get_acceptor this w' = Inr a'" by (rule acceptor_listen_keeps [OF assms(2-4,6)])
  have "(program_step X V good_request)\<^sup>*\<^sup>* w w'" by (rule program_steps_own [OF rtranclp.rtrancl_refl]) (simp_all add: w')
  from that [OF this a'] show thesis by (simp add: w')
next
  case True
  obtain r a' where r: "wf_request r" "kind r = ACCEPT" "user_data (header r) = acc_subscriber a"
      "push r w = Inr (w\<lparr>request_pool := request_pool w', pending_requests := pending_requests w'\<rparr>)" "same_rings X V (env w) (env w')"
      "w' = w\<lparr>env := env w', acceptors := acceptors w', request_pool := request_pool w', pending_requests := pending_requests w'\<rparr>"
      "get_acceptor this w' = Inr a'"
    by (rule acceptor_listen_pushes [OF assms(1-4,6) True])
  have good: "good_request r" using r(2,3) assms(5) by (cases r) (auto simp: good_request_def)
  have "program_step X V good_request w (w\<lparr>request_pool := request_pool w', pending_requests := pending_requests w'\<rparr>)"
    by (rule program_push [of r]) (rule r(1), rule good, rule r(4))
  then have steps: "(program_step X V good_request)\<^sup>*\<^sup>* w w'" by (rule program_steps_own [OF r_into_rtranclp]) (simp_all add: r(5))
  obtain b where "contents (request_pool w') = (contents (request_pool w))(b \<mapsto> r)" using push_contents [OF assms(2) r(1,4)] by auto
  with that [OF steps r(7,6)] r(2,3) show thesis by simp
qed

end
