(* ===== verification/Writer_Safety.thy ===== *)
theory Writer_Safety
  imports Tcp_Writer App_Safety
begin

text \<open>
  The throughput writer as a whole, from its \<open>main\<close> to the end of its loop: the invariant of its state, the
  proof that its callbacks keep the contract of \<open>Loop_Safety\<close>, and what follows for every run.
\<close>

section \<open>The invariant of the writer\<close>

text \<open>The callbacks of the connector's and of the connection's subscriber.\<close>

definition connecting_handlers :: "ptr \<Rightarrow> event_type \<Rightarrow> writer_callback closure option" where
  "connecting_handlers this =
     (\<lambda>_. None)(ErrorEventT \<mapsto> UserEvent Writer_error, ConnectEventT \<mapsto> ConnectThen this Writer_connected)"

definition writing_handlers :: "event_type \<Rightarrow> writer_callback closure option" where
  "writing_handlers =
     (\<lambda>_. None)(ErrorEventT \<mapsto> UserEvent Writer_connection_error, WriteEventT \<mapsto> UserEvent Writer_written)"

text \<open>
  Before the connection is there the only request is the connector's; afterwards there are only writes on
  the connection. A second connect event would replace the connection and free a subscriber with writes
  under way.
\<close>

definition writer_inv :: "'x tcp_writer \<Rightarrow> (ptr \<rightharpoonup> request) \<Rightarrow> bool" where
  "writer_inv w m \<longleftrightarrow>
     should_continue w \<and> sp_len (writer_packet w) < 2 ^ 31 \<and> pool_inv (connectors w) \<and>
     (\<exists>k. get_connector (writer_connector w) w = Inr k \<and>
        (case writer_connection w of
           None \<Rightarrow> registered w (ctr_subscriber k) = Some (connecting_handlers (writer_connector w)) \<and>
             (\<forall>a r. m a = Some r \<longrightarrow> user_data (header r) = ctr_subscriber k \<and> kind r = CONNECT) \<and>
             (\<forall>a r b q. m a = Some r \<longrightarrow> m b = Some q \<longrightarrow> a = b)
         | Some c \<Rightarrow> registered w (conn_subscriber c) = Some writing_handlers \<and>
             (\<forall>a r. m a = Some r \<longrightarrow> user_data (header r) = conn_subscriber c \<and> kind r = WRITE)))"

abbreviation writer_cb :: "'x sys \<Rightarrow> writer_callback closure \<Rightarrow> event \<Rightarrow> 'x tcp_writer \<Rightarrow> stop + 'x tcp_writer" where
  "writer_cb X \<equiv> run_closure X (writer_event X) writer_on_connection"

lemma writer_fields:
  assumes "event_loop.more w' = event_loop.more w"
  shows "connectors w' = connectors w" "writer_connector w' = writer_connector w"
    "writer_connection w' = writer_connection w" "writer_packet w' = writer_packet w"
  using assms by (cases w, cases w', simp)+

lemma writer_program_invariant: "program_invariant (writer_inv :: 'x tcp_writer \<Rightarrow> (ptr \<rightharpoonup> request) \<Rightarrow> bool)"
  unfolding program_invariant_def
proof (intro allI impI)
  fix w w' :: "'x tcp_writer" and m m' :: "ptr \<rightharpoonup> request"
  assume inv: "writer_inv w m" and more: "event_loop.more w' = event_loop.more w" "should_continue w' = should_continue w"
    "registered w' = registered w" and le: "m' \<subseteq>\<^sub>m m"
  have sub: "m a = Some r" if "m' a = Some r" for a r using that le by (metis domI map_le_def)
  note same = writer_fields [OF more(1)]
  show "writer_inv w' m'"
    using inv sub unfolding writer_inv_def get_connector_def same more(2,3) by (fastforce split: option.splits)
qed

section \<open>Its callbacks\<close>

lemma writer_tick_frame_all:
  "env (writer_tick w) = env w" "subscribers (writer_tick w) = subscribers w" "connectors (writer_tick w) = connectors w"
  "writer_connector (writer_tick w) = writer_connector w" "should_continue (writer_tick w) = should_continue w"
  "ring_buffers (writer_tick w) = ring_buffers w" "error_handler (writer_tick w) = error_handler w"
  by (simp_all add: writer_tick_def Let_def log_cout_def)

lemma writer_writes:
  assumes "callback_state bufs writer_inv p a r f e w" "writer_connection w = Some c"
  obtains w' where "writer_written w = Inr w'" "(program_step X V good_request)\<^sup>*\<^sup>* w w'"
    "world_ok bufs writer_inv {p} (released a r (contents (request_pool w'))) w'"
proof -
  let ?m = "contents (request_pool w)" and ?v = "writer_tick w"
  have st: "world_ok bufs writer_inv {p} ?m w" "sq_inv w" using assms(1) by (simp_all add: callback_state_def)
  then have inv: "writer_inv w ?m" using world_okD(7) by blast
  obtain h where h: "contents (subscribers w) (conn_subscriber c) = Some h"
    using inv assms(2) by (auto simp: writer_inv_def registered_def)
  have nn: "conn_subscriber c \<noteq> nullptr"
    using pool_inv_live_nonnull [OF world_okD(1) [OF st(1)]] contents_live [OF h] by blast
  have v: "sq_inv ?v" "sp_len (writer_packet ?v) < 2 ^ 31" using st(2) inv by (simp_all add: writer_inv_def)
  obtain b rp where w': "asyncWrite c (writer_packet ?v) ?v = Inr (\<lparr>success = True, message = ''Success''\<rparr>,
        ?v\<lparr>request_pool := rp, pending_requests := pending_push WRITE b (pending_requests ?v)\<rparr>)"
      "contents rp = (contents (request_pool ?v))(b \<mapsto> added_request (write_request_of c (writer_packet ?v)) (conn_subscriber c))"
      "program_step X V good_request ?v (?v\<lparr>request_pool := rp, pending_requests := pending_push WRITE b (pending_requests ?v)\<rparr>)"
    by (rule asyncWrite_adds [OF v(1) nn v(2)])
  let ?w' = "?v\<lparr>request_pool := rp, pending_requests := pending_push WRITE b (pending_requests ?v)\<rparr>"
  have reg: "registered (?v\<lparr>request_pool := x, pending_requests := y\<rparr>) = registered w" for x y by (simp add: registered_def fun_eq_iff writer_tick_frame_all)
  have "writer_inv ?w' (contents rp)"
    using inv assms(2) w'(2)
    by (auto simp: writer_inv_def get_connector_def reg writer_tick_frame_all write_request_good simp del: pending_push.simps)
  then have "world_ok bufs writer_inv {p} (contents rp) ?w'"
    using st(1) w'(2) h
    by (intro world_ok_requests [OF st(1)]) (auto simp: writer_tick_frame_all write_request_good split: if_splits)
  then have ok: "world_ok bufs writer_inv {p} (released a r (contents (request_pool ?w'))) ?w'"
    using world_ok_mono [OF writer_program_invariant _ released_le] by simp
  have "program_step X V good_request w ?v" by (rule program_own) (simp_all add: writer_tick_frame_all)
  then have steps: "(program_step X V good_request)\<^sup>*\<^sup>* w ?w'" using w'(3) by (rule converse_rtranclp_into_rtranclp [OF _ r_into_rtranclp])
  have "writer_written w = Inr ?w'" using w'(1) assms(2) by (simp add: writer_written_def)
  from this steps ok show thesis by (rule that)
qed

text \<open>The connection arrives: callbacks are registered on its fresh subscriber and the first packet is written.\<close>

lemma writer_starts:
  assumes "sq_inv w" "pool_inv (subscribers w)" "contents (subscribers w) (conn_subscriber c) = Some new_EventHandler"
    "sp_len (writer_packet w) < 2 ^ 31" "writer_connection w = Some c"
  obtains a rp pool where
    "writer_onConnected w = Inr (w\<lparr>subscribers := pool, request_pool := rp, pending_requests := pending_push WRITE a (pending_requests w)\<rparr>)"
    "pool_inv pool" "contents pool = (contents (subscribers w))(conn_subscriber c \<mapsto> \<lparr>handlers = writing_handlers, mutex_held = False\<rparr>)"
    "contents rp = (contents (request_pool w))(a \<mapsto> added_request (write_request_of c (writer_packet w)) (conn_subscriber c))"
    "contents (request_pool w) a = None"
    "(program_step X V good_request)\<^sup>*\<^sup>* w
       (w\<lparr>subscribers := pool, request_pool := rp, pending_requests := pending_push WRITE a (pending_requests w)\<rparr>)"
proof -
  let ?p = "conn_subscriber c"
  have nn: "?p \<noteq> nullptr" using pool_inv_live_nonnull [OF assms(2)] contents_live [OF assms(3)] by blast
  obtain p1 where p1: "conn_onError c Writer_connection_error w = Inr (w\<lparr>subscribers := p1\<rparr>)" "pool_inv p1"
      "contents p1 = (contents (subscribers w))(?p \<mapsto> new_EventHandler\<lparr>handlers := (handlers new_EventHandler)(ErrorEventT \<mapsto> UserEvent Writer_connection_error)\<rparr>)"
    unfolding conn_onError_def by (rule subscriber_on_contents [OF assms(2,3)]) (simp add: new_EventHandler_def)
  let ?h1 = "new_EventHandler\<lparr>handlers := (handlers new_EventHandler)(ErrorEventT \<mapsto> UserEvent Writer_connection_error)\<rparr>"
  have sub1: "pool_inv (subscribers (w\<lparr>subscribers := p1\<rparr>))" "contents (subscribers (w\<lparr>subscribers := p1\<rparr>)) ?p = Some ?h1"
      "\<not> mutex_held ?h1" using p1(2,3) by (simp_all add: new_EventHandler_def)
  obtain p2 where p2: "conn_onWrite c Writer_written (w\<lparr>subscribers := p1\<rparr>) = Inr (w\<lparr>subscribers := p1\<rparr>\<lparr>subscribers := p2\<rparr>)" "pool_inv p2"
      "contents p2 = (contents (subscribers (w\<lparr>subscribers := p1\<rparr>)))(?p \<mapsto> ?h1\<lparr>handlers := (handlers ?h1)(WriteEventT \<mapsto> UserEvent Writer_written)\<rparr>)"
    unfolding conn_onWrite_def by (rule subscriber_on_contents [OF sub1])
  have h2: "?h1\<lparr>handlers := (handlers ?h1)(WriteEventT \<mapsto> UserEvent Writer_written)\<rparr> = \<lparr>handlers = writing_handlers, mutex_held = False\<rparr>"
    by (simp add: new_EventHandler_def writing_handlers_def)
  let ?w2 = "w\<lparr>subscribers := p2\<rparr>"
  have w2: "sq_inv ?w2" "sp_len (writer_packet w) < 2 ^ 31" using assms(1,4) by (simp_all add: sq_inv_def)
  obtain a rp where add: "asyncWrite c (writer_packet w) ?w2 = Inr (\<lparr>success = True, message = ''Success''\<rparr>,
        ?w2\<lparr>request_pool := rp, pending_requests := pending_push WRITE a (pending_requests ?w2)\<rparr>)"
      "contents rp = (contents (request_pool ?w2))(a \<mapsto> added_request (write_request_of c (writer_packet w)) ?p)"
      "contents (request_pool ?w2) a = None"
      "program_step X V good_request ?w2 (?w2\<lparr>request_pool := rp, pending_requests := pending_push WRITE a (pending_requests ?w2)\<rparr>)"
    by (rule asyncWrite_adds [OF w2(1) nn w2(2)])
  have "program_step X V good_request w ?w2" by (rule program_own) simp_all
  then have "(program_step X V good_request)\<^sup>*\<^sup>* w
      (w\<lparr>subscribers := p2, request_pool := rp, pending_requests := pending_push WRITE a (pending_requests w)\<rparr>)"
    using add(4) by (simp del: pending_push.simps)
  moreover have "contents p2 = (contents (subscribers w))(?p \<mapsto> \<lparr>handlers = writing_handlers, mutex_held = False\<rparr>)"
    using p1(3) p2(3) h2 by simp
  moreover have "writer_onConnected w =
      Inr (w\<lparr>subscribers := p2, request_pool := rp, pending_requests := pending_push WRITE a (pending_requests w)\<rparr>)"
    using p1(1) p2(1) add(1) assms(5) by (simp add: writer_onConnected_def)
  ultimately show thesis using p2(2) add(2,3) by (intro that [of a rp p2]) simp_all
qed

lemma writer_connected_first:
  assumes "writer_connection w = None"
  shows "\<exists>t. writer_connected c w =
    bindE (writer_onConnected (w\<lparr>cout := t, writer_connection := Some c\<rparr>)) (\<lambda>w3. Inr (snd (move_Connection c), w3))"
proof -
  let ?t = "cout w @ (''TcpWriter: Connected to '' @ show_int (endpoint_fd (conn_endpoint_of c))) @ newline"
  have "writer_connected c w =
    bindE (writer_onConnected (w\<lparr>cout := ?t, writer_connection := Some c\<rparr>)) (\<lambda>w3. Inr (snd (move_Connection c), w3))"
    using assms move_Connection_own [of c]
    by (cases "move_Connection c") (simp add: writer_connected_def log_cout_def Let_def del: append.simps)
  then show ?thesis ..
qed

text \<open>The lambda of the connector on the first connect event: what it does to each part of the state.\<close>

lemma writer_connect_then:
  assumes "sq_inv w" "pool_inv (subscribers w)" "get_connector (writer_connector w) w = Inr k" "pool_inv (connectors w)"
    "sp_len (writer_packet w) < 2 ^ 31" "writer_connection w = None"
  obtains t c s2 rp b kq k' w' where
    "connect_then X writer_on_connection (writer_connector w) Writer_connected w = Inr w'" "(program_step X V good_request)\<^sup>*\<^sup>* w w'"
    "w' = w\<lparr>cout := t, writer_connection := Some c, subscribers := s2, request_pool := rp,
       pending_requests := pending_push WRITE b (pending_requests w), connectors := kq\<rparr>"
    "contents (subscribers w) (conn_subscriber c) = None" "pool_inv s2"
    "contents s2 = (contents (subscribers w))(conn_subscriber c \<mapsto> \<lparr>handlers = writing_handlers, mutex_held = False\<rparr>)"
    "contents (request_pool w) b = None"
    "contents rp = (contents (request_pool w))(b \<mapsto> added_request (write_request_of c (writer_packet w)) (conn_subscriber c))"
    "get_connector (writer_connector w) w' = Inr k'" "pool_inv kq"
proof -
  let ?th = "writer_connector w"
  obtain s1 c kp where c: "pool_inv s1" "contents (subscribers w) (conn_subscriber c) = None"
      "contents s1 = (contents (subscribers w))(conn_subscriber c \<mapsto> new_EventHandler)"
    and hands: "\<forall>w3. writer_on_connection Writer_connected c (w\<lparr>subscribers := s1, connectors := kp\<rparr>) = Inr (snd (move_Connection c), w3) \<longrightarrow>
       connectors w3 = kp \<longrightarrow> (\<exists>kq k'. connect_then X writer_on_connection ?th Writer_connected w = Inr (w3\<lparr>connectors := kq\<rparr>) \<and>
         pool_inv kq \<and> get_connector ?th (w3\<lparr>connectors := kq\<rparr>) = Inr k')"
    by (rule connect_then_hands_over [OF assms(2,4,3)])
  let ?w2 = "w\<lparr>subscribers := s1, connectors := kp\<rparr>"
  have "writer_connection ?w2 = None" using assms(6) by simp
  then obtain t where t: "writer_connected c ?w2 =
      bindE (writer_onConnected (?w2\<lparr>cout := t, writer_connection := Some c\<rparr>)) (\<lambda>w3. Inr (snd (move_Connection c), w3))"
    using writer_connected_first by blast
  let ?w3 = "?w2\<lparr>cout := t, writer_connection := Some c\<rparr>"
  have w3: "sq_inv ?w3" "pool_inv (subscribers ?w3)" "contents (subscribers ?w3) (conn_subscriber c) = Some new_EventHandler"
      "sp_len (writer_packet ?w3) < 2 ^ 31" "writer_connection ?w3 = Some c"
    using assms(1,5) c by (simp_all add: sq_inv_def)
  obtain b rp s2 where up: "writer_onConnected ?w3 =
        Inr (?w3\<lparr>subscribers := s2, request_pool := rp, pending_requests := pending_push WRITE b (pending_requests ?w3)\<rparr>)"
      "pool_inv s2" "contents s2 = (contents (subscribers ?w3))(conn_subscriber c \<mapsto> \<lparr>handlers = writing_handlers, mutex_held = False\<rparr>)"
      "contents rp = (contents (request_pool ?w3))(b \<mapsto> added_request (write_request_of c (writer_packet ?w3)) (conn_subscriber c))"
      "contents (request_pool ?w3) b = None"
      "(program_step X V good_request)\<^sup>*\<^sup>* ?w3
         (?w3\<lparr>subscribers := s2, request_pool := rp, pending_requests := pending_push WRITE b (pending_requests ?w3)\<rparr>)"
    by (rule writer_starts [OF w3])
  let ?w4 = "?w3\<lparr>subscribers := s2, request_pool := rp, pending_requests := pending_push WRITE b (pending_requests ?w3)\<rparr>"
  have "writer_on_connection Writer_connected c ?w2 = Inr (snd (move_Connection c), ?w4)" using t up(1) by simp
  then obtain kq k' where kq: "connect_then X writer_on_connection ?th Writer_connected w = Inr (?w4\<lparr>connectors := kq\<rparr>)" "pool_inv kq"
      "get_connector ?th (?w4\<lparr>connectors := kq\<rparr>) = Inr k'"
    using hands by fastforce
  have first: "(program_step X V good_request)\<^sup>*\<^sup>* w ?w3" by (rule program_steps_own [OF rtranclp.rtrancl_refl]) simp_all
  have steps: "(program_step X V good_request)\<^sup>*\<^sup>* w (?w4\<lparr>connectors := kq\<rparr>)"
    by (rule program_steps_own [OF rtranclp_trans [OF first up(6)]]) simp_all
  have w5: "?w4\<lparr>connectors := kq\<rparr> = w\<lparr>cout := t, writer_connection := Some c, subscribers := s2, request_pool := rp,
      pending_requests := pending_push WRITE b (pending_requests w), connectors := kq\<rparr>" by simp
  show thesis by (rule that [OF kq(1) steps w5 c(2) up(2) _ _ _ kq(3,2)]) (use c(3) up(3-5) in simp_all)
qed

lemma writer_connects:
  assumes "callback_state bufs writer_inv p a r f ConnectEvent w" "writer_connection w = None" "kind r = CONNECT"
  obtains w' where "connect_then X writer_on_connection (writer_connector w) Writer_connected w = Inr w'"
    "(program_step X V good_request)\<^sup>*\<^sup>* w w'" "world_ok bufs writer_inv {p} (released a r (contents (request_pool w'))) w'"
proof -
  let ?m = "contents (request_pool w)" and ?th = "writer_connector w"
  have st: "world_ok bufs writer_inv {p} ?m w" "sq_inv w" "?m a = Some r" using assms(1) by (simp_all add: callback_state_def)
  have inv: "writer_inv w ?m" by (rule world_okD(7) [OF st(1)])
  obtain k where k: "get_connector ?th w = Inr k" "pool_inv (connectors w)" "sp_len (writer_packet w) < 2 ^ 31"
      and only: "\<And>b q. ?m b = Some q \<Longrightarrow> b = a"
    using inv assms(2) st(3) by (auto simp: writer_inv_def)
  obtain t c s2 rp b kq k' w' where w': "connect_then X writer_on_connection ?th Writer_connected w = Inr w'"
      "(program_step X V good_request)\<^sup>*\<^sup>* w w'"
    and eq: "w' = w\<lparr>cout := t, writer_connection := Some c, subscribers := s2, request_pool := rp,
       pending_requests := pending_push WRITE b (pending_requests w), connectors := kq\<rparr>"
    and subs: "contents (subscribers w) (conn_subscriber c) = None" "pool_inv s2"
      "contents s2 = (contents (subscribers w))(conn_subscriber c \<mapsto> \<lparr>handlers = writing_handlers, mutex_held = False\<rparr>)"
    and reqs: "?m b = None" "contents rp = ?m(b \<mapsto> added_request (write_request_of c (writer_packet w)) (conn_subscriber c))"
    and cell: "get_connector ?th w' = Inr k'" "pool_inv kq"
    by (rule writer_connect_then [OF st(2) world_okD(1) [OF st(1)] k assms(2)])
  let ?M = "[b \<mapsto> added_request (write_request_of c (writer_packet w)) (conn_subscriber c)]"
  have old: "?m = [a \<mapsto> r]"
  proof
    fix x show "?m x = [a \<mapsto> r] x" using only [of x] st(3) by (cases "?m x") auto
  qed
  then have "b \<noteq> a" using reqs(1) by auto
  then have M: "released a r (contents (request_pool w')) = ?M"
    using reqs(2) old assms(3) by (simp add: eq released_def single_shot_def fun_eq_iff)
  have "writer_inv w' ?M"
    using inv cell subs(3) by (auto simp: eq writer_inv_def registered_def write_request_good simp del: pending_push.simps split: if_splits)
  then have "world_ok bufs writer_inv {p} ?M w'"
    using subs(2,3)
    by (intro world_ok_new_subscriber [OF st(1) subs(1), where h = "\<lparr>handlers = writing_handlers, mutex_held = False\<rparr>"])
       (auto simp: eq write_request_good simp del: pending_push.simps split: if_splits)
  then have "world_ok bufs writer_inv {p} (released a r (contents (request_pool w'))) w'" using M by simp
  with w' show thesis by (rule that)
qed

text \<open>Every callback of the writer, in every state the loop can run it in.\<close>

lemma writer_callback:
  assumes "callback_state bufs writer_inv p a r f e w"
  shows "writer_cb X f e w = Inl Terminate \<or>
    (\<exists>w'. writer_cb X f e w = Inr w' \<and> (program_step X V good_request)\<^sup>*\<^sup>* w w' \<and>
       world_ok bufs writer_inv {p} (released a r (contents (request_pool w'))) w')"
proof -
  obtain g where st: "writer_inv w (contents (request_pool w))" "contents (request_pool w) a = Some r" "user_data (header r) = p"
      "may_see bufs r e" "registered w p = Some g" "g (type_of e) = Some f"
    using assms world_okD(7) unfolding callback_state_def by blast
  have event: "(\<exists>n. e = ErrorEvent n) \<or> (\<exists>c. e = completion_event c bufs r)" using st(4) by (auto simp: may_see_def)
  show ?thesis
  proof (cases "writer_connection w")
    case None
    then have r: "kind r = CONNECT" "g = connecting_handlers (writer_connector w)"
      using st(1-3,5) by (auto simp: writer_inv_def)
    from event consider n where "e = ErrorEvent n" | "e = ConnectEvent" using r(1) by (cases r) auto
    then show ?thesis
    proof cases
      case 1
      then have "f = UserEvent Writer_error" using st(6) r(2) by (simp add: connecting_handlers_def)
      with 1 show ?thesis by (simp add: Let_def)
    next
      case 2
      then have f: "f = ConnectThen (writer_connector w) Writer_connected" using st(6) r(2) by (simp add: connecting_handlers_def)
      show ?thesis
        by (rule writer_connects [OF assms [unfolded 2] None r(1), of X V]) (simp add: 2 f)
    qed
  next
    case (Some c)
    then have r: "kind r = WRITE" "g = writing_handlers" using st(1-3,5) by (auto simp: writer_inv_def)
    from event consider n where "e = ErrorEvent n" | n b where "e = WriteEvent n b" using r(1) by (cases r) auto
    then show ?thesis
    proof cases
      case 1
      then have "f = UserEvent Writer_connection_error" using st(6) r(2) by (simp add: writing_handlers_def)
      with 1 show ?thesis by (simp add: Let_def)
    next
      case 2
      then have f: "f = UserEvent Writer_written" using st(6) r(2) by (simp add: writing_handlers_def)
      show ?thesis by (rule writer_writes [OF assms Some, of X V]) (simp add: 2 f)
    qed
  qed
qed

lemma writer_well_behaved: "well_behaved X V bufs writer_inv (writer_cb X)"
  unfolding well_behaved_def by (intro allI impI) (drule writer_callback [where X = X and V = V], auto)

lemma writer_stops: "callback_stops bufs writer_inv (writer_cb X) s \<Longrightarrow> s = Terminate"
  unfolding callback_stops_def using writer_callback [where X = X] by (fastforce simp: noexceptE_def)

interpretation writer: loop_program X V bufs writer_inv "writer_cb X" for X V bufs
  by unfold_locales (rule writer_program_invariant, rule writer_well_behaved)

section \<open>From main to the loop\<close>

text \<open>The set-up registers the two callbacks of the connector and leaves one connect request.\<close>

lemma writer_main_setup:
  assumes "pool_inv (connectors w)" "pool_inv (subscribers w)" "contents (subscribers w) = Map.empty"
  obtains this k s2 kp t w3 where
    "w3 = w\<lparr>connectors := kp, writer_connector := this, writer_connection := None,
       writer_packet := \<lparr>sp_base = base, sp_len = chunk_size\<rparr>, remaining_bytes_before_print := BYTES_PRINT_INTERVAL,
       written_bytes := 0, cout := cout w @ t, subscribers := s2\<rparr>"
    "writer_main X host port chunk_size base w =
       bindE (asyncConnect X SOCK_STREAM this host port w3) (\<lambda>(status, w4). if \<not> success status then Inl Terminate else Inr w4)"
    "get_connector this w3 = Inr k" "pool_inv kp" "pool_inv s2"
    "contents s2 = [ctr_subscriber k \<mapsto> \<lparr>handlers = connecting_handlers this, mutex_held = False\<rparr>]"
proof -
  obtain this k sp kp where n: "new_Connector w = Inr (this, w\<lparr>subscribers := sp, connectors := kp\<rparr>)" "pool_inv sp" "pool_inv kp"
      "get_connector this (w\<lparr>subscribers := sp, connectors := kp\<rparr>) = Inr k"
      "contents sp = (contents (subscribers w))(ctr_subscriber k \<mapsto> new_EventHandler)"
    by (rule new_Connector_spec [OF assms(1,2)])
  obtain t where t: "log_cout (''TcpWriter: Connecting to '' @ address_text host port @ ''...'') v = v\<lparr>cout := cout v @ t\<rparr>" for v :: "'a tcp_writer"
    unfolding log_cout_def by blast
  let ?w2 = "w\<lparr>subscribers := sp, connectors := kp, writer_connector := this, writer_connection := None,
      writer_packet := \<lparr>sp_base = base, sp_len = chunk_size\<rparr>, remaining_bytes_before_print := BYTES_PRINT_INTERVAL,
      written_bytes := 0, cout := cout w @ t\<rparr>"
  have w2: "pool_inv (subscribers ?w2)" "get_connector this ?w2 = Inr k"
      "contents (subscribers ?w2) (ctr_subscriber k) = Some new_EventHandler"
    using n by (simp_all add: get_connector_def)
  obtain s2 where s2: "bindE (connector_onError this Writer_error ?w2) (connector_onConnection this Writer_connected) = Inr (?w2\<lparr>subscribers := s2\<rparr>)"
      "pool_inv s2" "contents s2 = (contents (subscribers ?w2))(ctr_subscriber k \<mapsto> \<lparr>handlers = connecting_handlers this, mutex_held = False\<rparr>)"
    unfolding connecting_handlers_def by (rule connector_callbacks [OF w2])
  let ?w3 = "?w2\<lparr>subscribers := s2\<rparr>"
  obtain v where v: "connector_onError this Writer_error ?w2 = Inr v" "connector_onConnection this Writer_connected v = Inr ?w3"
    using s2(1) by (auto simp: res_simps)
  have "writer_connector v = this"
    using v(1) subscriber_on_frame by (fastforce simp: connector_onError_def res_simps)
  then have main: "writer_main X host port chunk_size base w =
      bindE (asyncConnect X SOCK_STREAM this host port ?w3) (\<lambda>(status, w4). if \<not> success status then Inl Terminate else Inr w4)"
    using n(1) t v
    by (auto simp: writer_main_def new_RingnetTcpWriterClient_def writer_connect_def Let_def simp del: append.simps cong: if_cong)
  have "get_connector this ?w3 = Inr k" using n(4) by (simp add: get_connector_def)
  moreover have "contents s2 = [ctr_subscriber k \<mapsto> \<lparr>handlers = connecting_handlers this, mutex_held = False\<rparr>]"
    using s2(3) n(5) assms(3) by simp
  moreover have "?w3 = w\<lparr>connectors := kp, writer_connector := this, writer_connection := None,
       writer_packet := \<lparr>sp_base = base, sp_len = chunk_size\<rparr>, remaining_bytes_before_print := BYTES_PRINT_INTERVAL,
       written_bytes := 0, cout := cout w @ t, subscribers := s2\<rparr>" by simp
  ultimately show thesis using that main n(3) s2(2) by blast
qed

lemma writer_main_ready:
  assumes "posix_keeps_rings X V" "fresh_loop V bufs w" "chunk_size < 2 ^ 31" "writer_main X host port chunk_size base w = Inr w'"
  shows "(program_step X V good_request)\<^sup>*\<^sup>* w w'" "world_inv bufs writer_inv w'"
proof -
  have w: "should_continue w" "default_errors w" "ring_buffers w = bufs" "contents (request_pool w) = Map.empty"
      "contents (subscribers w) = Map.empty" "pool_inv (connectors w)" "pool_inv (subscribers w)" "sq_inv w"
    using assms(2) fresh_loop_life [OF assms(2)] by (simp_all add: fresh_loop_def empty_pool_facts queue_life_def)
  obtain this k s2 kp t w3 where eq: "w3 = w\<lparr>connectors := kp, writer_connector := this, writer_connection := None,
       writer_packet := \<lparr>sp_base = base, sp_len = chunk_size\<rparr>, remaining_bytes_before_print := BYTES_PRINT_INTERVAL,
       written_bytes := 0, cout := cout w @ t, subscribers := s2\<rparr>"
    and main: "writer_main X host port chunk_size base w =
       bindE (asyncConnect X SOCK_STREAM this host port w3) (\<lambda>(status, w4). if \<not> success status then Inl Terminate else Inr w4)"
      "get_connector this w3 = Inr k" "pool_inv kp"
    and s2: "pool_inv s2" "contents s2 = [ctr_subscriber k \<mapsto> \<lparr>handlers = connecting_handlers this, mutex_held = False\<rparr>]"
    by (rule writer_main_setup [OF w(6,7,5), of base chunk_size X host port])
  obtain st where st: "asyncConnect X SOCK_STREAM this host port w3 = Inr (st, w')" "success st" "get_connector this w3 = Inr k" "pool_inv kp"
    using assms(4) main by (auto simp: res_simps split: if_splits)
  have w3: "sq_inv w3" "pool_inv (connectors w3)" using w(8) st(4) by (simp_all add: eq sq_inv_def)
  obtain r k' where r: "wf_request r" "kind r = CONNECT" "user_data (header r) = ctr_subscriber k"
      "push r w3 = Inr (w3\<lparr>request_pool := request_pool w', pending_requests := pending_requests w'\<rparr>)"
      "same_rings X V (env w3) (env w')"
      "w' = w3\<lparr>env := env w', connectors := connectors w', request_pool := request_pool w', pending_requests := pending_requests w'\<rparr>"
      "get_connector this w' = Inr k'" "ctr_subscriber k' = ctr_subscriber k" "pool_inv (connectors w')"
    by (rule asyncConnect_pushes [OF assms(1) w3 st(3,1,2)])
  have "ctr_subscriber k \<noteq> nullptr"
    using pool_inv_live_nonnull [OF s2(1)] contents_live [of s2 "ctr_subscriber k"] s2(2) by auto
  then have good: "good_request r" using r(2,3) by (cases r) (auto simp: good_request_def)
  have "program_step X V good_request w w3" by (rule program_own) (simp_all add: eq)
  then have "(program_step X V good_request)\<^sup>*\<^sup>* w (w3\<lparr>request_pool := request_pool w', pending_requests := pending_requests w'\<rparr>)"
    by (rule converse_rtranclp_into_rtranclp [OF _ r_into_rtranclp]) (rule program_push [of r], rule r(1), rule good, rule r(4))
  then show "(program_step X V good_request)\<^sup>*\<^sup>* w w'" by (rule program_steps_own) (use r(5) in simp_all)
  obtain a where "contents (request_pool w') = (contents (request_pool w3))(a \<mapsto> r)"
    using push_contents [OF w3(1) r(1,4)] by auto
  then have pool: "contents (request_pool w') = [a \<mapsto> r]" using w(4) by (simp add: eq)
  have f: "subscribers w' = s2" "writer_connector w' = this" "writer_connection w' = None"
      "writer_packet w' = \<lparr>sp_base = base, sp_len = chunk_size\<rparr>" "should_continue w' = should_continue w"
      "ring_buffers w' = ring_buffers w" "error_handler w' = error_handler w"
    by (subst r(6), simp add: eq)+
  have "writer_inv w' [a \<mapsto> r]"
    using r(2,3,7-9) w(1) assms(3) s2(2) by (auto simp: writer_inv_def f registered_def split: if_splits)
  then show "world_inv bufs writer_inv w'"
    using s2 w(2,3) r(3) by (auto simp: world_ok_def f pool default_errors_def split: if_splits)
qed

lemma writer_loop_ok:
  assumes "ring_contract X V (kernel_fits bufs)" "posix_keeps_rings X V" "fresh_loop V bufs w" "length bufs < 2 ^ 31"
    "chunk_size < 2 ^ 31" "writer_main X address port chunk_size base w = Inr w'"
  shows "loop_ok X V bufs writer_inv w'"
  by (rule fresh_loop_ok [OF assms(1,4,3) writer_main_ready [OF assms(2,3,5,6)]])

lemma writer_run_result:
  assumes "loop_ok X V bufs writer_inv w"
  shows "run X (writer_cb X) w = None \<or> run X (writer_cb X) w = Some (Inl Terminate)"
proof -
  have "res = Inl Terminate" if r: "run X (writer_cb X) w = Some res" for res
  proof -
    obtain n where n: "turns X (writer_cb X) n w = Some res" using run_turns [OF r] by blast
    have "should_continue v" if "loop_ok X V bufs writer_inv v" for v
      using that world_okD(7) [of bufs writer_inv "{}" _ v] by (auto simp: loop_ok_def writer_inv_def)
    then show ?thesis using writer.turns_ok [OF n assms] writer_stops by (cases res) auto
  qed
  then show ?thesis by (cases "run X (writer_cb X) w") simp_all
qed

text \<open>The set-up itself can only be stopped by the program's own \<open>std::terminate\<close>.\<close>

lemma writer_main_stops:
  assumes "fresh_loop V bufs w" "resolver_contract X" "writer_main X host port chunk_size base w = Inl e"
  shows "e = Terminate"
proof -
  have w: "contents (subscribers w) = Map.empty" "pool_inv (connectors w)" "pool_inv (subscribers w)" "sq_inv w"
    using assms(1) fresh_loop_life [OF assms(1)] by (simp_all add: fresh_loop_def empty_pool_facts queue_life_def)
  obtain this k s2 kp t w3 where eq: "w3 = w\<lparr>connectors := kp, writer_connector := this, writer_connection := None,
       writer_packet := \<lparr>sp_base = base, sp_len = chunk_size\<rparr>, remaining_bytes_before_print := BYTES_PRINT_INTERVAL,
       written_bytes := 0, cout := cout w @ t, subscribers := s2\<rparr>"
    and main: "writer_main X host port chunk_size base w =
       bindE (asyncConnect X SOCK_STREAM this host port w3) (\<lambda>(status, w4). if \<not> success status then Inl Terminate else Inr w4)"
      "get_connector this w3 = Inr k" "pool_inv kp"
    by (rule writer_main_setup [OF w(2,3,1), of base chunk_size X host port])
  have w3: "sq_inv w3" "pool_inv (connectors w3)" using w(4) main(3) by (simp_all add: eq sq_inv_def)
  obtain resolved x1 where r: "resolve X host port SOCK_STREAM True (env w3) = Inr (resolved, x1)"
    by (rule resolve_returns [OF assms(2)])
  obtain st w4 where "asyncConnect X SOCK_STREAM this host port w3 = Inr (st, w4)" by (rule asyncConnect_outcome [OF w3 main(2) r])
  then show ?thesis using assms(3) main(1) by (simp split: if_splits)
qed

section \<open>A writer to apply the theorem to\<close>

definition fresh_writer :: "ref_env tcp_writer" where
  "fresh_writer = sample_writer\<lparr>writer_connection := None\<rparr>"

lemma fresh_writer_loop: "fresh_loop ref_view sample_buffers fresh_writer"
  by (simp add: fresh_loop_def fresh_writer_def sample_writer_def default_errors_def ref_init_def entries_of_def ref_cq_view_def)

lemma fresh_writer_connects: "\<exists>w'. writer_main (ref_sys 4) ''localhost'' 8080 1024 30000 fresh_writer = Inr w'"
  by (simp add: writer_main_def new_RingnetTcpWriterClient_def new_Connector_def new_Subscriber_def fresh_writer_def sample_writer_def
      allocate_def empty_pool_def store_def put_connector_def get_connector_def deref_def writer_connect_def log_cout_def Let_def
      connector_onError_def connector_onConnection_def subscriber_on_def on_def get_subscriber_def put_subscriber_def lock_def unlock_def
      new_EventHandler_def asyncConnect_def resolve_def ref_sys_def copy_address_def connector_open_def assign_raw_socket_def
      fd_move_assign_def delete_FileDescriptor_def set_option_def status_ok_def FileDescriptorStatus_of_def loop_add_def push_def
      failure_def ref_init_def STATUS_SUCCESS_def sizeof_sockaddr_in_def del: append.simps)

section \<open>Properties of the whole writer\<close>

text \<open>The throughput writer is memory safe from its \<open>main\<close> on. When the set-up has succeeded, whatever the
  kernel answers afterwards, every turn of the loop comes back, and the run goes on for ever unless one of
  the two error callbacks of the program calls \<open>std::terminate\<close>: no dead request, connection or
  subscriber is used, no callback is run on an event it is not meant for, no mutex is taken twice, no
  assertion fails.\<close>

lemma writer_runs_until_error:
  assumes "ring_contract X V (kernel_fits bufs)" "posix_keeps_rings X V" "fresh_loop V bufs w" "length bufs < 2 ^ 31"
    "chunk_size < 2 ^ 31" "writer_main X address port chunk_size base w = Inr w'"
  shows "(\<forall>v. (queue_step X V good_request (kernel_fits bufs) (world_inv bufs writer_inv) (on_completion X (writer_cb X)))\<^sup>*\<^sup>* w' v \<longrightarrow>
       (\<exists>res. run_iteration X (writer_cb X) v = Some res \<and> (\<forall>e. res = Inl e \<longrightarrow> e = Terminate))) \<and>
     (run X (writer_cb X) w' = None \<or> run X (writer_cb X) w' = Some (Inl Terminate))"
proof -
  note ok = writer_loop_ok [OF assms]
  have "\<exists>res. run_iteration X (writer_cb X) v = Some res \<and> (\<forall>e. res = Inl e \<longrightarrow> e = Terminate)"
    if "(queue_step X V good_request (kernel_fits bufs) (world_inv bufs writer_inv) (on_completion X (writer_cb X)))\<^sup>*\<^sup>* w' v" for v
    using writer.run_iteration_ok [OF writer.loop_ok_reach [OF ok that]] writer_stops by fastforce
  with writer_run_result [OF ok] show ?thesis by blast
qed

end
