(* ===== verification/Tcp_Reader.thy ===== *)
theory Tcp_Reader
  imports App_World
begin

text \<open>
  \<open>app/samples/benchmarks/*/ringnet_impl/ringnetTcpReaderServer.*\<close>: a server that counts the bytes its
  clients send and leaves the process when it has received enough. It is a program on the library: its
  closures are \<open>reader_callback\<close> and its state extends \<open>net_world\<close> by the members of \<open>RingnetTcpReader\<close>.
\<close>

section \<open>State\<close>

text \<open>The lambdas the reader registers; the one for connection errors captures a reference to its connection.\<close>

datatype reader_callback =
    Reader_acceptor_error
  | Reader_new_connection
  | Reader_connection_error Endpoint
  | Reader_read

record 'x tcp_reader = "('x, reader_callback) app_world" +
  reader_acceptor :: ptr
  connections :: connection_map
  target_bytes_count :: "64 word"
  received_bytes_count :: "64 word"

type_synonym 'x reader_state = "'x tcp_reader"

section \<open>Operations\<close>

definition reader_registerCallbacks :: "'x reader_state \<Rightarrow> stop + 'x reader_state" where
  "reader_registerCallbacks w =
     bindE (acceptor_onError (reader_acceptor w) Reader_acceptor_error w) (\<lambda>w1.
       acceptor_onNewConnection (reader_acceptor w1) Reader_new_connection w1)"

text \<open>The constructor, in a state whose loop exists.\<close>

definition new_RingnetTcpReader :: "64 word \<Rightarrow> 'x reader_state \<Rightarrow> stop + 'x reader_state" where
  "new_RingnetTcpReader target w =
     bindE (new_Acceptor 10 w) (\<lambda>(this, w1).
       reader_registerCallbacks (w1\<lparr>reader_acceptor := this, connections := [], target_bytes_count := target,
                                    received_bytes_count := 0\<rparr>))"

definition reader_listen :: "'x sys \<Rightarrow> string \<Rightarrow> 16 word \<Rightarrow> 'x reader_state \<Rightarrow> stop + 'x reader_state" where
  "reader_listen X listening_address listening_port w =
     bindE (acceptor_listen X SOCK_STREAM (reader_acceptor w) listening_address listening_port w) (\<lambda>(listening, w1).
       Inr (if \<not> success listening
            then log_cerr (''TcpReader: Could not listen to '' @ address_text listening_address listening_port) w1
            else log_cout (''TcpReader: Listening on '' @ address_text listening_address listening_port) w1))"

definition reader_printResults :: "'x reader_state \<Rightarrow> 'x reader_state" where
  "reader_printResults w =
     log_cout (''TcpReader: Received '' @ show_nat (unat (received_bytes_count w)) @ '' bytes'') w"

definition reader_onRead :: "span \<Rightarrow> 'x reader_state \<Rightarrow> stop + 'x reader_state" where
  "reader_onRead bytes_read w =
     (let w1 = w\<lparr>received_bytes_count := received_bytes_count w + word_of_nat (sp_len bytes_read)\<rparr> in
      if target_bytes_count w1 \<le> received_bytes_count w1
      then Inl (ExitProcess 0 (cout (reader_printResults w1)))
      else Inr w1)"

text \<open>\<open>connections.erase(connection.endpoint())\<close>, through the captured reference.\<close>

definition reader_erase :: "'x sys \<Rightarrow> Endpoint \<Rightarrow> 'x reader_state \<Rightarrow> stop + 'x reader_state" where
  "reader_erase X reference w =
     (case map_find reference (connections w) of
        None \<Rightarrow> Inl (UseAfterFree nullptr)
      | Some connection \<Rightarrow>
          let k = conn_endpoint_of connection in
          (case map_find k (connections w) of
             None \<Rightarrow> Inr w
           | Some c \<Rightarrow> delete_Connection X c (w\<lparr>connections := map_remove k (connections w)\<rparr>)))"

text \<open>The callbacks on events \<dots>\<close>

fun reader_event :: "'x sys \<Rightarrow> reader_callback \<Rightarrow> event \<Rightarrow> 'x reader_state \<Rightarrow> stop + 'x reader_state" where
  "reader_event X Reader_acceptor_error (ErrorEvent n) w =
     Inr (log_cerr (''TcpReader: Acceptor error: '' @ sys_strerror X n) w)"
| "reader_event X (Reader_connection_error reference) (ErrorEvent n) w =
     reader_erase X reference (log_cerr (''TcpReader: Connection error: '' @ sys_strerror X n) w)"
| "reader_event X Reader_read (ReadEvent sock bytes_read) w = reader_onRead bytes_read w"
| "reader_event X _ _ w = Inl (BadCast nullptr)"

text \<open>\<dots> and on a new connection.\<close>

definition reader_new_connection :: "Connection \<Rightarrow> 'x reader_state \<Rightarrow> stop + (Connection \<times> 'x reader_state)" where
  "reader_new_connection new_connection w =
     (let k = conn_endpoint_of new_connection; n = show_int (endpoint_fd k) in
      if map_find k (connections w) \<noteq> None then
        Inr (new_connection, log_cerr (''TcpReader: Client already connected (endpoint '' @ n @ '').'') w)
      else
        let w1 = log_cout (''TcpReader: Received client connection request (endpoint '' @ n @ '').'') w in
        (case map_try_emplace k new_connection (connections w1) of (was_inserted, left, m) \<Rightarrow>
           bindE (assertE was_inserted ''was_inserted'') (\<lambda>_.
             let w2 = w1\<lparr>connections := m\<rparr>; connection = the (map_find k m) in
             bindE (conn_onError connection (Reader_connection_error k) w2) (\<lambda>w3.
             bindE (conn_onRead connection Reader_read w3) (\<lambda>w4.
             bindE (asyncRead connection w4) (\<lambda>(status, w5).
               Inr (left, if \<not> success status
                          then log_cerr (''TcpReader: Error reading from client endpoint '' @
                                         show_int (endpoint_fd (conn_endpoint_of connection)) @ '': '' @ message status) w5
                          else w5)))))))"

fun reader_connection :: "reader_callback \<Rightarrow> Connection \<Rightarrow> 'x reader_state \<Rightarrow> stop + (Connection \<times> 'x reader_state)" where
  "reader_connection Reader_new_connection c w = reader_new_connection c w"
| "reader_connection _ c w = Inl (BadCast nullptr)"

text \<open>The closures of the whole program.\<close>

abbreviation reader_cb :: "'x sys \<Rightarrow> reader_callback closure \<Rightarrow> event \<Rightarrow> 'x reader_state \<Rightarrow> stop + 'x reader_state" where
  "reader_cb X \<equiv> run_closure X (reader_event X) reader_connection"

text \<open>The set-up in \<open>main\<close>, on a fresh loop, up to \<open>loop.run()\<close>.\<close>

definition reader_main :: "'x sys \<Rightarrow> string \<Rightarrow> 16 word \<Rightarrow> 64 word \<Rightarrow> 'x reader_state \<Rightarrow> stop + 'x reader_state" where
  "reader_main X address port bytes_count w =
     bindE (new_RingnetTcpReader bytes_count w) (reader_listen X address port)"

section \<open>Counting\<close>

text \<open>A sequence of reads, as the loop delivers them.\<close>

primrec reader_feed :: "span list \<Rightarrow> 'x reader_state \<Rightarrow> stop + 'x reader_state" where
  "reader_feed [] w = Inr w"
| "reader_feed (b # bs) w = bindE (reader_onRead b w) (reader_feed bs)"

lemma reader_onRead_count:
  assumes "unat (received_bytes_count w) + sp_len b < 2 ^ 64"
  shows "reader_onRead b w =
    (if unat (target_bytes_count w) \<le> unat (received_bytes_count w) + sp_len b
     then Inl (ExitProcess 0 (cout w @ ''TcpReader: Received '' @ show_nat (unat (received_bytes_count w) + sp_len b) @ '' bytes'' @ newline))
     else Inr (w\<lparr>received_bytes_count := word_of_nat (unat (received_bytes_count w) + sp_len b)\<rparr>))"
proof -
  have "received_bytes_count w + word_of_nat (sp_len b) = word_of_nat (unat (received_bytes_count w) + sp_len b)"
    by simp
  moreover have "unat (word_of_nat (unat (received_bytes_count w) + sp_len b) :: 64 word) = unat (received_bytes_count w) + sp_len b"
    using assms by (intro unat_of_nat_small) simp
  ultimately show ?thesis by (simp add: reader_onRead_def Let_def word_le_nat_alt reader_printResults_def log_cout_def)
qed

lemma reader_feed_count:
  assumes "unat (received_bytes_count w) + sum_list (map sp_len bs) < 2 ^ 64"
    "unat (received_bytes_count w) < unat (target_bytes_count w)"
  shows "if unat (received_bytes_count w) + sum_list (map sp_len bs) < unat (target_bytes_count w)
    then reader_feed bs w = Inr (w\<lparr>received_bytes_count := word_of_nat (unat (received_bytes_count w) + sum_list (map sp_len bs))\<rparr>)
    else \<exists>out. reader_feed bs w = Inl (ExitProcess 0 out)"
  using assms
proof (induction bs arbitrary: w)
  case Nil
  then show ?case by simp
next
  case (Cons b bs)
  let ?n = "unat (received_bytes_count w) + sp_len b"
  let ?w = "w\<lparr>received_bytes_count := word_of_nat ?n\<rparr>"
  have small: "?n < 2 ^ 64" using Cons.prems(1) by simp
  then have n: "unat (word_of_nat ?n :: 64 word) = ?n" by (intro unat_of_nat_small) simp
  show ?case
  proof (cases "unat (target_bytes_count w) \<le> ?n")
    case True
    with small show ?thesis by (simp add: reader_onRead_count)
  next
    case False
    then have step: "reader_feed (b # bs) w = reader_feed bs ?w" using small by (simp add: reader_onRead_count)
    have "if unat (received_bytes_count ?w) + sum_list (map sp_len bs) < unat (target_bytes_count ?w)
      then reader_feed bs ?w = Inr (?w\<lparr>received_bytes_count := word_of_nat (unat (received_bytes_count ?w) + sum_list (map sp_len bs))\<rparr>)
      else \<exists>out. reader_feed bs ?w = Inl (ExitProcess 0 out)"
      using Cons.prems n False by (intro Cons.IH) (simp_all del: of_nat_add)
    with step n show ?thesis by (simp add: add.assoc del: of_nat_add cong: if_cong)
  qed
qed

section \<open>Clients\<close>

lemma connections_log: "connections (log_cout text w) = connections w" "connections (log_cerr text w) = connections w"
  by (simp_all add: log_cout_def log_cerr_def)

text \<open>What the reader promises of a client it takes on.\<close>

definition client_taken_on :: "Connection \<Rightarrow> 'x reader_state \<Rightarrow> 'x reader_state \<Rightarrow> bool" where
  "client_taken_on c w w' \<longleftrightarrow>
     map_inv (connections w') \<and>
     (\<forall>j. map_find j (connections w') = (if j = conn_endpoint c then Some c else map_find j (connections w))) \<and>
     watched c (Reader_connection_error (conn_endpoint c)) Reader_read w w'"

lemma reader_new_client:
  assumes "sq_inv w" "pool_inv (subscribers w)" "map_inv (connections w)"
    "map_find (conn_endpoint c) (connections w) = None" "get_subscriber (conn_subscriber c) w = Inr new_EventHandler"
  obtains w' where "reader_new_connection c w = Inr (snd (move_Connection c), w')" "client_taken_on c w w'"
proof -
  let ?k = "conn_endpoint c"
  let ?m = "map_insert ?k c (connections w)"
  let ?w2 = "(log_cout (''TcpReader: Received client connection request (endpoint '' @ show_int (endpoint_fd ?k) @ '').'') w)\<lparr>connections := ?m\<rparr>"
  have found: "map_find ?k ?m = Some c" using map_find_insert [OF assms(4)] by simp
  have start: "sq_inv ?w2" "pool_inv (subscribers ?w2)" "get_subscriber (conn_subscriber c) ?w2 = Inr new_EventHandler"
      "\<not> mutex_held new_EventHandler"
    using assms(1,2,5) by (simp_all add: sq_inv_def log_cout_def get_subscriber_def new_EventHandler_def)
  obtain w' where w': "watch_connection c (Reader_connection_error ?k) Reader_read ?w2 = Inr (\<lparr>success = True, message = ''Success''\<rparr>, w')"
      "watched c (Reader_connection_error ?k) Reader_read ?w2 w'"
      "w' = ?w2\<lparr>subscribers := subscribers w', request_pool := request_pool w', pending_requests := pending_requests w'\<rparr>"
    by (rule watch_connection_spec [OF start])
  obtain w3 w4 where "conn_onError c (Reader_connection_error ?k) ?w2 = Inr w3" "conn_onRead c Reader_read w3 = Inr w4"
      "asyncRead c w4 = Inr (\<lparr>success = True, message = ''Success''\<rparr>, w')"
    using w'(1) by (auto simp: watch_connection_def res_simps simp del: append.simps)
  then have "reader_new_connection c w = Inr (snd (move_Connection c), w')"
    using assms(4) map_try_emplace_new [OF assms(4), of c] found
    by (simp add: reader_new_connection_def conn_endpoint_of_def Let_def connections_log)
  moreover have "connections w' = ?m" by (subst w'(3)) simp
  then have "client_taken_on c w w'"
    using w'(2) reg.inv_insert [OF assms(3,4), of c] reg.find_insert [OF assms(3,4), of _ c]
    by (simp add: client_taken_on_def watched_def log_cout_def)
  ultimately show thesis by (rule that)
qed

section \<open>A reader to run the theorems on\<close>

text \<open>One client is connected, on descriptor 9 with its subscriber at address 7.\<close>

definition sample_client_connection :: Connection where
  "sample_client_connection = \<lparr>conn_socket = FileDescriptor_of 9, conn_endpoint = Endpoint 9, conn_subscriber = 7\<rparr>"

definition client_handler :: "reader_callback closure event_handler" where
  "client_handler = new_EventHandler\<lparr>handlers := [ErrorEventT \<mapsto> UserEvent (Reader_connection_error (Endpoint 9)), ReadEventT \<mapsto> UserEvent Reader_read]\<rparr>"

definition sample_reader :: "ref_env reader_state" where
  "sample_reader = \<lparr>env = ref_init, request_pool = empty_pool, pending_requests = no_pending, buffer_ring = 1,
     ring_buffers = sample_buffers, should_continue = True, error_handler = new_ErrorHandler,
     subscribers = \<lparr>blocks = [(7, 200, Some client_handler), (207, 200, Some new_EventHandler)], free_blocks = [], pool_brk = 407\<rparr>,
     cerr = [], acceptors = empty_pool, connectors = empty_pool, cout = [], reader_acceptor = 3,
     connections = [(Endpoint 9, sample_client_connection)], target_bytes_count = 2000, received_bytes_count = 0\<rparr>"

lemma sample_reader_facts:
  "sq_inv sample_reader" "pool_inv (subscribers sample_reader)" "map_inv (connections sample_reader)"
  "get_subscriber 7 sample_reader = Inr client_handler" "get_subscriber 207 sample_reader = Inr new_EventHandler"
  "block_size (subscribers sample_reader) 7 = Some sizeof_Subscriber"
  by (simp_all add: sample_reader_def sq_inv_def typed_pool_def entries_ok_def contents_def empty_pool_def pool_inv_def
      live_def freed_def map_inv_def get_subscriber_def deref_def block_size_def sizeof_Subscriber_def)

section \<open>Properties of the reader\<close>

text \<open>C33. The reader adds up what it reads, whatever the sizes of the reads, and leaves the process with
  status 0 as soon as, and not before, the total has reached the target.\<close>

theorem reader_exits_at_target:
  assumes "unat (received_bytes_count w) + sum_list (map sp_len bs) < 2 ^ 64"
    "unat (received_bytes_count w) < unat (target_bytes_count w)"
  shows "if unat (received_bytes_count w) + sum_list (map sp_len bs) < unat (target_bytes_count w)
    then reader_feed bs w = Inr (w\<lparr>received_bytes_count := word_of_nat (unat (received_bytes_count w) + sum_list (map sp_len bs))\<rparr>)
    else \<exists>out. reader_feed bs w = Inl (ExitProcess 0 out)"
  by (rule reader_feed_count [OF assms])

theorem reader_exits_at_target_witness:
  "reader_feed [\<lparr>sp_base = 5000, sp_len = 900\<rparr>, \<lparr>sp_base = 6024, sp_len = 1024\<rparr>] sample_reader =
     Inr (sample_reader\<lparr>received_bytes_count := 1924\<rparr>) \<and>
   (\<exists>out. reader_feed [\<lparr>sp_base = 5000, sp_len = 1024\<rparr>, \<lparr>sp_base = 6024, sp_len = 1024\<rparr>] sample_reader = Inl (ExitProcess 0 out))"
  using reader_exits_at_target [of sample_reader "[\<lparr>sp_base = 5000, sp_len = 900\<rparr>, \<lparr>sp_base = 6024, sp_len = 1024\<rparr>]"]
    reader_exits_at_target [of sample_reader "[\<lparr>sp_base = 5000, sp_len = 1024\<rparr>, \<lparr>sp_base = 6024, sp_len = 1024\<rparr>]"]
  by (simp add: sample_reader_def)

text \<open>A client on a new descriptor is entered in the registry under its endpoint, next to the clients
  that are there, gets the reader's callbacks and has one multi-shot read queued on its descriptor; a
  client whose endpoint is taken is handed back untouched, to be closed, with the registry unchanged.\<close>

lemma reader_takes_on_client:
  assumes "sq_inv w" "pool_inv (subscribers w)" "map_inv (connections w)" "get_subscriber (conn_subscriber c) w = Inr new_EventHandler"
  shows "if map_find (conn_endpoint c) (connections w) = None
    then \<exists>w'. reader_new_connection c w = Inr (snd (move_Connection c), w') \<and> client_taken_on c w w'
    else \<exists>err. reader_new_connection c w = Inr (c, w\<lparr>cerr := err\<rparr>)"
proof (cases "map_find (conn_endpoint c) (connections w)")
  case None
  show ?thesis using None by (auto intro: reader_new_client [OF assms(1-3) None assms(4)])
next
  case (Some d)
  then show ?thesis by (auto simp: reader_new_connection_def conn_endpoint_of_def Let_def log_cerr_def)
qed

text \<open>C39. When the connection of a client fails, the reader's error callback destroys the connection, and
  with it the subscriber whose callback is running: on return \<open>handle\<close> unlocks a mutex in freed memory.\<close>

theorem reader_error_frees_running_subscriber:
  assumes "pool_inv (subscribers w)" "map_find k (connections w) = Some c" "conn_endpoint c = k"
    "block_size (subscribers w) (conn_subscriber c) = Some sizeof_Subscriber"
    "get_subscriber (conn_subscriber c) w = Inr h" "\<not> mutex_held h"
    "handlers h ErrorEventT = Some (UserEvent (Reader_connection_error k))"
  shows "subscriber_handle (reader_cb X) (conn_subscriber c) (ErrorEvent n) w = Inl (UseAfterFree (conn_subscriber c))"
proof -
  let ?p = "conn_subscriber c"
  have null: "?p \<noteq> nullptr" using assms(5) by (auto simp: get_subscriber_def deref_contents)
  obtain p1 where p1: "put_subscriber ?p (h\<lparr>mutex_held := True\<rparr>) w = Inr (w\<lparr>subscribers := p1\<rparr>)" "pool_inv p1"
      "block_size p1 = block_size (subscribers w)" "get_subscriber ?p (w\<lparr>subscribers := p1\<rparr>) = Inr (h\<lparr>mutex_held := True\<rparr>)"
    by (rule put_subscriber_step [OF assms(1,5)])
  let ?w1 = "log_cerr (''TcpReader: Connection error: '' @ sys_strerror X n) (w\<lparr>subscribers := p1\<rparr>)"
  let ?w2 = "?w1\<lparr>connections := map_remove k (connections w)\<rparr>"
  have inv: "pool_inv (subscribers ?w2)" "block_size (subscribers ?w2) ?p = Some sizeof_Subscriber"
    using p1(2,3) assms(4) by (simp_all add: log_cerr_def)
  obtain x p3 where d: "delete_Connection X c ?w2 = Inr (?w2\<lparr>subscribers := p3, env := x\<rparr>)"
      "block_size p3 = (block_size (subscribers ?w2))(?p := None)"
    using delete_Connection_spec [OF inv null] by metis
  have run: "reader_cb X (UserEvent (Reader_connection_error k)) (ErrorEvent n) (w\<lparr>subscribers := p1\<rparr>) =
      Inr (?w2\<lparr>subscribers := p3, env := x\<rparr>)"
    using d(1) assms(2,3) by (simp add: reader_erase_def conn_endpoint_of_def Let_def log_cerr_def)
  have "get_subscriber ?p (?w2\<lparr>subscribers := p3, env := x\<rparr>) = Inl (UseAfterFree ?p)"
    using deref_freed [of p3 ?p] d(2) null by (simp add: get_subscriber_def)
  with run p1(1) assms(5-7) show ?thesis
    by (simp add: subscriber_handle_def handle_def lock_def noexceptE_def)
qed

theorem reader_error_frees_running_subscriber_witness:
  "subscriber_handle (reader_cb (ref_sys 4)) 7 (ErrorEvent 104) sample_reader = Inl (UseAfterFree 7)"
proof -
  have c: "conn_subscriber sample_client_connection = 7" "conn_endpoint sample_client_connection = Endpoint 9"
    by (simp_all add: sample_client_connection_def)
  have "map_find (Endpoint 9) (connections sample_reader) = Some sample_client_connection"
    by (simp add: sample_reader_def map_find_def)
  then show ?thesis
    using reader_error_frees_running_subscriber [OF sample_reader_facts(2), of "Endpoint 9" sample_client_connection client_handler "ref_sys 4" 104]
      sample_reader_facts(4,6)
    by (simp add: c client_handler_def new_EventHandler_def)
qed

end
