(* ===== verification/Breakpoints.thy ===== *)
theory Breakpoints
  imports Event_Loop
begin

text \<open>
  Runs up to a situation. \<open>break_at P cb\<close> are the callbacks of a program with a breakpoint: they stop the run where a
  callback is about to be called in a situation \<open>P\<close>, and are the program's own everywhere else. A run \<open>meets\<close>
  \<open>P\<close> when the breakpoint is hit; a run that does not is the same with and without it. So a program can be
  verified under a condition on what happens to it, without a word about the condition in the contracts of the loop.
\<close>

definition breakpoint :: stop where
  "breakpoint = AssertFailed ''breakpoint''"

definition break_at ::
    "('c \<Rightarrow> event \<Rightarrow> 'w \<Rightarrow> bool) \<Rightarrow> ('c \<Rightarrow> event \<Rightarrow> 'w \<Rightarrow> stop + 'w) \<Rightarrow> 'c \<Rightarrow> event \<Rightarrow> 'w \<Rightarrow> stop + 'w" where
  "break_at P cb f e w = (if P f e w then Inl breakpoint else cb f e w)"

definition meets ::
    "'x sys \<Rightarrow> ('c \<Rightarrow> event \<Rightarrow> ('x, 'c, 'z) event_loop_scheme \<Rightarrow> bool) \<Rightarrow>
     ('c \<Rightarrow> event \<Rightarrow> ('x, 'c, 'z) event_loop_scheme \<Rightarrow> stop + ('x, 'c, 'z) event_loop_scheme) \<Rightarrow>
     ('x, 'c, 'z) event_loop_scheme \<Rightarrow> bool" where
  "meets X P cb w \<longleftrightarrow> run X (break_at P cb) w = Some (Inl breakpoint)"

section \<open>Results up to the breakpoint\<close>

definition upto :: "stop + 'a \<Rightarrow> stop + 'a \<Rightarrow> bool" where
  "upto a b \<longleftrightarrow> a = Inl breakpoint \<or> a = b"

named_theorems upto_intros

lemma upto_refl [upto_intros]: "upto a a"
  by (simp add: upto_def)

lemma upto_bindE [upto_intros]:
  assumes "upto a b" "\<And>x. upto (k x) (l x)"
  shows "upto (bindE a k) (bindE b l)"
  using assms(1) unfolding upto_def [of a b]
proof
  assume "a = b"
  then show ?thesis by (cases b) (simp_all add: assms(2) upto_refl)
qed (simp add: upto_def)

lemma upto_noexceptE [upto_intros]: "upto a b \<Longrightarrow> upto (noexceptE a) (noexceptE b)"
  by (auto simp: upto_def breakpoint_def noexceptE_def)

lemma upto_if [upto_intros]: "upto a b \<Longrightarrow> upto a' b' \<Longrightarrow> upto (if P then a else a') (if P then b else b')"
  by simp

lemma upto_option [upto_intros]:
  "upto a b \<Longrightarrow> (\<And>x. upto (k x) (l x)) \<Longrightarrow> upto (case v of None \<Rightarrow> a | Some x \<Rightarrow> k x) (case v of None \<Rightarrow> b | Some x \<Rightarrow> l x)"
  by (simp split: option.split)

lemma upto_operation [upto_intros]:
  "upto a1 b1 \<Longrightarrow> upto a2 b2 \<Longrightarrow> upto a3 b3 \<Longrightarrow> upto a4 b4 \<Longrightarrow> upto a5 b5 \<Longrightarrow>
   upto (case v of ACCEPT \<Rightarrow> a1 | CONNECT \<Rightarrow> a2 | READ \<Rightarrow> a3 | READ_MULTISHOT \<Rightarrow> a4 | WRITE \<Rightarrow> a5)
     (case v of ACCEPT \<Rightarrow> b1 | CONNECT \<Rightarrow> b2 | READ \<Rightarrow> b3 | READ_MULTISHOT \<Rightarrow> b4 | WRITE \<Rightarrow> b5)"
  by (simp split: Operation.split)

lemma upto_break_at [upto_intros]: "upto (break_at P cb f e w) (cb f e w)"
  by (simp add: upto_def break_at_def)

section \<open>The loop with a breakpoint\<close>

lemma upto_handle [upto_intros]: "(\<And>f e w. upto (j f e w) (k f e w)) \<Longrightarrow> upto (handle get put j e w) (handle get put k e w)"
  unfolding handle_def by (intro upto_intros)

lemma upto_subscriber_handle [upto_intros]: "upto (subscriber_handle (break_at P cb) p e w) (subscriber_handle cb p e w)"
  unfolding subscriber_handle_def by (intro upto_intros)

lemma upto_run_error_callback [upto_intros]: "upto (run_error_callback (break_at P cb) f e w) (run_error_callback cb f e w)"
  by (cases f) (auto intro: upto_intros)

lemma upto_error_handle [upto_intros]:
  "upto (error_handle (break_at P cb) msg w) (error_handle cb msg w)"
  "upto (error_handle_event (break_at P cb) e w) (error_handle_event cb e w)"
  unfolding error_handle_def error_handle_event_def by (intro upto_intros)+

lemma upto_on_completion: "upto (on_completion X (break_at P cb) c w) (on_completion X cb c w)"
  unfolding on_completion_def dispatch_completion_def Let_def by (intro upto_intros)

text \<open>The walk and the loop may not end; the same holds for results that may be missing.\<close>

definition upto_option_result :: "(stop + 'a) option \<Rightarrow> (stop + 'a) option \<Rightarrow> bool" where
  "upto_option_result a b \<longleftrightarrow> a = Some (Inl breakpoint) \<or> a = b"

lemma upto_option_result_intros [upto_intros]:
  "upto_option_result c c" "upto a b \<Longrightarrow> upto_option_result (Some a) (Some b)"
  "upto_option_result c d \<Longrightarrow> upto_option_result c' d' \<Longrightarrow> upto_option_result (if P then c else c') (if P then d else d')"
  by (auto simp: upto_option_result_def upto_def)

lemma upto_option_result_sequence [upto_intros]:
  assumes "upto_option_result c d" "\<And>w. upto_option_result (k w) (l w)"
  shows "upto_option_result (case c of None \<Rightarrow> None | Some (Inl e) \<Rightarrow> Some (Inl e) | Some (Inr w) \<Rightarrow> k w)
    (case d of None \<Rightarrow> None | Some (Inl e) \<Rightarrow> Some (Inl e) | Some (Inr w) \<Rightarrow> l w)"
  using assms(1) unfolding upto_option_result_def [of c d]
proof
  assume "c = Some (Inl breakpoint)"
  then show ?thesis by (simp add: upto_option_result_def)
next
  assume "c = d"
  then show ?thesis using assms(2) by (auto simp: upto_option_result_def [of "None"] intro: upto_option_result_intros split: option.split sum.split)
qed

lemma for_each_cqe_upto_some:
  assumes "for_each_cqe X f h n s = Some res" "\<And>c s. f c s = Inl breakpoint \<or> f c s = g c s"
  shows "res = Inl breakpoint \<or> for_each_cqe X g h n s = Some res"
proof -
  have "(\<forall>c s. f c s = Inl breakpoint \<or> f c s = g c s) \<longrightarrow> res = Inl breakpoint \<or> for_each_cqe X g h n s = Some res"
  proof (rule for_each_cqe.raw_induct [where P = "\<lambda>X f h n s res. (\<forall>c s. f c s = Inl breakpoint \<or> f c s = g c s) \<longrightarrow>
        res = Inl breakpoint \<or> for_each_cqe X g h n s = Some res", OF _ assms(1)], rule impI)
    fix walk X f h n s res
    assume IH: "\<And>X f h n s res. walk X f h n s = Some res \<Longrightarrow> (\<forall>c s. f c s = Inl breakpoint \<or> f c s = g c s) \<longrightarrow>
        res = Inl breakpoint \<or> for_each_cqe X g h n s = Some res"
      and eq: "(case cqe_at X (env s) h of
        None \<Rightarrow> Some (Inr (if n \<noteq> 0 then s\<lparr>env := io_uring_cq_advance X n (env s)\<rparr> else s))
      | Some c \<Rightarrow> (case bindE (f c s) (release c) of Inl e \<Rightarrow> Some (Inl e) | Inr s' \<Rightarrow> walk X f (h + 1) (n + 1) s')) = Some res"
      and fg: "\<forall>c s. f c s = Inl breakpoint \<or> f c s = g c s"
    show "res = Inl breakpoint \<or> for_each_cqe X g h n s = Some res"
    proof (cases "cqe_at X (env s) h")
      case None
      with eq show ?thesis by (simp add: for_each_cqe.simps [of X g h n s])
    next
      case (Some c)
      show ?thesis
      proof (cases "f c s = Inl breakpoint")
        case True
        with eq Some show ?thesis by simp
      next
        case False
        then have "f c s = g c s" using fg by blast
        with eq Some IH [of X f "h + 1" "n + 1" _ res] fg show ?thesis
          by (auto simp: for_each_cqe.simps [of X g h n s] split: sum.splits)
      qed
    qed
  qed
  with assms(2) show ?thesis by blast
qed

lemma for_each_cqe_upto_none:
  assumes "for_each_cqe X g h n s = Some res" "\<And>c s. f c s = Inl breakpoint \<or> f c s = g c s"
  shows "for_each_cqe X f h n s = Some (Inl breakpoint) \<or> for_each_cqe X f h n s = Some res"
proof -
  have "(\<forall>c s. f c s = Inl breakpoint \<or> f c s = g c s) \<longrightarrow>
      for_each_cqe X f h n s = Some (Inl breakpoint) \<or> for_each_cqe X f h n s = Some res"
  proof (rule for_each_cqe.raw_induct [where P = "\<lambda>X g h n s res. (\<forall>c s. f c s = Inl breakpoint \<or> f c s = g c s) \<longrightarrow>
        for_each_cqe X f h n s = Some (Inl breakpoint) \<or> for_each_cqe X f h n s = Some res", OF _ assms(1)], rule impI)
    fix walk X g h n s res
    assume IH: "\<And>X g h n s res. walk X g h n s = Some res \<Longrightarrow> (\<forall>c s. f c s = Inl breakpoint \<or> f c s = g c s) \<longrightarrow>
        for_each_cqe X f h n s = Some (Inl breakpoint) \<or> for_each_cqe X f h n s = Some res"
      and eq: "(case cqe_at X (env s) h of
        None \<Rightarrow> Some (Inr (if n \<noteq> 0 then s\<lparr>env := io_uring_cq_advance X n (env s)\<rparr> else s))
      | Some c \<Rightarrow> (case bindE (g c s) (release c) of Inl e \<Rightarrow> Some (Inl e) | Inr s' \<Rightarrow> walk X g (h + 1) (n + 1) s')) = Some res"
      and fg: "\<forall>c s. f c s = Inl breakpoint \<or> f c s = g c s"
    show "for_each_cqe X f h n s = Some (Inl breakpoint) \<or> for_each_cqe X f h n s = Some res"
    proof (cases "cqe_at X (env s) h")
      case None
      with eq show ?thesis by (simp add: for_each_cqe.simps [of X f h n s])
    next
      case (Some c)
      show ?thesis
      proof (cases "f c s = Inl breakpoint")
        case True
        with Some show ?thesis by (simp add: for_each_cqe.simps [of X f h n s])
      next
        case False
        then have "f c s = g c s" using fg by blast
        with eq Some IH [of X g "h + 1" "n + 1" _ res] fg show ?thesis
          by (auto simp: for_each_cqe.simps [of X f h n s] split: sum.splits)
      qed
    qed
  qed
  with assms(2) show ?thesis by blast
qed

lemma upto_forEachCompletion:
  "upto_option_result (forEachCompletion X (on_completion X (break_at P cb)) w) (forEachCompletion X (on_completion X cb) w)"
proof -
  let ?f = "on_completion X (break_at P cb)" and ?g = "on_completion X cb"
  have fg: "?f c s = Inl breakpoint \<or> ?f c s = ?g c s" for c s using upto_on_completion [of X P cb c s] by (simp add: upto_def)
  show ?thesis
    using for_each_cqe_upto_some [of X ?f "cq_khead X (env w)" 0 w _ ?g, OF _ fg]
      for_each_cqe_upto_none [of X ?g "cq_khead X (env w)" 0 w _ ?f, OF _ fg]
    unfolding upto_option_result_def forEachCompletion_def
    by (cases "for_each_cqe X ?f (cq_khead X (env w)) 0 w"; cases "for_each_cqe X ?g (cq_khead X (env w)) 0 w") auto
qed

lemma upto_run_iteration: "upto_option_result (run_iteration X (break_at P cb) w) (run_iteration X cb w)"
proof (cases "submit X 100 w")
  case (Inr r)
  then show ?thesis by (cases r) (simp only: run_iteration_def sum.case prod.case, intro upto_intros upto_forEachCompletion)
qed (simp add: run_iteration_def upto_intros)

lemma upto_turns: "upto_option_result (turns X (break_at P cb) n w) (turns X cb n w)"
proof (induction n arbitrary: w)
  case (Suc n)
  then show ?case by (simp only: turns.simps) (intro upto_intros upto_run_iteration)
qed (simp add: upto_intros)

text \<open>A run meets the situation, or the breakpoint makes no difference to it.\<close>

lemma run_upto:
  obtains (meets) "meets X P cb w" | (same) "run X (break_at P cb) w = run X cb w"
proof (cases "meets X P cb w")
  case False
  have eq: "turns X (break_at P cb) n w = turns X cb n w" for n
    using upto_turns [of X P cb n w] False turns_run [of X "break_at P cb" n w] by (auto simp: upto_option_result_def meets_def)
  have "run X (break_at P cb) w = Some r \<longleftrightarrow> run X cb w = Some r" for r
    using run_turns turns_run eq by metis
  then have "run X (break_at P cb) w = run X cb w" by (metis not_None_eq)
  then show ?thesis by (rule same)
qed (rule meets)

end
