(* ===== verification/Reader_Safety.thy ===== *)
theory Reader_Safety
  imports Tcp_Reader App_Safety Breakpoints
begin

text \<open>
  The throughput reader as a whole. Two things that may happen to it are beyond what its callbacks can take: an
  error on a client's connection (its callback destroys the subscriber that is running it), and a second
  accept of a descriptor that is still registered (the new connection is destroyed with a cancellation,
  whose completion has no user data). Up to the first of these mishaps the reader keeps the contract of
  \<open>Loop_Safety\<close>, from its constructor on.
\<close>

section \<open>The invariant of the reader\<close>

fun reader_mishap :: "reader_callback closure \<Rightarrow> event \<Rightarrow> 'x reader_state \<Rightarrow> bool" where
  "reader_mishap (UserEvent (Reader_connection_error reference)) e w = True"
| "reader_mishap (AcceptThen this u) (AcceptEvent fd) w = (map_find (Endpoint fd) (connections w) \<noteq> None)"
| "reader_mishap _ _ w = False"

abbreviation guarded_reader :: "'x sys \<Rightarrow> reader_callback closure \<Rightarrow> event \<Rightarrow> 'x reader_state \<Rightarrow> stop + 'x reader_state" where
  "guarded_reader X \<equiv> break_at reader_mishap (reader_cb X)"

text \<open>The callbacks of the acceptor's subscriber and of a client's.\<close>

definition accepting_handlers :: "ptr \<Rightarrow> event_type \<Rightarrow> reader_callback closure option" where
  "accepting_handlers this =
     (\<lambda>_. None)(ErrorEventT \<mapsto> UserEvent Reader_acceptor_error, AcceptEventT \<mapsto> AcceptThen this Reader_new_connection)"

definition reading_handlers :: "Endpoint \<Rightarrow> event_type \<Rightarrow> reader_callback closure option" where
  "reading_handlers k =
     (\<lambda>_. None)(ErrorEventT \<mapsto> UserEvent (Reader_connection_error k), ReadEventT \<mapsto> UserEvent Reader_read)"

text \<open>Accept requests belong to the acceptor's subscriber, multi-shot reads to a client's; there are no others.\<close>

definition reader_inv :: "64 word \<Rightarrow> 'x reader_state \<Rightarrow> (ptr \<rightharpoonup> request) \<Rightarrow> bool" where
  "reader_inv target w m \<longleftrightarrow>
     should_continue w \<and> target_bytes_count w = target \<and> map_inv (connections w) \<and> (\<exists>a. get_acceptor (reader_acceptor w) w = Inr a) \<and>
     (\<forall>b r. m b = Some r \<longrightarrow>
        kind r = ACCEPT \<and> registered w (user_data (header r)) = Some (accepting_handlers (reader_acceptor w)) \<or>
        kind r = READ_MULTISHOT \<and> (\<exists>k. registered w (user_data (header r)) = Some (reading_handlers k)))"

lemma reader_fields:
  assumes "event_loop.more w' = event_loop.more w"
  shows "acceptors w' = acceptors w" "reader_acceptor w' = reader_acceptor w" "connections w' = connections w"
    "target_bytes_count w' = target_bytes_count w"
  using assms by (cases w, cases w', simp)+

lemma reader_program_invariant: "program_invariant (reader_inv target :: 'x reader_state \<Rightarrow> (ptr \<rightharpoonup> request) \<Rightarrow> bool)"
  unfolding program_invariant_def
proof (intro allI impI)
  fix w w' :: "'x reader_state" and m m' :: "ptr \<rightharpoonup> request"
  assume inv: "reader_inv target w m" and more: "event_loop.more w' = event_loop.more w" "should_continue w' = should_continue w"
    "registered w' = registered w" and le: "m' \<subseteq>\<^sub>m m"
  have sub: "m a = Some r" if "m' a = Some r" for a r using that le by (metis domI map_le_def)
  note same = reader_fields [OF more(1)]
  show "reader_inv target w' m'"
    using inv sub unfolding reader_inv_def get_acceptor_def same more(2,3) by blast
qed

section \<open>Its callbacks\<close>

lemma reader_takes_client:
  assumes "sq_inv w" "pool_inv (subscribers w)" "contents (subscribers w) (conn_subscriber c) = Some new_EventHandler"
    "map_find (conn_endpoint c) (connections w) = None"
  obtains t a rp pool w' where "reader_new_connection c w = Inr (snd (move_Connection c), w')"
    "w' = w\<lparr>cout := t, connections := map_insert (conn_endpoint c) c (connections w), subscribers := pool, request_pool := rp,
       pending_requests := pending_push READ_MULTISHOT a (pending_requests w)\<rparr>"
    "pool_inv pool" "contents pool = (contents (subscribers w))(conn_subscriber c \<mapsto> \<lparr>handlers = reading_handlers (conn_endpoint c), mutex_held = False\<rparr>)"
    "contents rp = (contents (request_pool w))(a \<mapsto> added_request (read_request_of c) (conn_subscriber c))"
    "(program_step X V good_request)\<^sup>*\<^sup>* w w'"
proof -
  let ?k = "conn_endpoint c"
  let ?m = "map_insert ?k c (connections w)"
  let ?text = "''TcpReader: Received client connection request (endpoint '' @ show_int (endpoint_fd ?k) @ '').''"
  obtain t where t: "log_cout ?text w = w\<lparr>cout := t\<rparr>" unfolding log_cout_def by blast
  let ?w2 = "w\<lparr>cout := t, connections := ?m\<rparr>"
  have start: "sq_inv ?w2" "pool_inv (subscribers ?w2)" "contents (subscribers ?w2) (conn_subscriber c) = Some new_EventHandler"
    using assms(1-3) by (simp_all add: sq_inv_def)
  obtain a rp pool where w': "watch_connection c (Reader_connection_error ?k) Reader_read ?w2 = Inr (\<lparr>success = True, message = ''Success''\<rparr>,
        ?w2\<lparr>subscribers := pool, request_pool := rp, pending_requests := pending_push READ_MULTISHOT a (pending_requests ?w2)\<rparr>)"
      "pool_inv pool" "contents pool = (contents (subscribers ?w2))(conn_subscriber c \<mapsto>
         \<lparr>handlers = (\<lambda>_. None)(ErrorEventT \<mapsto> UserEvent (Reader_connection_error ?k), ReadEventT \<mapsto> UserEvent Reader_read), mutex_held = False\<rparr>)"
      "contents rp = (contents (request_pool ?w2))(a \<mapsto> added_request (read_request_of c) (conn_subscriber c))"
      "(program_step X V good_request)\<^sup>*\<^sup>* ?w2
         (?w2\<lparr>subscribers := pool, request_pool := rp, pending_requests := pending_push READ_MULTISHOT a (pending_requests ?w2)\<rparr>)"
    by (rule watch_connection_adds [OF start])
  let ?w' = "w\<lparr>cout := t, connections := ?m, subscribers := pool, request_pool := rp,
      pending_requests := pending_push READ_MULTISHOT a (pending_requests w)\<rparr>"
  have found: "map_find ?k ?m = Some c" using map_find_insert [OF assms(4)] by simp
  obtain w3 w4 where "conn_onError c (Reader_connection_error ?k) ?w2 = Inr w3" "conn_onRead c Reader_read w3 = Inr w4"
      "asyncRead c w4 = Inr (\<lparr>success = True, message = ''Success''\<rparr>, ?w')"
    using w'(1) by (auto simp: watch_connection_def res_simps simp del: append.simps pending_push.simps)
  then have "reader_new_connection c w = Inr (snd (move_Connection c), ?w')"
    using assms(4) map_try_emplace_new [OF assms(4), of c] found t
    by (simp add: reader_new_connection_def conn_endpoint_of_def Let_def)
  moreover have "(program_step X V good_request)\<^sup>*\<^sup>* w ?w2" by (rule program_steps_own [OF rtranclp.rtrancl_refl]) simp_all
  then have "(program_step X V good_request)\<^sup>*\<^sup>* w ?w'" using w'(5) by simp
  ultimately show thesis using w'(2-4) by (intro that [of ?w' a rp pool t]) (simp_all add: reading_handlers_def)
qed

text \<open>A connection request on a descriptor that is not registered.\<close>

lemma reader_accepts:
  assumes "callback_state bufs (reader_inv target) p a r f e w" "kind r = ACCEPT" "map_find (Endpoint fd) (connections w) = None"
  obtains w' where "accept_then X reader_connection (reader_acceptor w) Reader_new_connection fd w = Inr w'"
    "(program_step X V good_request)\<^sup>*\<^sup>* w w'" "world_ok bufs (reader_inv target) {p} (released a r (contents (request_pool w'))) w'"
proof -
  let ?m = "contents (request_pool w)" and ?th = "reader_acceptor w"
  have st: "world_ok bufs (reader_inv target) {p} ?m w" "sq_inv w" using assms(1) by (simp_all add: callback_state_def)
  have inv: "reader_inv target w ?m" by (rule world_okD(7) [OF st(1)])
  then obtain acc where acc: "get_acceptor ?th w = Inr acc" by (auto simp: reader_inv_def)
  obtain q s1 where q: "new_Connection (FileDescriptor_of fd) w =
        Inr (\<lparr>conn_socket = FileDescriptor_of fd, conn_endpoint = Endpoint fd, conn_subscriber = q\<rparr>, no_FileDescriptor, w\<lparr>subscribers := s1\<rparr>)"
      "pool_inv s1" "block_size (subscribers w) q = None" "contents s1 = (contents (subscribers w))(q \<mapsto> new_EventHandler)"
    by (rule new_Connection_spec [OF world_okD(1) [OF st(1)]])
  have fresh: "contents (subscribers w) q = None" using q(3) pool.value_sized by fastforce
  let ?c = "\<lparr>conn_socket = FileDescriptor_of fd, conn_endpoint = Endpoint fd, conn_subscriber = q\<rparr>" and ?w1 = "w\<lparr>subscribers := s1\<rparr>"
  have w1: "sq_inv ?w1" "pool_inv (subscribers ?w1)" "contents (subscribers ?w1) (conn_subscriber ?c) = Some new_EventHandler"
      "map_find (conn_endpoint ?c) (connections ?w1) = None"
    using st(2) q(2,4) assms(3) by (simp_all add: sq_inv_def)
  obtain t b rp s2 w' where w': "reader_new_connection ?c ?w1 = Inr (snd (move_Connection ?c), w')"
    and eq: "w' = ?w1\<lparr>cout := t, connections := map_insert (conn_endpoint ?c) ?c (connections ?w1), subscribers := s2, request_pool := rp,
       pending_requests := pending_push READ_MULTISHOT b (pending_requests ?w1)\<rparr>"
    and subs: "pool_inv s2" "contents s2 = (contents (subscribers ?w1))(conn_subscriber ?c \<mapsto> \<lparr>handlers = reading_handlers (conn_endpoint ?c), mutex_held = False\<rparr>)"
    and reqs: "contents rp = (contents (request_pool ?w1))(b \<mapsto> added_request (read_request_of ?c) (conn_subscriber ?c))"
    and steps: "(program_step X V good_request)\<^sup>*\<^sup>* ?w1 w'"
    by (rule reader_takes_client [OF w1])
  have run: "accept_then X reader_connection ?th Reader_new_connection fd w = Inr w'"
    using acc q(1) w' by (simp add: accept_then_def delete_moved_Connection)
  have "(program_step X V good_request)\<^sup>*\<^sup>* w ?w1" by (rule program_steps_own [OF rtranclp.rtrancl_refl]) simp_all
  then have all: "(program_step X V good_request)\<^sup>*\<^sup>* w w'" using steps by simp
  have s2: "contents s2 = (contents (subscribers w))(q \<mapsto> \<lparr>handlers = reading_handlers (Endpoint fd), mutex_held = False\<rparr>)"
    using subs(2) q(4) by simp
  have sw: "subscribers w' = s2" by (simp add: eq)
  have old: "registered w' p = registered w p" if "registered w p \<noteq> None" for p
  proof -
    have "p \<noteq> q" using that fresh by (auto simp: registered_def)
    then show ?thesis by (simp add: registered_def sw s2)
  qed
  have new: "registered w' q = Some (reading_handlers (Endpoint fd))" by (simp add: registered_def sw s2)
  have map: "map_inv (map_insert (Endpoint fd) ?c (connections w))"
    using reg.inv_insert [OF _ assms(3)] inv by (simp add: reader_inv_def)
  have "reader_inv target w' (contents rp)"
    unfolding reader_inv_def
  proof (intro conjI allI impI)
    fix b' r' assume "contents rp b' = Some r'"
    then have "?m b' = Some r' \<or> r' = added_request (read_request_of ?c) q" by (cases "b' = b") (simp_all add: reqs)
    then show "kind r' = ACCEPT \<and> registered w' (user_data (header r')) = Some (accepting_handlers (reader_acceptor w')) \<or>
      kind r' = READ_MULTISHOT \<and> (\<exists>k. registered w' (user_data (header r')) = Some (reading_handlers k))"
    proof
      assume "?m b' = Some r'"
      with inv have "kind r' = ACCEPT \<and> registered w (user_data (header r')) = Some (accepting_handlers ?th) \<or>
          kind r' = READ_MULTISHOT \<and> (\<exists>k. registered w (user_data (header r')) = Some (reading_handlers k))"
        unfolding reader_inv_def by blast
      moreover have "reader_acceptor w' = ?th" by (simp add: eq)
      ultimately show ?thesis using old [of "user_data (header r')"] by (elim disjE conjE exE) (simp, metis option.distinct(1))
    qed (simp add: new read_request_good, blast)
  qed (use inv acc map in \<open>simp_all add: eq reader_inv_def get_acceptor_def\<close>)
  then have "world_ok bufs (reader_inv target) {p} (contents rp) w'"
    using subs(1) s2 reqs
    by (intro world_ok_new_subscriber [OF st(1) fresh, where h = "\<lparr>handlers = reading_handlers (Endpoint fd), mutex_held = False\<rparr>"])
       (auto simp: eq read_request_good simp del: pending_push.simps split: if_splits)
  then have "world_ok bufs (reader_inv target) {p} (released a r (contents (request_pool w'))) w'"
    using assms(2) by (simp add: released_def single_shot_def eq)
  with run all show thesis by (rule that)
qed

text \<open>The text the reader leaves with.\<close>

definition reader_exit :: "64 word \<Rightarrow> stop \<Rightarrow> bool" where
  "reader_exit target e \<longleftrightarrow>
     (\<exists>out n. e = ExitProcess 0 (out @ ''TcpReader: Received '' @ show_nat (unat n) @ '' bytes'' @ newline) \<and> target \<le> (n :: 64 word))"

lemma reader_exit_noexcept: "reader_exit target s \<Longrightarrow> noexceptE (Inl s) = Inl s"
  by (auto simp: reader_exit_def noexceptE_def)

lemma reader_reads:
  assumes "target_bytes_count w = target"
  shows "(\<exists>s. reader_onRead b w = Inl s \<and> reader_exit target s) \<or> reader_onRead b w = Inr (w\<lparr>received_bytes_count := received_bytes_count w + word_of_nat (sp_len b)\<rparr>)"
  using assms by (auto simp: reader_onRead_def reader_exit_def Let_def reader_printResults_def log_cout_def simp del: append.simps)

text \<open>A state that differs in the program's output and count only is as good.\<close>

lemma reader_world_same:
  assumes "callback_state bufs (reader_inv target) p a r f e w" "event_loop.truncate w' = event_loop.truncate (w\<lparr>cerr := t\<rparr>)"
    "acceptors w' = acceptors w" "reader_acceptor w' = reader_acceptor w" "connections w' = connections w" "target_bytes_count w' = target_bytes_count w"
  shows "(program_step X V good_request)\<^sup>*\<^sup>* w w' \<and> world_ok bufs (reader_inv target) {p} (released a r (contents (request_pool w'))) w'"
proof -
  have same: "env w' = env w" "request_pool w' = request_pool w" "pending_requests w' = pending_requests w" "should_continue w' = should_continue w"
      "subscribers w' = subscribers w" "ring_buffers w' = ring_buffers w" "error_handler w' = error_handler w"
    using assms(2) by (cases w, cases w', simp add: event_loop.truncate_def)+
  have ok: "world_ok bufs (reader_inv target) {p} (contents (request_pool w)) w" using assms(1) by (simp add: callback_state_def)
  have "registered w' = registered w" by (simp add: registered_def fun_eq_iff same)
  then have "reader_inv target w' (contents (request_pool w))"
    using world_okD(7) [OF ok] by (simp add: reader_inv_def get_acceptor_def same assms(3-6))
  then have "world_ok bufs (reader_inv target) {p} (contents (request_pool w)) w'"
    using ok by (simp add: world_ok_def default_errors_def same)
  from world_ok_mono [OF reader_program_invariant this released_le]
  have "world_ok bufs (reader_inv target) {p} (released a r (contents (request_pool w'))) w'" by (simp add: same)
  moreover have "(program_step X V good_request)\<^sup>*\<^sup>* w w'" by (rule program_steps_own [OF rtranclp.rtrancl_refl]) (simp_all add: same)
  ultimately show ?thesis by blast
qed

text \<open>Every callback of the reader, in every state the loop can run it in.\<close>

lemma reader_callback:
  assumes "callback_state bufs (reader_inv target) p a r f e w"
  shows "reader_mishap f e w \<or> (\<exists>s. reader_cb X f e w = Inl s \<and> reader_exit target s) \<or>
    (\<exists>w'. reader_cb X f e w = Inr w' \<and> (program_step X V good_request)\<^sup>*\<^sup>* w w' \<and>
       world_ok bufs (reader_inv target) {p} (released a r (contents (request_pool w'))) w')"
proof -
  obtain g where st: "reader_inv target w (contents (request_pool w))" "contents (request_pool w) a = Some r" "user_data (header r) = p"
      "may_see bufs r e" "registered w p = Some g" "g (type_of e) = Some f"
    using assms world_okD(7) unfolding callback_state_def by blast
  have event: "(\<exists>n. e = ErrorEvent n) \<or> (\<exists>c. e = completion_event c bufs r)" using st(4) by (auto simp: may_see_def)
  have "kind r = ACCEPT \<and> g = accepting_handlers (reader_acceptor w) \<or> kind r = READ_MULTISHOT \<and> (\<exists>k. g = reading_handlers k)"
    using st(1-3,5) unfolding reader_inv_def by fastforce
  then show ?thesis
  proof (elim disjE conjE exE)
    assume r: "kind r = ACCEPT" "g = accepting_handlers (reader_acceptor w)"
    from event consider n where "e = ErrorEvent n" | fd where "e = AcceptEvent fd" using r(1) by (cases r) auto
    then show ?thesis
    proof cases
      case 1
      then have "f = UserEvent Reader_acceptor_error" using st(6) r(2) by (simp add: accepting_handlers_def)
      with 1 reader_world_same [OF assms, of "log_cerr (''TcpReader: Acceptor error: '' @ sys_strerror X n) w"] show ?thesis
        by (simp add: log_cerr_def event_loop.truncate_def del: append.simps)
    next
      case 2
      then have f: "f = AcceptThen (reader_acceptor w) Reader_new_connection" using st(6) r(2) by (simp add: accepting_handlers_def)
      show ?thesis
      proof (cases "map_find (Endpoint fd) (connections w)")
        case None
        show ?thesis by (rule reader_accepts [OF assms r(1) None, of X V]) (simp add: 2 f)
      qed (simp add: 2 f)
    qed
  next
    fix k assume r: "kind r = READ_MULTISHOT" "g = reading_handlers k"
    from event consider n where "e = ErrorEvent n" | n b where "e = ReadEvent n b" using r(1) by (cases r) auto
    then show ?thesis
    proof cases
      case 1
      then have "f = UserEvent (Reader_connection_error k)" using st(6) r(2) by (simp add: reading_handlers_def)
      then show ?thesis by simp
    next
      case 2
      then have f: "f = UserEvent Reader_read" using st(6) r(2) by (simp add: reading_handlers_def)
      have "target_bytes_count w = target" using st(1) by (simp add: reader_inv_def)
      from reader_reads [OF this, of b] show ?thesis
        using reader_world_same [OF assms, of "w\<lparr>received_bytes_count := received_bytes_count w + word_of_nat (sp_len b)\<rparr>" "cerr w" X V]
        by (auto simp: 2 f event_loop.truncate_def)
    qed
  qed
qed

lemma reader_well_behaved: "well_behaved X V bufs (reader_inv target) (guarded_reader X)"
  unfolding well_behaved_def break_at_def
  by (intro allI impI) (drule reader_callback [where X = X and V = V], auto split: if_splits)

lemma reader_stops:
  assumes "callback_stops bufs (reader_inv target) (guarded_reader X) s"
  shows "s = breakpoint \<or> reader_exit target s"
  using assms reader_callback [where X = X and target = target] unfolding callback_stops_def break_at_def
  by (fastforce simp: noexceptE_def breakpoint_def reader_exit_def split: if_splits)

interpretation reader: loop_program X V bufs "reader_inv target" "guarded_reader X" for X V bufs target
  by unfold_locales (rule reader_program_invariant, rule reader_well_behaved)

section \<open>From the constructor to the loop\<close>

text \<open>The constructor of the reader: one acceptor whose subscriber has the two callbacks.\<close>

definition reader_constructed :: "64 word \<Rightarrow> 'x reader_state \<Rightarrow> ptr \<Rightarrow> Acceptor \<Rightarrow> 'x reader_state \<Rightarrow> bool" where
  "reader_constructed target w this a w1 \<longleftrightarrow>
     (\<exists>sp ap. w1 = w\<lparr>subscribers := sp, acceptors := ap, reader_acceptor := this, connections := [], target_bytes_count := target,
         received_bytes_count := 0\<rparr> \<and> pool_inv sp \<and> pool_inv ap \<and> get_acceptor this w1 = Inr a \<and>
       contents sp = [acc_subscriber a \<mapsto> \<lparr>handlers = accepting_handlers this, mutex_held = False\<rparr>])"

lemma new_RingnetTcpReader_spec:
  assumes "pool_inv (acceptors w)" "pool_inv (subscribers w)" "contents (subscribers w) = Map.empty"
  obtains this a w1 where "new_RingnetTcpReader target w = Inr w1" "reader_constructed target w this a w1"
proof -
  obtain this a s0 ap where n: "new_Acceptor 10 w = Inr (this, w\<lparr>subscribers := s0, acceptors := ap\<rparr>)" "pool_inv s0" "pool_inv ap"
      "get_acceptor this (w\<lparr>subscribers := s0, acceptors := ap\<rparr>) = Inr a"
      "contents s0 = (contents (subscribers w))(acc_subscriber a \<mapsto> new_EventHandler)"
    by (rule new_Acceptor_spec [OF assms(1,2)])
  let ?w = "w\<lparr>subscribers := s0, acceptors := ap, reader_acceptor := this, connections := [], target_bytes_count := target,
      received_bytes_count := 0\<rparr>"
  have w: "pool_inv (subscribers ?w)" "get_acceptor this ?w = Inr a" "contents (subscribers ?w) (acc_subscriber a) = Some new_EventHandler"
    using n by (simp_all add: get_acceptor_def)
  obtain s1 s2 where s: "acceptor_onError this Reader_acceptor_error ?w = Inr (?w\<lparr>subscribers := s1\<rparr>)"
      "acceptor_onNewConnection this Reader_new_connection (?w\<lparr>subscribers := s1\<rparr>) = Inr (?w\<lparr>subscribers := s2\<rparr>)" "pool_inv s2"
      "contents s2 = (contents (subscribers ?w))(acc_subscriber a \<mapsto>
         \<lparr>handlers = (\<lambda>_. None)(ErrorEventT \<mapsto> UserEvent Reader_acceptor_error, AcceptEventT \<mapsto> AcceptThen this Reader_new_connection), mutex_held = False\<rparr>)"
    by (rule acceptor_callbacks [OF w])
  let ?w1 = "w\<lparr>subscribers := s2, acceptors := ap, reader_acceptor := this, connections := [], target_bytes_count := target,
      received_bytes_count := 0\<rparr>"
  have "new_RingnetTcpReader target w = Inr ?w1"
    using n(1) s(1,2) by (simp add: new_RingnetTcpReader_def reader_registerCallbacks_def)
  moreover have "reader_constructed target w this a ?w1"
    unfolding reader_constructed_def
    by (intro exI [of _ s2] exI [of _ ap]) (use n(3,4) s(3,4) n(5) assms(3) in \<open>simp add: get_acceptor_def accepting_handlers_def\<close>)
  ultimately show thesis by (rule that)
qed

text \<open>Whether \<open>listen\<close> succeeds or not, the reader is in order afterwards.\<close>

lemma reader_listen_ready:
  assumes "posix_keeps_rings X V" "fresh_loop V bufs w" "reader_constructed target w this a w1"
    "reader_listen X address port w1 = Inr w'"
  shows "(program_step X V good_request)\<^sup>*\<^sup>* w w'" "world_inv bufs (reader_inv target) w'"
proof -
  obtain sp ap where w1: "w1 = w\<lparr>subscribers := sp, acceptors := ap, reader_acceptor := this, connections := [], target_bytes_count := target,
         received_bytes_count := 0\<rparr>" "pool_inv sp" "pool_inv ap" "get_acceptor this w1 = Inr a"
       "contents sp = [acc_subscriber a \<mapsto> \<lparr>handlers = accepting_handlers this, mutex_held = False\<rparr>]"
    using assms(3) unfolding reader_constructed_def by blast
  have w: "should_continue w" "default_errors w" "ring_buffers w = bufs" "contents (request_pool w) = Map.empty" "sq_inv w"
    using assms(2) fresh_loop_life [OF assms(2)] by (simp_all add: fresh_loop_def empty_pool_facts queue_life_def)
  have inv1: "sq_inv w1" "pool_inv (acceptors w1)" using w(5) w1(3) by (simp_all add: w1(1) sq_inv_def)
  have first: "(program_step X V good_request)\<^sup>*\<^sup>* w w1" by (rule program_steps_own [OF rtranclp.rtrancl_refl]) (simp_all add: w1(1))
  obtain st w2 where l: "acceptor_listen X SOCK_STREAM this address port w1 = Inr (st, w2)"
    using assms(4) by (auto simp: reader_listen_def res_simps w1(1))
  have "w' = log_cout (''TcpReader: Listening on '' @ address_text address port) w2 \<or>
      w' = log_cerr (''TcpReader: Could not listen to '' @ address_text address port) w2"
    using assms(4) l by (simp add: reader_listen_def w1(1) split: if_splits)
  then have "w' = w2\<lparr>cout := cout w', cerr := cerr w'\<rparr>" by (elim disjE) (simp_all add: log_cout_def log_cerr_def)
  then obtain t u where w': "w' = w2\<lparr>cout := t, cerr := u\<rparr>" by blast
  have nn: "acc_subscriber a \<noteq> nullptr"
    using pool_inv_live_nonnull [OF w1(2)] contents_live [of sp "acc_subscriber a"] w1(5) by auto
  obtain a' where l2: "(program_step X V good_request)\<^sup>*\<^sup>* w1 w2" "get_acceptor this w2 = Inr a'"
      "w2 = w1\<lparr>env := env w2, acceptors := acceptors w2, request_pool := request_pool w2, pending_requests := pending_requests w2\<rparr>"
      "\<forall>b r. contents (request_pool w2) b = Some r \<longrightarrow>
         contents (request_pool w1) b = Some r \<or> kind r = ACCEPT \<and> user_data (header r) = acc_subscriber a"
    by (rule acceptor_listens [OF assms(1) inv1 w1(4) nn l])
  show "(program_step X V good_request)\<^sup>*\<^sup>* w w'" by (rule program_steps_own [OF rtranclp_trans [OF first l2(1)]]) (simp_all add: w')
  have f: "subscribers w' = sp" "reader_acceptor w' = this" "connections w' = []" "target_bytes_count w' = target"
      "should_continue w' = should_continue w" "ring_buffers w' = ring_buffers w" "error_handler w' = error_handler w"
    unfolding w' by (subst l2(3), simp add: w1(1))+
  have reqs: "\<forall>b r. contents (request_pool w') b = Some r \<longrightarrow> kind r = ACCEPT \<and> user_data (header r) = acc_subscriber a"
    using l2(4) w(4) by (simp add: w' w1(1))
  have reg: "registered w' (acc_subscriber a) = Some (accepting_handlers this)" by (simp add: registered_def f(1) w1(5))
  have "map_inv []" "get_acceptor this w' = Inr a'" using l2(2) by (simp_all add: w' get_acceptor_def map_inv_def)
  then have "reader_inv target w' (contents (request_pool w'))" using w(1) reg reqs by (simp add: reader_inv_def f)
  then show "world_inv bufs (reader_inv target) w'"
    using w1(2,5) w(2,3) reqs by (auto simp: world_ok_def f default_errors_def split: if_splits)
qed

lemma reader_loop_ok:
  assumes "ring_contract X V (kernel_fits bufs)" "posix_keeps_rings X V" "fresh_loop V bufs w" "length bufs < 2 ^ 31"
    "reader_constructed target w this a w1" "reader_listen X address port w1 = Inr w'"
  shows "loop_ok X V bufs (reader_inv target) w'"
  by (rule fresh_loop_ok [OF assms(1,4,3) reader_listen_ready [OF assms(2,3,5,6)]])

lemma reader_run_result:
  assumes "loop_ok X V bufs (reader_inv target) w"
  shows "meets X reader_mishap (reader_cb X) w \<or> run X (reader_cb X) w = None \<or>
    (\<exists>s. run X (reader_cb X) w = Some (Inl s) \<and> reader_exit target s)"
proof (cases rule: run_upto [of X reader_mishap "reader_cb X" w])
  case same
  have "\<exists>s. res = Inl s \<and> (s = breakpoint \<or> reader_exit target s)" if r: "run X (guarded_reader X) w = Some res" for res
  proof -
    obtain n where n: "turns X (guarded_reader X) n w = Some res" using run_turns [OF r] by blast
    have "should_continue v" if "loop_ok X V bufs (reader_inv target) v" for v
      using that world_okD(7) [of bufs "reader_inv target" "{}" _ v] by (auto simp: loop_ok_def reader_inv_def)
    then show ?thesis using reader.turns_ok [OF n assms] by (cases res) (auto dest!: reader_stops)
  qed
  then show ?thesis using same by (cases "run X (reader_cb X) w") (auto simp: meets_def)
qed simp

end
