(* ===== verification/Echo_Server.thy ===== *)
theory Echo_Server
  imports App_World
begin

text \<open>
  \<open>app/samples/benchmarks/include/ringnet_impl/ringnetEchoServer.hpp\<close>: a server that writes every read back
  to its client, through one \<open>send_buffer\<close> for all clients. The bytes matter here, so the state has a
  memory. The benchmark runs the server and the client of \<open>ringnetEchoClient.hpp\<close> on one loop; the state
  holds the members of both and \<open>echo_callback\<close> the lambdas of both.
\<close>

section \<open>Memory and vectors\<close>

type_synonym memory = "ptr \<Rightarrow> 8 word"

text \<open>A \<open>std::vector<std::byte>\<close>: its storage, size and capacity.\<close>

record byte_vector =
  vec_base :: ptr
  vec_len :: nat
  vec_cap :: nat

definition vec_span :: "byte_vector \<Rightarrow> span" where
  "vec_span v = \<lparr>sp_base = vec_base v, sp_len = vec_len v\<rparr>"

definition bytes_at :: "memory \<Rightarrow> span \<Rightarrow> 8 word list" where
  "bytes_at m s = map (\<lambda>i. m (sp_base s + i)) [0..<sp_len s]"

text \<open>Byte by byte, first to last, as \<open>std::ranges::copy\<close>.\<close>

primrec copy_bytes :: "nat \<Rightarrow> ptr \<Rightarrow> ptr \<Rightarrow> memory \<Rightarrow> memory" where
  "copy_bytes 0 src dst m = m"
| "copy_bytes (Suc n) src dst m = copy_bytes n (src + 1) (dst + 1) (m(dst := m src))"

primrec zero_bytes :: "nat \<Rightarrow> ptr \<Rightarrow> memory \<Rightarrow> memory" where
  "zero_bytes 0 dst m = m"
| "zero_bytes (Suc n) dst m = zero_bytes n (dst + 1) (m(dst := 0))"

text \<open>
  \<open>resize\<close>: within the capacity the storage stays; otherwise new storage is taken at \<open>brk\<close>, at least
  doubling the size, and the old bytes are copied. New elements are zero.
\<close>

definition vec_resize :: "nat \<Rightarrow> byte_vector \<Rightarrow> ptr \<Rightarrow> memory \<Rightarrow> byte_vector \<times> ptr \<times> memory" where
  "vec_resize n v brk m =
     (if n \<le> vec_cap v then (v\<lparr>vec_len := n\<rparr>, brk, zero_bytes (n - vec_len v) (vec_base v + vec_len v) m)
      else let cap = max n (2 * vec_len v) in
        (\<lparr>vec_base = brk, vec_len = n, vec_cap = cap\<rparr>, brk + cap,
         zero_bytes (n - vec_len v) (brk + vec_len v) (copy_bytes (vec_len v) (vec_base v) brk m)))"

section \<open>State\<close>

datatype echo_callback =
    Server_acceptor_error
  | Server_new_connection
  | Server_connection_error
  | Server_read Endpoint
  | Client_error
  | Client_connected
  | Client_connection_error
  | Client_read

record 'x echo_state = "('x, echo_callback) app_world" +
  mem :: memory
  heap_brk :: ptr
  server_acceptor :: ptr
  server_connections :: connection_map
  send_buffer :: byte_vector
  client_connector :: ptr
  client_connection :: "Connection option"
  packet :: byte_vector
  min_bytes_count :: "64 word"
  client_received :: "64 word"
  start_time :: int
  stop_time :: int

section \<open>Operations of the server\<close>

definition server_registerCallbacks :: "'x echo_state \<Rightarrow> stop + 'x echo_state" where
  "server_registerCallbacks w =
     bindE (acceptor_onError (server_acceptor w) Server_acceptor_error w) (\<lambda>w1.
       acceptor_onNewConnection (server_acceptor w1) Server_new_connection w1)"

definition new_RingnetEchoServer :: "nat \<Rightarrow> 'x echo_state \<Rightarrow> stop + 'x echo_state" where
  "new_RingnetEchoServer max_clients_count w =
     bindE (new_Acceptor max_clients_count w) (\<lambda>(this, w1).
       server_registerCallbacks (w1\<lparr>server_acceptor := this, server_connections := [],
                                    send_buffer := \<lparr>vec_base = nullptr, vec_len = 0, vec_cap = 0\<rparr>\<rparr>))"

definition server_listen :: "'x sys \<Rightarrow> string \<Rightarrow> 16 word \<Rightarrow> 'x echo_state \<Rightarrow> stop + 'x echo_state" where
  "server_listen X listening_address listening_port w =
     bindE (acceptor_listen X SOCK_STREAM (server_acceptor w) listening_address listening_port w) (\<lambda>(listening, w1).
       Inr (if \<not> success listening
            then log_cout (''Server: Could not listen to '' @ address_text listening_address listening_port) w1 else w1))"

text \<open>The read callback of a connection, which holds a reference to it.\<close>

definition server_read :: "Endpoint \<Rightarrow> span \<Rightarrow> 'x echo_state \<Rightarrow> stop + 'x echo_state" where
  "server_read reference bytes_read w =
     (case vec_resize (sp_len bytes_read) (send_buffer w) (heap_brk w) (mem w) of (v, brk, m1) \<Rightarrow>
        let w1 = w\<lparr>send_buffer := v, heap_brk := brk, mem := copy_bytes (sp_len bytes_read) (sp_base bytes_read) (vec_base v) m1\<rparr> in
        (case map_find reference (server_connections w1) of
           None \<Rightarrow> Inl (UseAfterFree nullptr)
         | Some connection \<Rightarrow>
             bindE (asyncWrite connection (vec_span (send_buffer w1)) w1) (\<lambda>(status, w2).
               Inr (if \<not> success status
                    then log_cerr (''Server: Error sending to client endpoint '' @
                           show_int (endpoint_fd (conn_endpoint_of connection)) @ '': '' @ message status) w2
                    else w2))))"

definition server_new_connection :: "Connection \<Rightarrow> 'x echo_state \<Rightarrow> stop + (Connection \<times> 'x echo_state)" where
  "server_new_connection new_connection w =
     (let k = conn_endpoint_of new_connection; n = show_int (endpoint_fd k) in
      if map_find k (server_connections w) \<noteq> None then
        Inr (new_connection, log_cerr (''Server: Client already connected (endpoint  '' @ n @ '').'') w)
      else
        let w1 = log_cout (''Server: Received client connection request (endpoint '' @ n @ '').'') w in
        (case map_try_emplace k new_connection (server_connections w1) of (was_inserted, left, m) \<Rightarrow>
           bindE (assertE was_inserted ''was_inserted'') (\<lambda>_.
             let w2 = w1\<lparr>server_connections := m\<rparr>; connection = the (map_find k m) in
             bindE (conn_onError connection Server_connection_error w2) (\<lambda>w3.
             bindE (conn_onRead connection (Server_read k) w3) (\<lambda>w4.
             bindE (asyncRead connection w4) (\<lambda>(status, w5).
               Inr (left, if \<not> success status
                          then log_cerr (''Server: Error reading from client endpoint '' @
                                         show_int (endpoint_fd (conn_endpoint_of connection)) @ '': '' @ message status) w5
                          else w5)))))))"

section \<open>Copying\<close>

lemma copy_bytes_other: "a < dst \<or> dst + n \<le> a \<Longrightarrow> copy_bytes n src dst m a = m a"
  by (induction n arbitrary: src dst m) auto

lemma zero_bytes_other: "a < dst \<or> dst + n \<le> a \<Longrightarrow> zero_bytes n dst m a = m a"
  by (induction n arbitrary: dst m) auto

lemma copy_bytes_at:
  assumes "src + n \<le> dst \<or> dst + n \<le> src" "i < n"
  shows "copy_bytes n src dst m (dst + i) = m (src + i)"
  using assms
proof (induction n arbitrary: src dst m i)
  case (Suc n)
  let ?m = "m(dst := m src)"
  show ?case
  proof (cases i)
    case 0
    then show ?thesis by (simp add: copy_bytes_other)
  next
    case (Suc j)
    have "copy_bytes n (src + 1) (dst + 1) ?m ((dst + 1) + j) = ?m ((src + 1) + j)"
      using Suc.prems \<open>i = Suc j\<close> by (intro Suc.IH) auto
    moreover have "src + 1 + j \<noteq> dst" using Suc.prems \<open>i = Suc j\<close> by auto
    ultimately show ?thesis using \<open>i = Suc j\<close> by simp
  qed
qed simp

text \<open>Memory the vector may write when it is resized to \<open>n\<close>.\<close>

definition apart :: "span \<Rightarrow> byte_vector \<Rightarrow> ptr \<Rightarrow> bool" where
  "apart s v brk \<longleftrightarrow>
     (sp_base s + sp_len s \<le> vec_base v \<or> vec_base v + vec_cap v \<le> sp_base s) \<and> sp_base s + sp_len s \<le> brk"

lemma vec_resize_facts:
  assumes "apart s v brk" "vec_len v \<le> vec_cap v" "vec_resize (sp_len s) v brk m = (v', brk', m')"
  shows "vec_len v' = sp_len s" "sp_base s + sp_len s \<le> vec_base v' \<or> vec_base v' + sp_len s \<le> sp_base s"
    "i < sp_len s \<Longrightarrow> m' (sp_base s + i) = m (sp_base s + i)"
proof -
  show "vec_len v' = sp_len s" using assms(3) by (auto simp: vec_resize_def Let_def split: if_splits)
  show "sp_base s + sp_len s \<le> vec_base v' \<or> vec_base v' + sp_len s \<le> sp_base s"
    using assms by (auto simp: vec_resize_def apart_def Let_def split: if_splits)
  assume i: "i < sp_len s"
  show "m' (sp_base s + i) = m (sp_base s + i)"
  proof (cases "sp_len s \<le> vec_cap v")
    case True
    then have "m' = zero_bytes (sp_len s - vec_len v) (vec_base v + vec_len v) m"
      using assms(3) by (simp add: vec_resize_def)
    then show ?thesis using i True assms(1,2) by (simp add: apart_def, intro zero_bytes_other) linarith
  next
    case False
    then have "m' = zero_bytes (sp_len s - vec_len v) (brk + vec_len v) (copy_bytes (vec_len v) (vec_base v) brk m)"
      using assms(3) by (simp add: vec_resize_def Let_def)
    then show ?thesis using i assms(1) by (simp add: apart_def zero_bytes_other copy_bytes_other)
  qed
qed

lemma vec_resize_in_place:
  assumes "n \<le> vec_cap v" "vec_len v \<le> vec_cap v"
  shows "vec_resize n v brk m = (v\<lparr>vec_len := n\<rparr>, brk, snd (snd (vec_resize n v brk m)))"
    "a < vec_base v \<or> vec_base v + vec_cap v \<le> a \<Longrightarrow> snd (snd (vec_resize n v brk m)) a = m a"
  using assms by (auto simp: vec_resize_def intro!: zero_bytes_other)

section \<open>One echo\<close>

lemma server_read_step:
  assumes "sq_inv w" "map_find k (server_connections w) = Some c" "vec_resize (sp_len s) (send_buffer w) (heap_brk w) (mem w) = (v, brk, m1)"
  obtains a rp where "server_read k s w = Inr (w\<lparr>send_buffer := v, heap_brk := brk, mem := copy_bytes (sp_len s) (sp_base s) (vec_base v) m1,
      request_pool := rp, pending_requests := pending_push WRITE a (pending_requests w)\<rparr>)"
    "block_size (request_pool w) a = None" "a \<noteq> nullptr"
    "contents rp = (contents (request_pool w))(a \<mapsto> added_request (write_request_of c (vec_span v)) (conn_subscriber c))"
    "sq_inv (w\<lparr>send_buffer := v, heap_brk := brk, mem := copy_bytes (sp_len s) (sp_base s) (vec_base v) m1,
      request_pool := rp, pending_requests := pending_push WRITE a (pending_requests w)\<rparr>)"
proof -
  let ?w1 = "w\<lparr>send_buffer := v, heap_brk := brk, mem := copy_bytes (sp_len s) (sp_base s) (vec_base v) m1\<rparr>"
  have inv: "sq_inv ?w1" using assms(1) by (simp add: sq_inv_def)
  obtain a rp where aw: "asyncWrite c (vec_span v) ?w1 = Inr (\<lparr>success = True, message = ''Success''\<rparr>,
        ?w1\<lparr>request_pool := rp, pending_requests := pending_push WRITE a (pending_requests ?w1)\<rparr>)"
      "block_size (request_pool ?w1) a = None" "a \<noteq> nullptr"
      "contents rp = (contents (request_pool ?w1))(a \<mapsto> added_request (write_request_of c (vec_span v)) (conn_subscriber c))"
      "sq_inv (?w1\<lparr>request_pool := rp, pending_requests := pending_push WRITE a (pending_requests ?w1)\<rparr>)"
    by (rule asyncWrite_spec [OF inv])
  show thesis
    by (rule that [of a rp]) (use assms(2,3) aw in \<open>simp_all add: server_read_def\<close>)
qed

lemma copied_bytes:
  assumes "apart s v brk" "vec_len v \<le> vec_cap v" "vec_resize (sp_len s) v brk m = (v', brk', m')"
  shows "bytes_at (copy_bytes (sp_len s) (sp_base s) (vec_base v') m') (vec_span v') = bytes_at m s"
  using vec_resize_facts [OF assms] copy_bytes_at [of "sp_base s" "sp_len s" "vec_base v'" _ m']
  by (simp add: bytes_at_def vec_span_def)

text \<open>Within the capacity of the buffer nothing else in memory changes and the storage stays where it is.\<close>

lemma server_read_in_place:
  assumes "sq_inv w" "map_find k (server_connections w) = Some c" "apart s (send_buffer w) (heap_brk w)"
    "vec_len (send_buffer w) \<le> vec_cap (send_buffer w)" "sp_len s \<le> vec_cap (send_buffer w)"
  obtains w' a where "server_read k s w = Inr w'" "sq_inv w'" "a \<noteq> nullptr" "server_connections w' = server_connections w"
    "send_buffer w' = (send_buffer w)\<lparr>vec_len := sp_len s\<rparr>" "heap_brk w' = heap_brk w" "block_size (request_pool w) a = None"
    "contents (request_pool w') = (contents (request_pool w))(a \<mapsto> added_request (write_request_of c (vec_span (send_buffer w'))) (conn_subscriber c))"
    "bytes_at (mem w') (vec_span (send_buffer w')) = bytes_at (mem w) s"
    "\<forall>t. apart t (send_buffer w) (heap_brk w) \<longrightarrow> bytes_at (mem w') t = bytes_at (mem w) t"
proof -
  let ?m1 = "snd (snd (vec_resize (sp_len s) (send_buffer w) (heap_brk w) (mem w)))"
  let ?v = "(send_buffer w)\<lparr>vec_len := sp_len s\<rparr>"
  note r = vec_resize_in_place(1) [OF assms(5,4), of "heap_brk w" "mem w"]
  have other: "copy_bytes (sp_len s) (sp_base s) (vec_base ?v) ?m1 a = mem w a"
    if "a < vec_base (send_buffer w) \<or> vec_base (send_buffer w) + vec_cap (send_buffer w) \<le> a" for a
  proof -
    have "copy_bytes (sp_len s) (sp_base s) (vec_base ?v) ?m1 a = ?m1 a"
      using that assms(5) by (intro copy_bytes_other) auto
    also have "\<dots> = mem w a" using that by (rule vec_resize_in_place(2) [OF assms(5,4)])
    finally show ?thesis .
  qed
  have frame: "bytes_at (copy_bytes (sp_len s) (sp_base s) (vec_base ?v) ?m1) t = bytes_at (mem w) t"
    if "apart t (send_buffer w) (heap_brk w)" for t
    unfolding bytes_at_def using that by (intro map_cong refl other) (auto simp: apart_def)
  show thesis
    by (rule server_read_step [OF assms(1,2) r])
       (rule that, assumption, simp_all add: frame [simplified] copied_bytes [OF assms(3,4) r, simplified])
qed

section \<open>Properties of the server\<close>

text \<open>C32. Reading \<open>n\<close> bytes from a client queues exactly one write, on the connection of that client, of
  \<open>n\<close> bytes that are, at that moment, the bytes read.\<close>

theorem server_echoes_read:
  assumes "sq_inv w" "map_find k (server_connections w) = Some c"
    "apart s (send_buffer w) (heap_brk w)" "vec_len (send_buffer w) \<le> vec_cap (send_buffer w)"
  shows "\<exists>w' a. server_read k s w = Inr w' \<and> sq_inv w' \<and> block_size (request_pool w) a = None \<and>
     deref (request_pool w') a = Inr (added_request (write_request_of c (vec_span (send_buffer w'))) (conn_subscriber c)) \<and>
     pending_requests w' = pending_push WRITE a (pending_requests w) \<and>
     bytes_at (mem w') (vec_span (send_buffer w')) = bytes_at (mem w) s"
proof -
  obtain v brk m1 where r: "vec_resize (sp_len s) (send_buffer w) (heap_brk w) (mem w) = (v, brk, m1)"
    by (cases "vec_resize (sp_len s) (send_buffer w) (heap_brk w) (mem w)")
  show ?thesis
    by (rule server_read_step [OF assms(1,2) r])
       (auto simp: deref_contents copied_bytes [OF assms(3,4) r])
qed

text \<open>Two clients, on descriptors 9 and 10, and a buffer with room for what they send.\<close>

definition echo_connection :: "int \<Rightarrow> ptr \<Rightarrow> Connection" where
  "echo_connection n p = \<lparr>conn_socket = FileDescriptor_of n, conn_endpoint = Endpoint n, conn_subscriber = p\<rparr>"

definition sample_echo :: "ref_env echo_state" where
  "sample_echo = \<lparr>env = ref_init, request_pool = empty_pool, pending_requests = no_pending, buffer_ring = 1,
     ring_buffers = sample_buffers, should_continue = True, error_handler = new_ErrorHandler,
     subscribers = empty_pool, cerr = [], acceptors = empty_pool, connectors = empty_pool, cout = [],
     mem = (\<lambda>a. word_of_nat a), heap_brk = 90000, server_acceptor = 3,
     server_connections = [(Endpoint 9, echo_connection 9 7), (Endpoint 10, echo_connection 10 207)],
     send_buffer = \<lparr>vec_base = 20000, vec_len = 0, vec_cap = 1024\<rparr>,
     client_connector = 3, client_connection = Some (echo_connection 11 407),
     packet = \<lparr>vec_base = 30000, vec_len = 1024, vec_cap = 1024\<rparr>,
     min_bytes_count = 4096, client_received = 0, start_time = 0, stop_time = 0\<rparr>"

lemma sample_echo_facts:
  "sq_inv sample_echo" "map_find (Endpoint 9) (server_connections sample_echo) = Some (echo_connection 9 7)"
  "map_find (Endpoint 10) (server_connections sample_echo) = Some (echo_connection 10 207)"
  "vec_len (send_buffer sample_echo) \<le> vec_cap (send_buffer sample_echo)"
  by (simp_all add: sample_echo_def sq_inv_def typed_pool_def entries_ok_def contents_def empty_pool_def pool_inv_def
      live_def freed_def map_find_def)

theorem server_echoes_read_witness:
  "\<exists>w'. server_read (Endpoint 9) \<lparr>sp_base = 5000, sp_len = 3\<rparr> sample_echo = Inr w' \<and>
     bytes_at (mem w') (vec_span (send_buffer w')) = [0x88, 0x89, 0x8A]"
proof -
  have "apart \<lparr>sp_base = 5000, sp_len = 3\<rparr> (send_buffer sample_echo) (heap_brk sample_echo)"
    by (simp add: apart_def sample_echo_def)
  moreover have "bytes_at (mem sample_echo) \<lparr>sp_base = 5000, sp_len = 3\<rparr> = [0x88, 0x89, 0x8A]"
    by (simp add: bytes_at_def sample_echo_def upt_rec)
  ultimately show ?thesis
    using server_echoes_read [OF sample_echo_facts(1,2) _ sample_echo_facts(4), of "\<lparr>sp_base = 5000, sp_len = 3\<rparr>"] by metis
qed

text \<open>C40. All clients share one buffer, and a write is only queued: when a read of another client is handled
  before the first write has been submitted and carried out, both write requests point to the same
  bytes, which are those of the second client. The first client gets the second one's data.\<close>

theorem server_mixes_clients:
  assumes "sq_inv w" "map_find k1 (server_connections w) = Some c1" "map_find k2 (server_connections w) = Some c2"
    "apart s1 (send_buffer w) (heap_brk w)" "apart s2 (send_buffer w) (heap_brk w)"
    "vec_len (send_buffer w) \<le> vec_cap (send_buffer w)" "sp_len s1 \<le> vec_cap (send_buffer w)" "sp_len s2 = sp_len s1"
  shows "\<exists>w1 w2 a1 a2. server_read k1 s1 w = Inr w1 \<and> server_read k2 s2 w1 = Inr w2 \<and> a1 \<noteq> a2 \<and>
     deref (request_pool w2) a1 = Inr (added_request (write_request_of c1 (vec_span (send_buffer w2))) (conn_subscriber c1)) \<and>
     deref (request_pool w2) a2 = Inr (added_request (write_request_of c2 (vec_span (send_buffer w2))) (conn_subscriber c2)) \<and>
     bytes_at (mem w2) (vec_span (send_buffer w2)) = bytes_at (mem w) s2"
proof -
  obtain w1 a1 where 1: "server_read k1 s1 w = Inr w1" "sq_inv w1" "a1 \<noteq> nullptr" "server_connections w1 = server_connections w"
      "send_buffer w1 = (send_buffer w)\<lparr>vec_len := sp_len s1\<rparr>" "heap_brk w1 = heap_brk w" "block_size (request_pool w) a1 = None"
      "contents (request_pool w1) = (contents (request_pool w))(a1 \<mapsto> added_request (write_request_of c1 (vec_span (send_buffer w1))) (conn_subscriber c1))"
      "\<forall>t. apart t (send_buffer w) (heap_brk w) \<longrightarrow> bytes_at (mem w1) t = bytes_at (mem w) t"
    by (rule server_read_in_place [OF assms(1,2,4,6,7)])
  have again: "map_find k2 (server_connections w1) = Some c2" "apart s2 (send_buffer w1) (heap_brk w1)"
      "vec_len (send_buffer w1) \<le> vec_cap (send_buffer w1)" "sp_len s2 \<le> vec_cap (send_buffer w1)"
    using assms(3,5,7,8) 1(4-6) by (simp_all add: apart_def)
  obtain w2 a2 where 2: "server_read k2 s2 w1 = Inr w2" "a2 \<noteq> nullptr"
      "send_buffer w2 = (send_buffer w1)\<lparr>vec_len := sp_len s2\<rparr>" "block_size (request_pool w1) a2 = None"
      "contents (request_pool w2) = (contents (request_pool w1))(a2 \<mapsto> added_request (write_request_of c2 (vec_span (send_buffer w2))) (conn_subscriber c2))"
      "bytes_at (mem w2) (vec_span (send_buffer w2)) = bytes_at (mem w1) s2"
    by (rule server_read_in_place [OF 1(2) again])
  have ne: "a1 \<noteq> a2" using 2(4) 1(8) pool.value_sized [of "request_pool w1" a1] by auto
  have same: "send_buffer w2 = send_buffer w1" using 2(3) 1(5) assms(8) by simp
  have "bytes_at (mem w2) (vec_span (send_buffer w2)) = bytes_at (mem w) s2" using 2(6) 1(9) assms(5) by simp
  moreover have "contents (request_pool w2) a1 = Some (added_request (write_request_of c1 (vec_span (send_buffer w2))) (conn_subscriber c1))"
      "contents (request_pool w2) a2 = Some (added_request (write_request_of c2 (vec_span (send_buffer w2))) (conn_subscriber c2))"
    using ne 1(8) 2(5) same by simp_all
  ultimately show ?thesis using 1(1,3) 2(1,2) ne by (auto simp: deref_contents)
qed

theorem server_mixes_clients_witness:
  "\<exists>w1 w2. server_read (Endpoint 9) \<lparr>sp_base = 5000, sp_len = 3\<rparr> sample_echo = Inr w1 \<and>
     server_read (Endpoint 10) \<lparr>sp_base = 6024, sp_len = 3\<rparr> w1 = Inr w2 \<and>
     bytes_at (mem w2) (vec_span (send_buffer w2)) = bytes_at (mem sample_echo) \<lparr>sp_base = 6024, sp_len = 3\<rparr>"
proof -
  have "apart \<lparr>sp_base = 5000, sp_len = 3\<rparr> (send_buffer sample_echo) (heap_brk sample_echo)"
      "apart \<lparr>sp_base = 6024, sp_len = 3\<rparr> (send_buffer sample_echo) (heap_brk sample_echo)"
      "3 \<le> vec_cap (send_buffer sample_echo)"
    by (simp_all add: apart_def sample_echo_def)
  then show ?thesis
    using server_mixes_clients [OF sample_echo_facts(1-3) _ _ sample_echo_facts(4), of "\<lparr>sp_base = 5000, sp_len = 3\<rparr>" "\<lparr>sp_base = 6024, sp_len = 3\<rparr>"]
    by auto
qed

end
