(* ===== verification/Echo_Client.thy ===== *)
theory Echo_Client
  imports Echo_Server
begin

text \<open>
  \<open>app/samples/benchmarks/include/ringnet_impl/ringnetEchoClient.hpp\<close>: a client that sends one packet, waits for
  the echo, sends the next and leaves the process once enough bytes came back; and the callbacks of the
  echo benchmark, server and client together. \<open>now\<close> reads the clock of the environment and \<open>rate\<close> prints
  the floating-point byte rate; both are parameters.
\<close>

section \<open>Printing the results\<close>

text \<open>
  The unit is chosen by comparing the nanosecond count with \<open>period::den\<close> of the units, that is with 1, 1000
  and 1000000.
\<close>

definition micro :: string where "micro = [CHR 0xCE, CHR 0xBC]"

definition elapsed_text :: "int \<Rightarrow> string" where
  "elapsed_text ticks =
     (if 1 < ticks then show_int (ticks sdiv 1000000000) @ ''s''
      else if 1000 < ticks then show_int (ticks sdiv 1000000) @ ''ms''
      else if 1000000 < ticks then show_int (ticks sdiv 1000) @ micro @ ''s''
      else show_int ticks @ ''ns'')"

definition client_printResults ::
    "('x \<Rightarrow> int \<times> 'x) \<Rightarrow> (64 word \<Rightarrow> int \<Rightarrow> string) \<Rightarrow> 'x echo_state \<Rightarrow> 'x echo_state" where
  "client_printResults now rate w =
     (case now (env w) of (t, x1) \<Rightarrow>
        let elapsed = t - start_time w in
        w\<lparr>env := x1, stop_time := t,
          cout := cout w @ ''Exchanged '' @ show_nat (unat (client_received w)) @ '' bytes in '' @ elapsed_text elapsed @
                  '' ('' @ rate (client_received w) elapsed @ '' MB/s)'' @ newline\<rparr>)"

section \<open>Operations of the client\<close>

text \<open>The constructor allocates the packet of 1024 bytes \<open>'A'\<close>.\<close>

definition new_RingnetEchoClient :: "64 word \<Rightarrow> 'x echo_state \<Rightarrow> stop + 'x echo_state" where
  "new_RingnetEchoClient min_bytes w =
     bindE (new_Connector w) (\<lambda>(this, w1).
       Inr (w1\<lparr>client_connector := this, client_connection := None,
               packet := \<lparr>vec_base = heap_brk w1, vec_len = 1024, vec_cap = 1024\<rparr>, heap_brk := heap_brk w1 + 1024,
               mem := (\<lambda>a. if heap_brk w1 \<le> a \<and> a < heap_brk w1 + 1024 then 0x41 else mem w1 a),
               min_bytes_count := min_bytes, client_received := 0, start_time := 0, stop_time := 0\<rparr>))"

definition client_connect :: "'x sys \<Rightarrow> string \<Rightarrow> 16 word \<Rightarrow> 'x echo_state \<Rightarrow> stop + 'x echo_state" where
  "client_connect X server_address server_port w =
     (let w1 = log_cout (''Client: Connecting to '' @ address_text server_address server_port @ ''...'') w in
      bindE (connector_onError (client_connector w1) Client_error w1) (\<lambda>w2.
      bindE (connector_onConnection (client_connector w2) Client_connected w2) (\<lambda>w3.
      bindE (asyncConnect X SOCK_STREAM (client_connector w3) server_address server_port w3) (\<lambda>(request_status, w4).
        if \<not> success request_status then
          let w5 = log_cerr (''Client: Could not connect to '' @ address_text server_address server_port) w4;
              w6 = log_cerr (message request_status) w5
          in Inl Terminate
        else Inr w4))))"

definition client_onConnected :: "('x \<Rightarrow> int \<times> 'x) \<Rightarrow> 'x echo_state \<Rightarrow> stop + 'x echo_state" where
  "client_onConnected now w =
     bindE (assertE (client_connection w \<noteq> None) ''connection'') (\<lambda>_.
       let c = the (client_connection w) in
       bindE (conn_onError c Client_connection_error w) (\<lambda>w1.
       bindE (conn_onRead c Client_read w1) (\<lambda>w2.
       bindE (asyncRead c w2) (\<lambda>(_, w3).
       (case now (env w3) of (t, x1) \<Rightarrow>
          bindE (asyncWrite c (vec_span (packet w3)) (w3\<lparr>env := x1, start_time := t\<rparr>)) (\<lambda>(_, w4). Inr w4))))))"

text \<open>The callback on connection: \<open>connection = std::move(accepted_connection)\<close>, then \<open>onConnected\<close>.\<close>

definition client_connected ::
    "('x \<Rightarrow> int \<times> 'x) \<Rightarrow> Connection \<Rightarrow> 'x echo_state \<Rightarrow> stop + (Connection \<times> 'x echo_state)" where
  "client_connected now accepted_connection w =
     (let w1 = log_cout (''Client: Connected to '' @ show_int (endpoint_fd (conn_endpoint_of accepted_connection))) w in
      bindE (case client_connection w1 of
               None \<Rightarrow> (case move_Connection accepted_connection of (own, left) \<Rightarrow> Inr (own, left, w1))
             | Some this \<Rightarrow> move_assign_Connection this accepted_connection w1) (\<lambda>(own, left, w2).
      bindE (client_onConnected now (w2\<lparr>client_connection := Some own\<rparr>)) (\<lambda>w3. Inr (left, w3))))"

definition client_read ::
    "('x \<Rightarrow> int \<times> 'x) \<Rightarrow> (64 word \<Rightarrow> int \<Rightarrow> string) \<Rightarrow> span \<Rightarrow> 'x echo_state \<Rightarrow> stop + 'x echo_state" where
  "client_read now rate bytes_read w =
     bindE (assertE (sp_len bytes_read = vec_len (packet w)) ''event.bytes_read.size_bytes() == packet.size()'') (\<lambda>_.
       let w1 = w\<lparr>client_received := client_received w + word_of_nat (sp_len bytes_read)\<rparr> in
       if client_received w1 < min_bytes_count w1 then
         (case client_connection w1 of
            None \<Rightarrow> Inl NullDeref
          | Some c \<Rightarrow> bindE (asyncWrite c (vec_span (packet w1)) w1) (\<lambda>(_, w2). Inr w2))
       else Inl (ExitProcess 0 (cout (client_printResults now rate w1))))"

section \<open>The callbacks of the benchmark\<close>

fun echo_event ::
    "'x sys \<Rightarrow> ('x \<Rightarrow> int \<times> 'x) \<Rightarrow> (64 word \<Rightarrow> int \<Rightarrow> string) \<Rightarrow> echo_callback \<Rightarrow> event \<Rightarrow> 'x echo_state \<Rightarrow> stop + 'x echo_state" where
  "echo_event X now rate Server_acceptor_error (ErrorEvent n) w = Inr (log_cerr (''Error: '' @ sys_strerror X n) w)"
| "echo_event X now rate Server_connection_error (ErrorEvent n) w =
     (let w1 = log_cerr (''Error: '' @ sys_strerror X n) w in Inl Terminate)"
| "echo_event X now rate (Server_read reference) (ReadEvent sock bytes_read) w = server_read reference bytes_read w"
| "echo_event X now rate Client_error (ErrorEvent n) w =
     (let w1 = log_cerr (''Client: Error: '' @ sys_strerror X n) w in Inl Terminate)"
| "echo_event X now rate Client_connection_error (ErrorEvent n) w =
     (let w1 = log_cerr (''Client: Error: '' @ sys_strerror X n) w in Inl Terminate)"
| "echo_event X now rate Client_read (ReadEvent sock bytes_read) w = client_read now rate bytes_read w"
| "echo_event X now rate _ _ w = Inl (BadCast nullptr)"

fun echo_on_connection :: "('x \<Rightarrow> int \<times> 'x) \<Rightarrow> echo_callback \<Rightarrow> Connection \<Rightarrow> 'x echo_state \<Rightarrow> stop + (Connection \<times> 'x echo_state)" where
  "echo_on_connection now Server_new_connection c w = server_new_connection c w"
| "echo_on_connection now Client_connected c w = client_connected now c w"
| "echo_on_connection now _ c w = Inl (BadCast nullptr)"

text \<open>The set-up in \<open>main\<close>, on a fresh loop, up to \<open>loop.run()\<close>.\<close>

definition echo_main :: "'x sys \<Rightarrow> string \<Rightarrow> 16 word \<Rightarrow> 64 word \<Rightarrow> 'x echo_state \<Rightarrow> stop + 'x echo_state" where
  "echo_main X address port bytes_count w =
     bindE (new_RingnetEchoServer 10 w) (\<lambda>w1.
     bindE (server_listen X address port w1) (\<lambda>w2.
     bindE (new_RingnetEchoClient bytes_count w2) (\<lambda>w3. client_connect X address port w3)))"

section \<open>Properties of the client\<close>

text \<open>C34. A full echo is counted; while fewer bytes than asked for have come back the client queues exactly
  one write, of its packet, on its connection, and as soon as enough have come back it prints the results
  and leaves the process with status 0. An echo that arrives in pieces stops the client at its assertion.\<close>

theorem client_sends_until_enough:
  assumes "sq_inv w" "client_connection w = Some c" "unat (client_received w) + sp_len s < 2 ^ 64"
  shows "if sp_len s \<noteq> vec_len (packet w) then client_read now rate s w = Inl (AssertFailed ''event.bytes_read.size_bytes() == packet.size()'')
    else if unat (client_received w) + sp_len s < unat (min_bytes_count w)
    then \<exists>w' a. client_read now rate s w = Inr w' \<and> sq_inv w' \<and> unat (client_received w') = unat (client_received w) + sp_len s \<and>
      block_size (request_pool w) a = None \<and>
      deref (request_pool w') a = Inr (added_request (write_request_of c (vec_span (packet w))) (conn_subscriber c)) \<and>
      pending_requests w' = pending_push WRITE a (pending_requests w)
    else \<exists>out. client_read now rate s w = Inl (ExitProcess 0 out)"
proof -
  let ?n = "unat (client_received w) + sp_len s"
  let ?w1 = "w\<lparr>client_received := word_of_nat ?n\<rparr>"
  have n: "unat (word_of_nat ?n :: 64 word) = ?n" using assms(3) by (intro unat_of_nat_small) simp
  have inv: "sq_inv ?w1" using assms(1) by (simp add: sq_inv_def)
  have less: "(word_of_nat ?n :: 64 word) < min_bytes_count w \<longleftrightarrow> ?n < unat (min_bytes_count w)"
    unfolding word_less_nat_alt n ..
  have step: "client_read now rate s w = (if ?n < unat (min_bytes_count w)
      then bindE (asyncWrite c (vec_span (packet w)) ?w1) (\<lambda>(_, w2). Inr w2)
      else Inl (ExitProcess 0 (cout (client_printResults now rate ?w1))))" if "sp_len s = vec_len (packet w)"
    using that assms(2) less by (simp add: client_read_def Let_def)
  obtain a rp where "asyncWrite c (vec_span (packet w)) ?w1 = Inr (\<lparr>success = True, message = ''Success''\<rparr>,
        ?w1\<lparr>request_pool := rp, pending_requests := pending_push WRITE a (pending_requests ?w1)\<rparr>)"
      "block_size (request_pool ?w1) a = None" "a \<noteq> nullptr"
      "contents rp = (contents (request_pool ?w1))(a \<mapsto> added_request (write_request_of c (vec_span (packet w))) (conn_subscriber c))"
      "sq_inv (?w1\<lparr>request_pool := rp, pending_requests := pending_push WRITE a (pending_requests ?w1)\<rparr>)"
    by (rule asyncWrite_spec [OF inv])
  then show ?thesis
    using step n by (auto simp: client_read_def deref_contents simp del: of_nat_add)
qed

theorem client_sends_until_enough_witness:
  "(\<exists>w' a. client_read (\<lambda>x. (0, x)) (\<lambda>_ _. []) \<lparr>sp_base = 5000, sp_len = 1024\<rparr> sample_echo = Inr w' \<and>
      unat (client_received w') = 1024 \<and> pending_requests w' = pending_push WRITE a no_pending) \<and>
   client_read (\<lambda>x. (0, x)) (\<lambda>_ _. []) \<lparr>sp_base = 5000, sp_len = 1000\<rparr> sample_echo =
      Inl (AssertFailed ''event.bytes_read.size_bytes() == packet.size()'')"
proof -
  have w: "client_connection sample_echo = Some (echo_connection 11 407)" "unat (client_received sample_echo) = 0"
      "vec_len (packet sample_echo) = 1024" "unat (min_bytes_count sample_echo) = 4096" "pending_requests sample_echo = no_pending"
    by (simp_all add: sample_echo_def)
  show ?thesis
    using client_sends_until_enough [OF sample_echo_facts(1) w(1), of "\<lparr>sp_base = 5000, sp_len = 1024\<rparr>" "\<lambda>x. (0, x)" "\<lambda>_ _. []"]
      client_sends_until_enough [OF sample_echo_facts(1) w(1), of "\<lparr>sp_base = 5000, sp_len = 1000\<rparr>" "\<lambda>x. (0, x)" "\<lambda>_ _. []"]
    by (auto simp: w simp del: pending_push.simps)
qed

text \<open>Every run of more than one nanosecond is reported in whole seconds, so one shorter than a second as
  \<open>0s\<close>: the branches for milliseconds and microseconds are never taken.\<close>

lemma results_always_in_seconds:
  assumes "1 < ticks"
  shows "elapsed_text ticks = show_int (ticks div 1000000000) @ ''s''"
proof -
  have "ticks sdiv 1000000000 = ticks div 1000000000" using assms by (simp add: signed_divide_int_def sgn_if)
  with assms show ?thesis by (simp add: elapsed_text_def)
qed

end
