(* ===== verification/Echo_Safety.thy ===== *)
theory Echo_Safety
  imports Echo_Client App_Safety Breakpoints
begin

text \<open>
  The echo server and the echo client on ringnet as a whole, on one loop. They keep the contract of \<open>Loop_Safety\<close> until
  a connection is accepted on a descriptor that the server still has registered; until then only their own callbacks
  can stop the loop.
\<close>

section \<open>The invariant of the pair\<close>

fun echo_mishap :: "echo_callback closure \<Rightarrow> event \<Rightarrow> 'x echo_state \<Rightarrow> bool" where
  "echo_mishap (AcceptThen this u) (AcceptEvent fd) w = (map_find (Endpoint fd) (server_connections w) \<noteq> None)"
| "echo_mishap _ _ w = False"

abbreviation echo_cb ::
    "'x sys \<Rightarrow> ('x \<Rightarrow> int \<times> 'x) \<Rightarrow> (64 word \<Rightarrow> int \<Rightarrow> string) \<Rightarrow> echo_callback closure \<Rightarrow> event \<Rightarrow> 'x echo_state \<Rightarrow> stop + 'x echo_state" where
  "echo_cb X now rate \<equiv> run_closure X (echo_event X now rate) (echo_on_connection now)"

abbreviation guarded_echo ::
    "'x sys \<Rightarrow> ('x \<Rightarrow> int \<times> 'x) \<Rightarrow> (64 word \<Rightarrow> int \<Rightarrow> string) \<Rightarrow> echo_callback closure \<Rightarrow> event \<Rightarrow> 'x echo_state \<Rightarrow> stop + 'x echo_state" where
  "guarded_echo X now rate \<equiv> break_at echo_mishap (echo_cb X now rate)"

text \<open>The callbacks of the four kinds of subscribers.\<close>

definition serving_acceptor :: "ptr \<Rightarrow> event_type \<Rightarrow> echo_callback closure option" where
  "serving_acceptor this =
     (\<lambda>_. None)(ErrorEventT \<mapsto> UserEvent Server_acceptor_error, AcceptEventT \<mapsto> AcceptThen this Server_new_connection)"

definition serving_handlers :: "Endpoint \<Rightarrow> event_type \<Rightarrow> echo_callback closure option" where
  "serving_handlers k = (\<lambda>_. None)(ErrorEventT \<mapsto> UserEvent Server_connection_error, ReadEventT \<mapsto> UserEvent (Server_read k))"

definition client_connector_handlers :: "ptr \<Rightarrow> event_type \<Rightarrow> echo_callback closure option" where
  "client_connector_handlers this =
     (\<lambda>_. None)(ErrorEventT \<mapsto> UserEvent Client_error, ConnectEventT \<mapsto> ConnectThen this Client_connected)"

definition client_handlers :: "event_type \<Rightarrow> echo_callback closure option" where
  "client_handlers = (\<lambda>_. None)(ErrorEventT \<mapsto> UserEvent Client_connection_error, ReadEventT \<mapsto> UserEvent Client_read)"

text \<open>Whose request it is, by the callbacks of its subscriber.\<close>

definition echo_request :: "'x echo_state \<Rightarrow> request \<Rightarrow> bool" where
  "echo_request w r \<longleftrightarrow>
     (let g = registered w (user_data (header r)) in
      kind r = ACCEPT \<and> g = Some (serving_acceptor (server_acceptor w)) \<or>
      kind r = CONNECT \<and> client_connection w = None \<and> g = Some (client_connector_handlers (client_connector w)) \<or>
      kind r \<in> {READ_MULTISHOT, WRITE} \<and> (\<exists>k. map_find k (server_connections w) \<noteq> None \<and> g = Some (serving_handlers k)) \<or>
      kind r \<in> {READ_MULTISHOT, WRITE} \<and> client_connection w \<noteq> None \<and> g = Some client_handlers)"

definition clock_keeps :: "'x sys \<Rightarrow> 'x ring_view \<Rightarrow> ('x \<Rightarrow> int \<times> 'x) \<Rightarrow> bool" where
  "clock_keeps X V now \<longleftrightarrow> (\<forall>x t x'. now x = (t, x') \<longrightarrow> same_rings X V x x')"

text \<open>
  The objects are there, every connection has a live subscriber with its callbacks, every request is one of the
  pair's, and there is at most one connect request. The last two lines are conditions on the surroundings.
\<close>

definition echo_inv ::
    "'x sys \<Rightarrow> 'x ring_view \<Rightarrow> ('x \<Rightarrow> int \<times> 'x) \<Rightarrow> span list \<Rightarrow> 64 word \<Rightarrow> 'x echo_state \<Rightarrow> (ptr \<rightharpoonup> request) \<Rightarrow> bool" where
  "echo_inv X V now bufs target w m \<longleftrightarrow>
     should_continue w \<and> min_bytes_count w = target \<and> vec_len (packet w) = 1024 \<and> pool_inv (connectors w) \<and>
     (\<exists>a. get_acceptor (server_acceptor w) w = Inr a) \<and> (\<exists>k. get_connector (client_connector w) w = Inr k) \<and>
     map_inv (server_connections w) \<and>
     (\<forall>k c. map_find k (server_connections w) = Some c \<longrightarrow> registered w (conn_subscriber c) = Some (serving_handlers k)) \<and>
     (\<forall>c. client_connection w = Some c \<longrightarrow> registered w (conn_subscriber c) = Some client_handlers) \<and>
     (\<forall>b r. m b = Some r \<longrightarrow> echo_request w r) \<and>
     (\<forall>a b r q. m a = Some r \<longrightarrow> m b = Some q \<longrightarrow> kind r = CONNECT \<longrightarrow> kind q = CONNECT \<longrightarrow> a = b) \<and>
     (\<forall>s \<in> set bufs. sp_len s < 2 ^ 31) \<and> clock_keeps X V now"

text \<open>It depends on these parts of the state only.\<close>

definition echo_same :: "'x echo_state \<Rightarrow> 'x echo_state \<Rightarrow> bool" where
  "echo_same w w' \<longleftrightarrow> should_continue w' = should_continue w \<and> min_bytes_count w' = min_bytes_count w \<and> vec_len (packet w') = vec_len (packet w) \<and>
     connectors w' = connectors w \<and> acceptors w' = acceptors w \<and> server_acceptor w' = server_acceptor w \<and>
     client_connector w' = client_connector w \<and> server_connections w' = server_connections w \<and> client_connection w' = client_connection w"

lemma echo_inv_same:
  assumes "echo_inv X V now bufs target w m" "echo_same w w'" "registered w' = registered w" "m' \<subseteq>\<^sub>m m"
  shows "echo_inv X V now bufs target w' m'"
proof -
  have sub: "m a = Some r" if "m' a = Some r" for a r using that assms(4) by (metis domI map_le_def)
  have req: "echo_request w' r = echo_request w r" for r using assms(2,3) by (simp add: echo_request_def echo_same_def)
  have "\<forall>b r. m' b = Some r \<longrightarrow> echo_request w' r" using assms(1) sub unfolding req echo_inv_def by blast
  moreover have "\<forall>a b r q. m' a = Some r \<longrightarrow> m' b = Some q \<longrightarrow> kind r = CONNECT \<longrightarrow> kind q = CONNECT \<longrightarrow> a = b"
    using assms(1) sub unfolding echo_inv_def by blast
  ultimately show ?thesis
    using assms(1-3) by (simp add: echo_inv_def echo_same_def get_acceptor_def get_connector_def)
qed

lemma echo_program_invariant: "program_invariant (echo_inv X V now bufs target)"
  unfolding program_invariant_def
proof (intro allI impI)
  fix w w' :: "'a echo_state" and m m'
  assume inv: "echo_inv X V now bufs target w m" and more: "event_loop.more w' = event_loop.more w" "should_continue w' = should_continue w"
    "registered w' = registered w" and le: "m' \<subseteq>\<^sub>m m"
  have "echo_same w w'" using more(1,2) by (cases w, cases w') (simp add: echo_same_def)
  then show "echo_inv X V now bufs target w' m'" by (rule echo_inv_same [OF inv _ more(3) le])
qed

lemma echo_world_same:
  assumes "world_ok bufs (echo_inv X V now bufs target) H m w" "echo_same w w'" "subscribers w' = subscribers w"
    "ring_buffers w' = ring_buffers w" "error_handler w' = error_handler w"
  shows "world_ok bufs (echo_inv X V now bufs target) H m w'"
proof -
  have "registered w' = registered w" by (simp add: registered_def fun_eq_iff assms(3))
  then have "echo_inv X V now bufs target w' m" by (rule echo_inv_same [OF world_okD(7) [OF assms(1)] assms(2)]) simp
  then show ?thesis using assms(1) by (simp add: world_ok_def default_errors_def assms(3-5))
qed

section \<open>Reading and writing\<close>

text \<open>A write on a connection of the pair.\<close>

lemma echo_writes:
  assumes "world_ok bufs (echo_inv X V now bufs target) {p} (contents (request_pool w)) w" "sq_inv w" "sp_len b < 2 ^ 31"
    "(\<exists>k. map_find k (server_connections w) = Some c) \<or> client_connection w = Some c"
  obtains w' where "asyncWrite c b w = Inr (\<lparr>success = True, message = ''Success''\<rparr>, w')" "(program_step X V good_request)\<^sup>*\<^sup>* w w'"
    "world_ok bufs (echo_inv X V now bufs target) {p} (released a r (contents (request_pool w'))) w'"
proof -
  let ?m = "contents (request_pool w)" and ?q = "conn_subscriber c" and ?I = "echo_inv X V now bufs target"
  have inv: "?I w ?m" by (rule world_okD(7) [OF assms(1)])
  have owner: "(\<exists>k. map_find k (server_connections w) \<noteq> None \<and> registered w ?q = Some (serving_handlers k)) \<or>
      client_connection w \<noteq> None \<and> registered w ?q = Some client_handlers"
    using assms(4)
  proof
    assume "\<exists>k. map_find k (server_connections w) = Some c"
    then obtain k where "map_find k (server_connections w) = Some c" ..
    moreover from this have "registered w ?q = Some (serving_handlers k)" using inv unfolding echo_inv_def by blast
    ultimately show ?thesis by blast
  next
    assume "client_connection w = Some c"
    moreover from this have "registered w ?q = Some client_handlers" using inv unfolding echo_inv_def by blast
    ultimately show ?thesis by simp
  qed
  then obtain h where h: "contents (subscribers w) ?q = Some h" by (auto simp: registered_def)
  have nn: "?q \<noteq> nullptr" using pool_inv_live_nonnull [OF world_okD(1) [OF assms(1)]] contents_live [OF h] by blast
  obtain d rp where w': "asyncWrite c b w = Inr (\<lparr>success = True, message = ''Success''\<rparr>,
        w\<lparr>request_pool := rp, pending_requests := pending_push WRITE d (pending_requests w)\<rparr>)"
      "contents rp = ?m(d \<mapsto> added_request (write_request_of c b) ?q)"
      "program_step X V good_request w (w\<lparr>request_pool := rp, pending_requests := pending_push WRITE d (pending_requests w)\<rparr>)"
    by (rule asyncWrite_adds [OF assms(2) nn assms(3)])
  let ?w' = "w\<lparr>request_pool := rp, pending_requests := pending_push WRITE d (pending_requests w)\<rparr>"
  have reg: "registered ?w' = registered w" by (simp add: registered_def fun_eq_iff)
  have same: "echo_same w ?w'" by (simp add: echo_same_def)
  have new: "echo_request ?w' (added_request (write_request_of c b) ?q)"
    using owner by (simp add: echo_request_def reg write_request_good Let_def del: pending_push.simps)
  have old: "?I ?w' ?m" by (rule echo_inv_same [OF inv same reg]) simp
  have "\<forall>x y. contents rp x = Some y \<longrightarrow> echo_request ?w' y"
    using old new w'(2) by (simp add: echo_inv_def)
  moreover have "\<forall>x y u v. contents rp x = Some u \<longrightarrow> contents rp y = Some v \<longrightarrow> kind u = CONNECT \<longrightarrow> kind v = CONNECT \<longrightarrow> x = y"
    using old w'(2) write_request_good(3) [of c b ?q] unfolding echo_inv_def by (metis Operation.distinct fun_upd_apply option.inject)
  ultimately have "?I ?w' (contents rp)" using old unfolding echo_inv_def by blast
  then have "world_ok bufs ?I {p} (contents rp) ?w'"
    using h w'(2) by (intro world_ok_requests [OF assms(1)]) (auto simp: write_request_good split: if_splits)
  then have "world_ok bufs ?I {p} (released a r (contents (request_pool ?w'))) ?w'"
    using world_ok_mono [OF echo_program_invariant _ released_le] by simp
  with w'(1) r_into_rtranclp [of "program_step X V good_request", OF w'(3)] show thesis by (rule that)
qed

text \<open>The server's read callback: the bytes go into the shared buffer and back to the client.\<close>

lemma server_reads:
  assumes "callback_state bufs (echo_inv X V now bufs target) p a r f e w" "map_find k (server_connections w) \<noteq> None" "sp_len s < 2 ^ 31"
  obtains w' where "server_read k s w = Inr w'" "(program_step X V good_request)\<^sup>*\<^sup>* w w'"
    "world_ok bufs (echo_inv X V now bufs target) {p} (released a r (contents (request_pool w'))) w'"
proof -
  obtain c where c: "map_find k (server_connections w) = Some c" using assms(2) by blast
  obtain v brk m1 where v: "vec_resize (sp_len s) (send_buffer w) (heap_brk w) (mem w) = (v, brk, m1)"
    by (cases "vec_resize (sp_len s) (send_buffer w) (heap_brk w) (mem w)")
  have len: "vec_len v = sp_len s" using v by (auto simp: vec_resize_def Let_def split: if_splits)
  let ?w1 = "w\<lparr>send_buffer := v, heap_brk := brk, mem := copy_bytes (sp_len s) (sp_base s) (vec_base v) m1\<rparr>"
  have st: "world_ok bufs (echo_inv X V now bufs target) {p} (contents (request_pool w)) w" "sq_inv w"
    using assms(1) by (simp_all add: callback_state_def)
  have w1: "world_ok bufs (echo_inv X V now bufs target) {p} (contents (request_pool ?w1)) ?w1"
    by (simp, rule echo_world_same [OF st(1)]) (simp_all add: echo_same_def)
  have more: "sq_inv ?w1" "sp_len (vec_span v) < 2 ^ 31"
      "(\<exists>k. map_find k (server_connections ?w1) = Some c) \<or> client_connection ?w1 = Some c"
    using st(2) assms(3) c len by (auto simp: sq_inv_def vec_span_def)
  obtain w' where w': "asyncWrite c (vec_span v) ?w1 = Inr (\<lparr>success = True, message = ''Success''\<rparr>, w')" "(program_step X V good_request)\<^sup>*\<^sup>* ?w1 w'"
      "world_ok bufs (echo_inv X V now bufs target) {p} (released a r (contents (request_pool w'))) w'"
    by (rule echo_writes [OF w1 more])
  have "server_read k s w = Inr w'" using v c w'(1) by (simp add: server_read_def)
  moreover have "(program_step X V good_request)\<^sup>*\<^sup>* w ?w1" by (rule program_steps_own [OF rtranclp.rtrancl_refl]) simp_all
  then have "(program_step X V good_request)\<^sup>*\<^sup>* w w'" using w'(2) by simp
  ultimately show thesis using w'(3) by (rule that)
qed

text \<open>The client's: it exits, fails its assertion on the size, or sends the next packet.\<close>

definition echo_exit :: "(64 word \<Rightarrow> int \<Rightarrow> string) \<Rightarrow> 64 word \<Rightarrow> stop \<Rightarrow> bool" where
  "echo_exit rate target e \<longleftrightarrow>
     (\<exists>out n ticks. e = ExitProcess 0 (out @ ''Exchanged '' @ show_nat (unat n) @ '' bytes in '' @ elapsed_text ticks @
        '' ('' @ rate n ticks @ '' MB/s)'' @ newline) \<and> target \<le> n)"

lemma echo_exit_noexcept: "echo_exit rate target s \<Longrightarrow> noexceptE (Inl s) = Inl s"
  by (auto simp: echo_exit_def noexceptE_def)

definition size_assertion :: stop where
  "size_assertion = AssertFailed ''event.bytes_read.size_bytes() == packet.size()''"

lemma client_report:
  assumes "min_bytes_count w \<le> client_received w"
  shows "echo_exit rate (min_bytes_count w) (ExitProcess 0 (cout (client_printResults now rate w)))"
proof (cases "now (env w)")
  case (Pair t x)
  with assms show ?thesis
    unfolding echo_exit_def
    by (intro exI [of _ "cout w"] exI [of _ "client_received w"] exI [of _ "t - start_time w"]) (simp add: client_printResults_def Let_def)
qed

lemma client_reads:
  assumes "callback_state bufs (echo_inv X V now bufs target) p a r f e w" "client_connection w \<noteq> None"
  shows "client_read now rate s w = Inl size_assertion \<or> (\<exists>e. client_read now rate s w = Inl e \<and> echo_exit rate target e) \<or>
    (\<exists>w'. client_read now rate s w = Inr w' \<and> (program_step X V good_request)\<^sup>*\<^sup>* w w' \<and>
       world_ok bufs (echo_inv X V now bufs target) {p} (released a r (contents (request_pool w'))) w')"
proof -
  obtain c where c: "client_connection w = Some c" using assms(2) by blast
  let ?w1 = "w\<lparr>client_received := client_received w + word_of_nat (sp_len s)\<rparr>"
  have st: "world_ok bufs (echo_inv X V now bufs target) {p} (contents (request_pool w)) w" "sq_inv w"
    using assms(1) by (simp_all add: callback_state_def)
  have w: "min_bytes_count w = target" "vec_len (packet w) = 1024" using world_okD(7) [OF st(1)] by (simp_all add: echo_inv_def)
  have w1: "world_ok bufs (echo_inv X V now bufs target) {p} (contents (request_pool ?w1)) ?w1"
    by (simp, rule echo_world_same [OF st(1)]) (simp_all add: echo_same_def)
  have more: "sq_inv ?w1" "sp_len (vec_span (packet ?w1)) < 2 ^ 31"
      "(\<exists>k. map_find k (server_connections ?w1) = Some c) \<or> client_connection ?w1 = Some c"
    using st(2) w(2) c by (auto simp: sq_inv_def vec_span_def)
  obtain w' where w': "asyncWrite c (vec_span (packet ?w1)) ?w1 = Inr (\<lparr>success = True, message = ''Success''\<rparr>, w')"
      "(program_step X V good_request)\<^sup>*\<^sup>* ?w1 w'"
      "world_ok bufs (echo_inv X V now bufs target) {p} (released a r (contents (request_pool w'))) w'"
    by (rule echo_writes [OF w1 more])
  have "(program_step X V good_request)\<^sup>*\<^sup>* w ?w1" by (rule program_steps_own [OF rtranclp.rtrancl_refl]) simp_all
  then have steps: "(program_step X V good_request)\<^sup>*\<^sup>* w w'" using w'(2) by simp
  have exits: "target \<le> client_received ?w1 \<Longrightarrow> echo_exit rate target (ExitProcess 0 (cout (client_printResults now rate ?w1)))"
    using client_report [of ?w1 rate now] w(1) by simp
  show ?thesis
  proof (cases "sp_len s = vec_len (packet w)")
    case True
    then show ?thesis
      using c w w' steps exits by (cases "client_received ?w1 < target") (auto simp: client_read_def Let_def)
  qed (simp add: client_read_def size_assertion_def)
qed

section \<open>New connections\<close>

text \<open>A request keeps its place while connections and subscribers are added.\<close>

lemma echo_request_grows:
  assumes "echo_request w r" "\<And>p. registered w p \<noteq> None \<Longrightarrow> registered w' p = registered w p"
    "server_acceptor w' = server_acceptor w" "client_connector w' = client_connector w"
    "\<And>k. map_find k (server_connections w) \<noteq> None \<Longrightarrow> map_find k (server_connections w') \<noteq> None"
    "client_connection w \<noteq> None \<Longrightarrow> client_connection w' \<noteq> None" "kind r = CONNECT \<Longrightarrow> client_connection w' = client_connection w"
  shows "echo_request w' r"
proof -
  let ?p = "user_data (header r)"
  have "registered w ?p \<noteq> None" using assms(1) by (auto simp: echo_request_def Let_def)
  then have "registered w' ?p = registered w ?p" by (rule assms(2))
  then show ?thesis using assms(1) unfolding echo_request_def Let_def by (metis assms(3-7))
qed

lemma registered_grows:
  assumes "contents (subscribers w') = (contents (subscribers w))(q \<mapsto> h)" "contents (subscribers w) q = None"
  shows "registered w' q = Some (handlers h)" "registered w p \<noteq> None \<Longrightarrow> registered w' p = registered w p"
  using assms by (auto simp: registered_def)

text \<open>One more client of the server, with its subscriber and its read.\<close>

lemma echo_inv_serves:
  assumes "echo_inv X V now bufs target w m" "map_find k (server_connections w) = None" "contents (subscribers w) q = None"
    "contents (subscribers w') = (contents (subscribers w))(q \<mapsto> h)"
    "echo_same (w\<lparr>server_connections := map_insert k c (server_connections w)\<rparr>) w'" "m' = m(b \<mapsto> r)"
    "handlers h = serving_handlers k" "conn_subscriber c = q" "kind r = READ_MULTISHOT" "user_data (header r) = q"
  shows "echo_inv X V now bufs target w' m'"
proof -
  note grows = registered_grows [OF assms(4,3)]
  have f: "server_acceptor w' = server_acceptor w" "client_connector w' = client_connector w" "client_connection w' = client_connection w"
      "server_connections w' = map_insert k c (server_connections w)" "acceptors w' = acceptors w" "connectors w' = connectors w"
      "should_continue w' = should_continue w" "min_bytes_count w' = min_bytes_count w" "vec_len (packet w') = vec_len (packet w)"
    using assms(5) by (simp_all add: echo_same_def)
  have find: "map_find j (server_connections w') = (if j = k then Some c else map_find j (server_connections w))" for j
    using map_find_insert [OF assms(2)] by (simp add: f(4))
  have map: "map_inv (server_connections w')" using reg.inv_insert [OF _ assms(2)] assms(1) by (simp add: echo_inv_def f(4))
  have old: "echo_request w' y" if "m x = Some y" for x y
    by (rule echo_request_grows [of w]) (use that assms(1) grows(2) in \<open>auto simp: echo_inv_def find f(1-3)\<close>)
  have new: "echo_request w' r" using grows(1) find [of k] assms(7,9,10) by (auto simp: echo_request_def Let_def)
  have req: "\<forall>x y. m' x = Some y \<longrightarrow> echo_request w' y" using old new by (simp add: assms(6))
  have uniq: "\<forall>x y u v. m' x = Some u \<longrightarrow> m' y = Some v \<longrightarrow> kind u = CONNECT \<longrightarrow> kind v = CONNECT \<longrightarrow> x = y"
    using assms(1,6,9) unfolding echo_inv_def by (auto split: if_splits)
  have conns: "\<forall>j d. map_find j (server_connections w') = Some d \<longrightarrow> registered w' (conn_subscriber d) = Some (serving_handlers j)"
    using assms(1,7,8) grows unfolding echo_inv_def find by (metis option.distinct(1) option.inject)
  have client: "\<forall>d. client_connection w' = Some d \<longrightarrow> registered w' (conn_subscriber d) = Some client_handlers"
    using assms(1) grows unfolding echo_inv_def f by (metis option.distinct(1))
  show ?thesis
    using assms(1) map req uniq conns client unfolding echo_inv_def f(1-3,5-9) get_acceptor_def get_connector_def by blast
qed

text \<open>The client's connection takes the place of its connect request.\<close>

lemma echo_inv_connects:
  assumes "echo_inv X V now bufs target w m" "m a = Some r" "kind r = CONNECT" "client_connection w = None" "contents (subscribers w) q = None"
    "contents (subscribers w') = (contents (subscribers w))(q \<mapsto> h)"
    "echo_same (w\<lparr>client_connection := Some c, connectors := kq\<rparr>) w'" "pool_inv kq" "get_connector (client_connector w) w' = Inr k'"
    "\<And>x y. m' x = Some y \<Longrightarrow> m x = Some y \<and> x \<noteq> a \<or> kind y \<in> {READ_MULTISHOT, WRITE} \<and> user_data (header y) = q"
    "handlers h = client_handlers" "conn_subscriber c = q"
  shows "echo_inv X V now bufs target w' m'"
proof -
  note grows = registered_grows [OF assms(6,5)]
  have f: "server_acceptor w' = server_acceptor w" "client_connector w' = client_connector w" "client_connection w' = Some c"
      "server_connections w' = server_connections w" "acceptors w' = acceptors w" "connectors w' = kq"
      "should_continue w' = should_continue w" "min_bytes_count w' = min_bytes_count w" "vec_len (packet w') = vec_len (packet w)"
    using assms(7) by (simp_all add: echo_same_def)
  have one: "kind y \<noteq> CONNECT" if "m x = Some y" "x \<noteq> a" for x y
    using assms(1-3) that unfolding echo_inv_def by blast
  have old: "echo_request w' y" if "m x = Some y" "x \<noteq> a" for x y
    by (rule echo_request_grows [of w]) (use that assms(1) one [OF that] grows(2) in \<open>auto simp: echo_inv_def f(1-4)\<close>)
  have new: "echo_request w' y" if "kind y \<in> {READ_MULTISHOT, WRITE}" "user_data (header y) = q" for y
    using that grows(1) assms(11) by (simp add: echo_request_def Let_def f)
  have req: "\<forall>x y. m' x = Some y \<longrightarrow> echo_request w' y" using old new assms(10) by blast
  have uniq: "\<forall>x y u v. m' x = Some u \<longrightarrow> m' y = Some v \<longrightarrow> kind u = CONNECT \<longrightarrow> kind v = CONNECT \<longrightarrow> x = y"
  proof (intro allI impI)
    fix x y u v assume "m' x = Some u" "kind u = CONNECT"
    then show "x = y" using assms(10) [of x u] one [of x u] by auto
  qed
  have conns: "\<forall>j d. map_find j (server_connections w') = Some d \<longrightarrow> registered w' (conn_subscriber d) = Some (serving_handlers j)"
    using assms(1) grows unfolding echo_inv_def f by (metis option.distinct(1))
  have client: "\<forall>d. client_connection w' = Some d \<longrightarrow> registered w' (conn_subscriber d) = Some client_handlers"
    using grows(1) assms(11,12) by (simp add: f(3))
  have conn: "\<exists>k. get_connector (client_connector w') w' = Inr k" using assms(9) by (simp add: f(2))
  show ?thesis
    using assms(1,8) req uniq conns client conn unfolding echo_inv_def f(1-9) get_acceptor_def by blast
qed

lemma server_takes_client:
  assumes "sq_inv w" "pool_inv (subscribers w)" "contents (subscribers w) (conn_subscriber c) = Some new_EventHandler"
    "map_find (conn_endpoint c) (server_connections w) = None"
  obtains t a rp pool w' where "server_new_connection c w = Inr (snd (move_Connection c), w')"
    "w' = w\<lparr>cout := t, server_connections := map_insert (conn_endpoint c) c (server_connections w), subscribers := pool, request_pool := rp,
       pending_requests := pending_push READ_MULTISHOT a (pending_requests w)\<rparr>"
    "pool_inv pool" "contents pool = (contents (subscribers w))(conn_subscriber c \<mapsto> \<lparr>handlers = serving_handlers (conn_endpoint c), mutex_held = False\<rparr>)"
    "contents rp = (contents (request_pool w))(a \<mapsto> added_request (read_request_of c) (conn_subscriber c))"
    "(program_step X V good_request)\<^sup>*\<^sup>* w w'"
proof -
  let ?k = "conn_endpoint c"
  let ?m = "map_insert ?k c (server_connections w)"
  let ?text = "''Server: Received client connection request (endpoint '' @ show_int (endpoint_fd ?k) @ '').''"
  obtain t where t: "log_cout ?text w = w\<lparr>cout := t\<rparr>" unfolding log_cout_def by blast
  let ?w2 = "w\<lparr>cout := t, server_connections := ?m\<rparr>"
  have start: "sq_inv ?w2" "pool_inv (subscribers ?w2)" "contents (subscribers ?w2) (conn_subscriber c) = Some new_EventHandler"
    using assms(1-3) by (simp_all add: sq_inv_def)
  obtain a rp pool where w': "watch_connection c Server_connection_error (Server_read ?k) ?w2 = Inr (\<lparr>success = True, message = ''Success''\<rparr>,
        ?w2\<lparr>subscribers := pool, request_pool := rp, pending_requests := pending_push READ_MULTISHOT a (pending_requests ?w2)\<rparr>)"
      "pool_inv pool" "contents pool = (contents (subscribers ?w2))(conn_subscriber c \<mapsto>
         \<lparr>handlers = (\<lambda>_. None)(ErrorEventT \<mapsto> UserEvent Server_connection_error, ReadEventT \<mapsto> UserEvent (Server_read ?k)), mutex_held = False\<rparr>)"
      "contents rp = (contents (request_pool ?w2))(a \<mapsto> added_request (read_request_of c) (conn_subscriber c))"
      "(program_step X V good_request)\<^sup>*\<^sup>* ?w2
         (?w2\<lparr>subscribers := pool, request_pool := rp, pending_requests := pending_push READ_MULTISHOT a (pending_requests ?w2)\<rparr>)"
    by (rule watch_connection_adds [OF start])
  let ?w' = "w\<lparr>cout := t, server_connections := ?m, subscribers := pool, request_pool := rp,
      pending_requests := pending_push READ_MULTISHOT a (pending_requests w)\<rparr>"
  have found: "map_find ?k ?m = Some c" using map_find_insert [OF assms(4)] by simp
  obtain w3 w4 where "conn_onError c Server_connection_error ?w2 = Inr w3" "conn_onRead c (Server_read ?k) w3 = Inr w4"
      "asyncRead c w4 = Inr (\<lparr>success = True, message = ''Success''\<rparr>, ?w')"
    using w'(1) by (auto simp: watch_connection_def res_simps simp del: append.simps pending_push.simps)
  then have "server_new_connection c w = Inr (snd (move_Connection c), ?w')"
    using assms(4) map_try_emplace_new [OF assms(4), of c] found t
    by (simp add: server_new_connection_def conn_endpoint_of_def Let_def)
  moreover have "(program_step X V good_request)\<^sup>*\<^sup>* w ?w2" by (rule program_steps_own [OF rtranclp.rtrancl_refl]) simp_all
  then have "(program_step X V good_request)\<^sup>*\<^sup>* w ?w'" using w'(5) by simp
  ultimately show thesis using w'(2-4) by (intro that [of ?w' a rp pool t]) (simp_all add: serving_handlers_def)
qed

text \<open>A connection request on a descriptor that is not registered.\<close>

lemma server_accepts:
  assumes "callback_state bufs (echo_inv X V now bufs target) p a r f e w" "kind r = ACCEPT" "map_find (Endpoint fd) (server_connections w) = None"
  obtains w' where "accept_then X (echo_on_connection now) (server_acceptor w) Server_new_connection fd w = Inr w'"
    "(program_step X V good_request)\<^sup>*\<^sup>* w w'" "world_ok bufs (echo_inv X V now bufs target) {p} (released a r (contents (request_pool w'))) w'"
proof -
  let ?m = "contents (request_pool w)" and ?th = "server_acceptor w" and ?I = "echo_inv X V now bufs target"
  have st: "world_ok bufs ?I {p} ?m w" "sq_inv w" using assms(1) by (simp_all add: callback_state_def)
  have inv: "?I w ?m" by (rule world_okD(7) [OF st(1)])
  then obtain acc where acc: "get_acceptor ?th w = Inr acc" by (auto simp: echo_inv_def)
  obtain q s1 where q: "new_Connection (FileDescriptor_of fd) w =
        Inr (\<lparr>conn_socket = FileDescriptor_of fd, conn_endpoint = Endpoint fd, conn_subscriber = q\<rparr>, no_FileDescriptor, w\<lparr>subscribers := s1\<rparr>)"
      "pool_inv s1" "block_size (subscribers w) q = None" "contents s1 = (contents (subscribers w))(q \<mapsto> new_EventHandler)"
    by (rule new_Connection_spec [OF world_okD(1) [OF st(1)]])
  have fresh: "contents (subscribers w) q = None" using q(3) pool.value_sized by fastforce
  let ?c = "\<lparr>conn_socket = FileDescriptor_of fd, conn_endpoint = Endpoint fd, conn_subscriber = q\<rparr>" and ?w1 = "w\<lparr>subscribers := s1\<rparr>"
  have w1: "sq_inv ?w1" "pool_inv (subscribers ?w1)" "contents (subscribers ?w1) (conn_subscriber ?c) = Some new_EventHandler"
      "map_find (conn_endpoint ?c) (server_connections ?w1) = None"
    using st(2) q(2,4) assms(3) by (simp_all add: sq_inv_def)
  obtain t b rp s2 w' where w': "server_new_connection ?c ?w1 = Inr (snd (move_Connection ?c), w')"
    and eq: "w' = ?w1\<lparr>cout := t, server_connections := map_insert (conn_endpoint ?c) ?c (server_connections ?w1), subscribers := s2, request_pool := rp,
       pending_requests := pending_push READ_MULTISHOT b (pending_requests ?w1)\<rparr>"
    and subs: "pool_inv s2" "contents s2 = (contents (subscribers ?w1))(conn_subscriber ?c \<mapsto> \<lparr>handlers = serving_handlers (conn_endpoint ?c), mutex_held = False\<rparr>)"
    and reqs: "contents rp = (contents (request_pool ?w1))(b \<mapsto> added_request (read_request_of ?c) (conn_subscriber ?c))"
    and steps: "(program_step X V good_request)\<^sup>*\<^sup>* ?w1 w'"
    by (rule server_takes_client [OF w1])
  have run: "accept_then X (echo_on_connection now) ?th Server_new_connection fd w = Inr w'"
    using acc q(1) w' by (simp add: accept_then_def delete_moved_Connection)
  have "(program_step X V good_request)\<^sup>*\<^sup>* w ?w1" by (rule program_steps_own [OF rtranclp.rtrancl_refl]) simp_all
  then have all: "(program_step X V good_request)\<^sup>*\<^sup>* w w'" using steps by simp
  have s2: "contents (subscribers w') = (contents (subscribers w))(q \<mapsto> \<lparr>handlers = serving_handlers (Endpoint fd), mutex_held = False\<rparr>)"
    using subs(2) q(4) by (simp add: eq)
  have req: "contents rp = ?m(b \<mapsto> added_request (read_request_of ?c) q)" using reqs by simp
  have same: "echo_same (w\<lparr>server_connections := map_insert (Endpoint fd) ?c (server_connections w)\<rparr>) w'" by (simp add: eq echo_same_def)
  have "?I w' (contents rp)"
    by (rule echo_inv_serves [OF inv assms(3) fresh s2 same req]) (simp_all add: read_request_good)
  then have "world_ok bufs ?I {p} (contents rp) w'"
    using subs(1) s2 reqs
    by (intro world_ok_new_subscriber [OF st(1) fresh, where h = "\<lparr>handlers = serving_handlers (Endpoint fd), mutex_held = False\<rparr>"])
       (auto simp: eq read_request_good simp del: pending_push.simps split: if_splits)
  then have "world_ok bufs ?I {p} (released a r (contents (request_pool w'))) w'"
    using assms(2) by (simp add: released_def single_shot_def eq)
  with run all show thesis by (rule that)
qed

text \<open>
  The client's connection arrives: its callbacks and its read are registered, the clock is read and the first packet
  is written.
\<close>

lemma client_starts:
  assumes "sq_inv w" "pool_inv (subscribers w)" "contents (subscribers w) (conn_subscriber c) = Some new_EventHandler"
    "vec_len (packet w) = 1024" "client_connection w = Some c" "clock_keeps X V now"
  obtains pool x t rp pq a b where
    "client_onConnected now w = Inr (w\<lparr>subscribers := pool, env := x, start_time := t, request_pool := rp, pending_requests := pq\<rparr>)"
    "pool_inv pool" "contents pool = (contents (subscribers w))(conn_subscriber c \<mapsto> \<lparr>handlers = client_handlers, mutex_held = False\<rparr>)"
    "contents rp = (contents (request_pool w))(a \<mapsto> added_request (read_request_of c) (conn_subscriber c),
       b \<mapsto> added_request (write_request_of c (vec_span (packet w))) (conn_subscriber c))"
    "contents (request_pool w) a = None" "contents (request_pool w) b = None"
    "(program_step X V good_request)\<^sup>*\<^sup>* w (w\<lparr>subscribers := pool, env := x, start_time := t, request_pool := rp, pending_requests := pq\<rparr>)"
proof -
  let ?p = "conn_subscriber c"
  have nn: "?p \<noteq> nullptr" using pool_inv_live_nonnull [OF assms(2)] contents_live [OF assms(3)] by blast
  obtain a rp0 pool where r: "watch_connection c Client_connection_error Client_read w = Inr (\<lparr>success = True, message = ''Success''\<rparr>,
        w\<lparr>subscribers := pool, request_pool := rp0, pending_requests := pending_push READ_MULTISHOT a (pending_requests w)\<rparr>)"
      "pool_inv pool" "contents pool = (contents (subscribers w))(?p \<mapsto>
         \<lparr>handlers = (\<lambda>_. None)(ErrorEventT \<mapsto> UserEvent Client_connection_error, ReadEventT \<mapsto> UserEvent Client_read), mutex_held = False\<rparr>)"
      "contents rp0 = (contents (request_pool w))(a \<mapsto> added_request (read_request_of c) ?p)" "contents (request_pool w) a = None"
      "(program_step X V good_request)\<^sup>*\<^sup>* w
         (w\<lparr>subscribers := pool, request_pool := rp0, pending_requests := pending_push READ_MULTISHOT a (pending_requests w)\<rparr>)"
    by (rule watch_connection_adds [OF assms(1-3)])
  let ?w1 = "w\<lparr>subscribers := pool, request_pool := rp0, pending_requests := pending_push READ_MULTISHOT a (pending_requests w)\<rparr>"
  obtain t x where clock: "now (env w) = (t, x)" by (cases "now (env w)")
  let ?w2 = "?w1\<lparr>env := x, start_time := t\<rparr>"
  have steps: "(program_step X V good_request)\<^sup>*\<^sup>* w ?w2"
    using assms(6) clock by (intro program_steps_own [OF r(6)]) (simp_all add: clock_keeps_def)
  have w2: "sq_inv ?w2" using program_steps_keep [OF steps assms(1)] by blast
  have len: "sp_len (vec_span (packet w)) < 2 ^ 31" using assms(4) by (simp add: vec_span_def)
  obtain b rp where add: "asyncWrite c (vec_span (packet w)) ?w2 = Inr (\<lparr>success = True, message = ''Success''\<rparr>,
        ?w2\<lparr>request_pool := rp, pending_requests := pending_push WRITE b (pending_requests ?w2)\<rparr>)"
      "contents rp = (contents (request_pool ?w2))(b \<mapsto> added_request (write_request_of c (vec_span (packet w))) ?p)"
      "contents (request_pool ?w2) b = None"
      "program_step X V good_request ?w2 (?w2\<lparr>request_pool := rp, pending_requests := pending_push WRITE b (pending_requests ?w2)\<rparr>)"
    by (rule asyncWrite_adds [OF w2 nn len])
  let ?pq = "pending_push WRITE b (pending_push READ_MULTISHOT a (pending_requests w))"
  let ?w3 = "w\<lparr>subscribers := pool, env := x, start_time := t, request_pool := rp, pending_requests := ?pq\<rparr>"
  obtain v1 v2 where "conn_onError c Client_connection_error w = Inr v1" "conn_onRead c Client_read v1 = Inr v2"
      "asyncRead c v2 = Inr (\<lparr>success = True, message = ''Success''\<rparr>, ?w1)"
    using r(1) by (auto simp: watch_connection_def res_simps simp del: append.simps pending_push.simps)
  then have run: "client_onConnected now w = Inr ?w3"
    using assms(5) clock add(1) by (simp add: client_onConnected_def del: pending_push.simps)
  have all: "(program_step X V good_request)\<^sup>*\<^sup>* w ?w3"
    using rtranclp.rtrancl_into_rtrancl [OF steps add(4)] by (simp del: pending_push.simps)
  have "contents (request_pool w) b = None" using add(3) r(4) by (auto split: if_splits)
  with run all r add show thesis by (intro that [of ?pq rp t x pool a b]) (simp_all add: client_handlers_def)
qed

lemma client_connected_first:
  assumes "client_connection w = None"
  shows "\<exists>t. client_connected now c w =
    bindE (client_onConnected now (w\<lparr>cout := t, client_connection := Some c\<rparr>)) (\<lambda>w3. Inr (snd (move_Connection c), w3))"
proof -
  let ?t = "cout w @ (''Client: Connected to '' @ show_int (endpoint_fd (conn_endpoint_of c))) @ newline"
  have "client_connected now c w =
    bindE (client_onConnected now (w\<lparr>cout := ?t, client_connection := Some c\<rparr>)) (\<lambda>w3. Inr (snd (move_Connection c), w3))"
    using assms move_Connection_own [of c]
    by (cases "move_Connection c") (simp add: client_connected_def log_cout_def Let_def del: append.simps)
  then show ?thesis ..
qed

lemma client_connects:
  assumes "callback_state bufs (echo_inv X V now bufs target) p a r f e w" "client_connection w = None" "kind r = CONNECT"
  obtains w' where "connect_then X (echo_on_connection now) (client_connector w) Client_connected w = Inr w'"
    "(program_step X V good_request)\<^sup>*\<^sup>* w w'" "world_ok bufs (echo_inv X V now bufs target) {p} (released a r (contents (request_pool w'))) w'"
proof -
  let ?m = "contents (request_pool w)" and ?th = "client_connector w" and ?I = "echo_inv X V now bufs target"
  have st: "world_ok bufs ?I {p} ?m w" "sq_inv w" "?m a = Some r" using assms(1) by (simp_all add: callback_state_def)
  have inv: "?I w ?m" by (rule world_okD(7) [OF st(1)])
  then obtain k where k: "get_connector ?th w = Inr k" "pool_inv (connectors w)" "vec_len (packet w) = 1024" "clock_keeps X V now"
    unfolding echo_inv_def by blast
  obtain s1 c kp where c: "pool_inv s1" "contents (subscribers w) (conn_subscriber c) = None"
      "contents s1 = (contents (subscribers w))(conn_subscriber c \<mapsto> new_EventHandler)"
    and hands: "\<forall>w3. echo_on_connection now Client_connected c (w\<lparr>subscribers := s1, connectors := kp\<rparr>) = Inr (snd (move_Connection c), w3) \<longrightarrow>
       connectors w3 = kp \<longrightarrow> (\<exists>kq k'. connect_then X (echo_on_connection now) ?th Client_connected w = Inr (w3\<lparr>connectors := kq\<rparr>) \<and>
         pool_inv kq \<and> get_connector ?th (w3\<lparr>connectors := kq\<rparr>) = Inr k')"
    by (rule connect_then_hands_over [OF world_okD(1) [OF st(1)] k(2,1)])
  let ?w2 = "w\<lparr>subscribers := s1, connectors := kp\<rparr>"
  have "client_connection ?w2 = None" using assms(2) by simp
  then obtain t where t: "client_connected now c ?w2 =
      bindE (client_onConnected now (?w2\<lparr>cout := t, client_connection := Some c\<rparr>)) (\<lambda>w3. Inr (snd (move_Connection c), w3))"
    using client_connected_first by blast
  let ?w3 = "?w2\<lparr>cout := t, client_connection := Some c\<rparr>"
  have w3: "sq_inv ?w3" "pool_inv (subscribers ?w3)" "contents (subscribers ?w3) (conn_subscriber c) = Some new_EventHandler"
      "vec_len (packet ?w3) = 1024" "client_connection ?w3 = Some c" "clock_keeps X V now"
    using st(2) k(3,4) c by (simp_all add: sq_inv_def)
  obtain pool x u rp pq d b where up: "client_onConnected now ?w3 =
        Inr (?w3\<lparr>subscribers := pool, env := x, start_time := u, request_pool := rp, pending_requests := pq\<rparr>)" "pool_inv pool"
      "contents pool = (contents (subscribers ?w3))(conn_subscriber c \<mapsto> \<lparr>handlers = client_handlers, mutex_held = False\<rparr>)"
      "contents rp = (contents (request_pool ?w3))(d \<mapsto> added_request (read_request_of c) (conn_subscriber c),
         b \<mapsto> added_request (write_request_of c (vec_span (packet ?w3))) (conn_subscriber c))"
      "(program_step X V good_request)\<^sup>*\<^sup>* ?w3 (?w3\<lparr>subscribers := pool, env := x, start_time := u, request_pool := rp, pending_requests := pq\<rparr>)"
    by (rule client_starts [OF w3])
  let ?w4 = "?w3\<lparr>subscribers := pool, env := x, start_time := u, request_pool := rp, pending_requests := pq\<rparr>"
  have "echo_on_connection now Client_connected c ?w2 = Inr (snd (move_Connection c), ?w4)" using t up(1) by simp
  then obtain kq k' where kq: "connect_then X (echo_on_connection now) ?th Client_connected w = Inr (?w4\<lparr>connectors := kq\<rparr>)" "pool_inv kq"
      "get_connector ?th (?w4\<lparr>connectors := kq\<rparr>) = Inr k'"
    using hands by fastforce
  let ?w5 = "?w4\<lparr>connectors := kq\<rparr>" and ?M = "released a r (contents rp)" and ?h = "\<lparr>handlers = client_handlers, mutex_held = False\<rparr>"
  have first: "(program_step X V good_request)\<^sup>*\<^sup>* w ?w3" by (rule program_steps_own [OF rtranclp.rtrancl_refl]) simp_all
  have steps: "(program_step X V good_request)\<^sup>*\<^sup>* w ?w5" by (rule program_steps_own [OF rtranclp_trans [OF first up(5)]]) simp_all
  have M: "?m x = Some y \<and> x \<noteq> a \<or> kind y \<in> {READ_MULTISHOT, WRITE} \<and> user_data (header y) = conn_subscriber c" if "?M x = Some y" for x y
    using that up(4) assms(3) by (auto simp: released_def single_shot_def read_request_good write_request_good split: if_splits)
  have s2: "contents (subscribers ?w5) = (contents (subscribers w))(conn_subscriber c \<mapsto> ?h)" using up(3) c(3) by simp
  have same: "echo_same (w\<lparr>client_connection := Some c, connectors := kq\<rparr>) ?w5" by (simp add: echo_same_def)
  have "?I ?w5 ?M"
    by (rule echo_inv_connects [OF inv st(3) assms(3,2) c(2) s2 same kq(2,3)]) (use M in simp_all)
  then have "world_ok bufs ?I {p} ?M ?w5"
    using up(2) M by (intro world_ok_new_subscriber [OF st(1) c(2) s2]) fastforce+
  with kq(1) steps show thesis by (intro that [of ?w5]) simp_all
qed

section \<open>All callbacks\<close>

text \<open>Every callback of the pair, in every state the loop can run it in.\<close>

definition echo_stop :: "(64 word \<Rightarrow> int \<Rightarrow> string) \<Rightarrow> 64 word \<Rightarrow> stop \<Rightarrow> bool" where
  "echo_stop rate target s \<longleftrightarrow> s = Terminate \<or> s = size_assertion \<or> echo_exit rate target s"

definition echo_goes_on ::
    "'x sys \<Rightarrow> 'x ring_view \<Rightarrow> ('x \<Rightarrow> int \<times> 'x) \<Rightarrow> span list \<Rightarrow> 64 word \<Rightarrow> ptr \<Rightarrow> ptr \<Rightarrow> request \<Rightarrow> 'x echo_state \<Rightarrow> 'x echo_state \<Rightarrow> bool" where
  "echo_goes_on X V now bufs target p a r w w' \<longleftrightarrow> (program_step X V good_request)\<^sup>*\<^sup>* w w' \<and>
     world_ok bufs (echo_inv X V now bufs target) {p} (released a r (contents (request_pool w'))) w'"

lemma echo_acceptor_callback:
  assumes "callback_state bufs (echo_inv X V now bufs target) p a r f e w" "kind r = ACCEPT"
    "registered w p = Some (serving_acceptor (server_acceptor w))"
  shows "echo_mishap f e w \<or> (\<exists>w'. echo_cb X now rate f e w = Inr w' \<and> echo_goes_on X V now bufs target p a r w w')"
proof -
  have st: "world_ok bufs (echo_inv X V now bufs target) {p} (contents (request_pool w)) w" "may_see bufs r e"
      "serving_acceptor (server_acceptor w) (type_of e) = Some f"
    using assms(1,3) by (auto simp: callback_state_def)
  from st(2) consider n where "e = ErrorEvent n" | fd where "e = AcceptEvent fd" using assms(2) by (cases r) (auto simp: may_see_def)
  then show ?thesis
  proof cases
    case 1
    let ?w' = "log_cerr (''Error: '' @ sys_strerror X n) w"
    have "f = UserEvent Server_acceptor_error" using st(3) 1 by (simp add: serving_acceptor_def)
    then have "echo_cb X now rate f e w = Inr ?w'" using 1 by simp
    moreover have "world_ok bufs (echo_inv X V now bufs target) {p} (contents (request_pool w)) ?w'"
      by (rule echo_world_same [OF st(1)]) (simp_all add: log_cerr_def echo_same_def)
    then have "world_ok bufs (echo_inv X V now bufs target) {p} (released a r (contents (request_pool ?w'))) ?w'"
      using assms(2) by (simp add: released_def single_shot_def log_cerr_def)
    moreover have "(program_step X V good_request)\<^sup>*\<^sup>* w ?w'"
      by (rule program_steps_own [OF rtranclp.rtrancl_refl]) (simp_all add: log_cerr_def)
    ultimately show ?thesis by (auto simp: echo_goes_on_def)
  next
    case 2
    then have f: "f = AcceptThen (server_acceptor w) Server_new_connection" using st(3) by (simp add: serving_acceptor_def)
    show ?thesis
    proof (cases "map_find (Endpoint fd) (server_connections w)")
      case None
      show ?thesis by (rule server_accepts [OF assms(1,2) None]) (simp add: 2 f echo_goes_on_def)
    qed (simp add: 2 f)
  qed
qed

lemma echo_connector_callback:
  assumes "callback_state bufs (echo_inv X V now bufs target) p a r f e w" "kind r = CONNECT" "client_connection w = None"
    "registered w p = Some (client_connector_handlers (client_connector w))"
  shows "echo_cb X now rate f e w = Inl Terminate \<or> (\<exists>w'. echo_cb X now rate f e w = Inr w' \<and> echo_goes_on X V now bufs target p a r w w')"
proof -
  have st: "may_see bufs r e" "client_connector_handlers (client_connector w) (type_of e) = Some f"
    using assms(1,4) by (auto simp: callback_state_def)
  from st(1) consider n where "e = ErrorEvent n" | "e = ConnectEvent" using assms(2) by (cases r) (auto simp: may_see_def)
  then show ?thesis
  proof cases
    case 1
    then have "f = UserEvent Client_error" using st(2) by (simp add: client_connector_handlers_def)
    with 1 show ?thesis by (simp add: Let_def)
  next
    case 2
    then have f: "f = ConnectThen (client_connector w) Client_connected" using st(2) by (simp add: client_connector_handlers_def)
    show ?thesis by (rule client_connects [OF assms(1,3,2)]) (simp add: 2 f echo_goes_on_def)
  qed
qed

text \<open>The events of a connection, and how many bytes a read may hold.\<close>

lemma connection_event:
  assumes "may_see bufs r e" "kind r \<in> {READ_MULTISHOT, WRITE}" "\<forall>s \<in> set bufs. sp_len s < 2 ^ 31"
  obtains (error) n where "e = ErrorEvent n" | (read) n b where "e = ReadEvent n b" "sp_len b < 2 ^ 31" | (written) n b where "e = WriteEvent n b"
proof (cases r)
  case (MultiShotReadR q)
  then consider n where "e = ErrorEvent n"
    | c where "0 \<le> cqe_res c" "result_fits c bufs r" "e = ReadEvent (multishot_fd q) ((bufs ! cqe_buffer_id c)\<lparr>sp_len := nat (cqe_res c)\<rparr>)"
    using assms(1) by (auto simp: may_see_def)
  then show ?thesis
  proof cases
    case (2 c)
    then have "bufs ! cqe_buffer_id c \<in> set bufs" "nat (cqe_res c) \<le> sp_len (bufs ! cqe_buffer_id c)"
      using MultiShotReadR by auto
    then have "nat (cqe_res c) < 2 ^ 31" using assms(3) by (meson le_less_trans)
    then show ?thesis using 2(3) read by simp
  qed (rule error)
qed (use assms(1,2) error written in \<open>auto simp: may_see_def\<close>)

lemma echo_server_callback:
  assumes "callback_state bufs (echo_inv X V now bufs target) p a r f e w" "kind r \<in> {READ_MULTISHOT, WRITE}"
    "map_find k (server_connections w) \<noteq> None" "registered w p = Some (serving_handlers k)"
  shows "echo_cb X now rate f e w = Inl Terminate \<or> (\<exists>w'. echo_cb X now rate f e w = Inr w' \<and> echo_goes_on X V now bufs target p a r w w')"
proof -
  have st: "echo_inv X V now bufs target w (contents (request_pool w))" "may_see bufs r e" "serving_handlers k (type_of e) = Some f"
    using assms(1,4) world_okD(7) by (auto simp: callback_state_def)
  then have small: "\<forall>s \<in> set bufs. sp_len s < 2 ^ 31" unfolding echo_inv_def by blast
  show ?thesis
    using st(2) assms(2) small
  proof (cases rule: connection_event)
    case (error n)
    then have "f = UserEvent Server_connection_error" using st(3) by (simp add: serving_handlers_def)
    with error show ?thesis by (simp add: Let_def)
  next
    case (read n b)
    then have f: "f = UserEvent (Server_read k)" using st(3) by (simp add: serving_handlers_def)
    show ?thesis by (rule server_reads [OF assms(1,3) read(2)]) (simp add: read f echo_goes_on_def)
  next
    case (written n b)
    then show ?thesis using st(3) by (simp add: serving_handlers_def)
  qed
qed

lemma echo_client_callback:
  assumes "callback_state bufs (echo_inv X V now bufs target) p a r f e w" "kind r \<in> {READ_MULTISHOT, WRITE}"
    "client_connection w \<noteq> None" "registered w p = Some client_handlers"
  shows "(\<exists>s. echo_cb X now rate f e w = Inl s \<and> echo_stop rate target s) \<or>
    (\<exists>w'. echo_cb X now rate f e w = Inr w' \<and> echo_goes_on X V now bufs target p a r w w')"
proof -
  have st: "echo_inv X V now bufs target w (contents (request_pool w))" "may_see bufs r e" "client_handlers (type_of e) = Some f"
    using assms(1,4) world_okD(7) by (auto simp: callback_state_def)
  then have small: "\<forall>s \<in> set bufs. sp_len s < 2 ^ 31" unfolding echo_inv_def by blast
  show ?thesis
    using st(2) assms(2) small
  proof (cases rule: connection_event)
    case (error n)
    then have "f = UserEvent Client_connection_error" using st(3) by (simp add: client_handlers_def)
    with error show ?thesis by (simp add: Let_def echo_stop_def)
  next
    case (read n b)
    then have f: "f = UserEvent Client_read" using st(3) by (simp add: client_handlers_def)
    have "echo_cb X now rate f e w = client_read now rate b w" by (simp add: read f)
    with client_reads [OF assms(1,3), of rate b] show ?thesis unfolding echo_stop_def echo_goes_on_def by metis
  next
    case (written n b)
    then show ?thesis using st(3) by (simp add: client_handlers_def)
  qed
qed

lemma echo_callback:
  assumes "callback_state bufs (echo_inv X V now bufs target) p a r f e w"
  shows "echo_mishap f e w \<or> (\<exists>s. echo_cb X now rate f e w = Inl s \<and> echo_stop rate target s) \<or>
    (\<exists>w'. echo_cb X now rate f e w = Inr w' \<and> echo_goes_on X V now bufs target p a r w w')"
proof -
  have st: "echo_inv X V now bufs target w (contents (request_pool w))" "contents (request_pool w) a = Some r" "user_data (header r) = p"
    using assms world_okD(7) by (auto simp: callback_state_def)
  then have "echo_request w r" unfolding echo_inv_def by blast
  then consider "kind r = ACCEPT" "registered w p = Some (serving_acceptor (server_acceptor w))"
    | "kind r = CONNECT" "client_connection w = None" "registered w p = Some (client_connector_handlers (client_connector w))"
    | k where "kind r \<in> {READ_MULTISHOT, WRITE}" "map_find k (server_connections w) \<noteq> None" "registered w p = Some (serving_handlers k)"
    | "kind r \<in> {READ_MULTISHOT, WRITE}" "client_connection w \<noteq> None" "registered w p = Some client_handlers"
    unfolding echo_request_def Let_def st(3) by (elim disjE conjE exE)
  then show ?thesis
  proof cases
    case 1
    from echo_acceptor_callback [OF assms 1, of rate] show ?thesis by blast
  next
    case 2
    from echo_connector_callback [OF assms 2, of rate] show ?thesis unfolding echo_stop_def by blast
  next
    case 3
    from echo_server_callback [OF assms 3, of rate] show ?thesis unfolding echo_stop_def by blast
  next
    case 4
    from echo_client_callback [OF assms 4, of rate] show ?thesis by blast
  qed
qed

lemma echo_well_behaved: "well_behaved X V bufs (echo_inv X V now bufs target) (guarded_echo X now rate)"
  unfolding well_behaved_def break_at_def
  by (intro allI impI) (drule echo_callback [where rate = rate], auto simp: echo_goes_on_def split: if_splits)

lemma echo_stop_noexcept: "echo_stop rate target s \<Longrightarrow> noexceptE (Inl s) = Inl s"
  by (auto simp: echo_stop_def size_assertion_def echo_exit_noexcept) (simp_all add: noexceptE_def)

lemma echo_stops:
  assumes "callback_stops bufs (echo_inv X V now bufs target) (guarded_echo X now rate) s"
  shows "s = breakpoint \<or> echo_stop rate target s"
proof -
  obtain p a r f e w where c: "callback_state bufs (echo_inv X V now bufs target) p a r f e w" "noexceptE (guarded_echo X now rate f e w) = Inl s"
    using assms unfolding callback_stops_def by blast
  show ?thesis
  proof (cases "echo_mishap f e w")
    case True
    then show ?thesis using c(2) by (simp add: break_at_def noexceptE_def breakpoint_def)
  next
    case False
    with echo_callback [OF c(1), of rate] consider s' where "echo_cb X now rate f e w = Inl s'" "echo_stop rate target s'"
      | w' where "echo_cb X now rate f e w = Inr w'" by blast
    then show ?thesis
    proof cases
      case 1
      then show ?thesis using c(2) False by (simp add: break_at_def echo_stop_noexcept)
    next
      case 2
      then show ?thesis using c(2) False by (simp add: break_at_def noexceptE_def)
    qed
  qed
qed

interpretation echo: loop_program X V bufs "echo_inv X V now bufs target" "guarded_echo X now rate" for X V bufs now target rate
  by unfold_locales (rule echo_program_invariant, rule echo_well_behaved)

lemma echo_run_result:
  assumes "loop_ok X V bufs (echo_inv X V now bufs target) w"
  shows "meets X echo_mishap (echo_cb X now rate) w \<or> run X (echo_cb X now rate) w = None \<or>
    (\<exists>s. run X (echo_cb X now rate) w = Some (Inl s) \<and> echo_stop rate target s)"
proof (cases rule: run_upto [of X echo_mishap "echo_cb X now rate" w])
  case same
  have "\<exists>s. res = Inl s \<and> (s = breakpoint \<or> echo_stop rate target s)" if r: "run X (guarded_echo X now rate) w = Some res" for res
  proof -
    obtain n where n: "turns X (guarded_echo X now rate) n w = Some res" using run_turns [OF r] by blast
    have "should_continue v" if "loop_ok X V bufs (echo_inv X V now bufs target) v" for v
      using that world_okD(7) [of bufs "echo_inv X V now bufs target" "{}" _ v] by (auto simp: loop_ok_def echo_inv_def)
    then show ?thesis using echo.turns_ok [OF n assms] by (cases res) (auto dest!: echo_stops)
  qed
  then show ?thesis using same by (cases "run X (echo_cb X now rate) w") (auto simp: meets_def)
qed simp

section \<open>From main to the loop\<close>

text \<open>The state once the server has been made and asked to listen, successfully or not.\<close>

definition server_ready :: "'x sys \<Rightarrow> 'x ring_view \<Rightarrow> 'x echo_state \<Rightarrow> ptr \<Rightarrow> 'x echo_state \<Rightarrow> bool" where
  "server_ready X V w p w2 \<longleftrightarrow> (program_step X V good_request)\<^sup>*\<^sup>* w w2 \<and>
     connectors w2 = connectors w \<and> should_continue w2 = should_continue w \<and> ring_buffers w2 = ring_buffers w \<and> error_handler w2 = error_handler w \<and>
     server_connections w2 = [] \<and> (\<exists>a. get_acceptor (server_acceptor w2) w2 = Inr a) \<and> pool_inv (subscribers w2) \<and>
     contents (subscribers w2) = [p \<mapsto> \<lparr>handlers = serving_acceptor (server_acceptor w2), mutex_held = False\<rparr>] \<and>
     (\<forall>b r. contents (request_pool w2) b = Some r \<longrightarrow> kind r = ACCEPT \<and> user_data (header r) = p)"

lemma server_made:
  assumes "pool_inv (acceptors w)" "pool_inv (subscribers w)" "contents (subscribers w) = Map.empty"
  obtains this a s2 ap w1 where "new_RingnetEchoServer 10 w = Inr w1"
    "w1 = w\<lparr>subscribers := s2, acceptors := ap, server_acceptor := this, server_connections := [],
       send_buffer := \<lparr>vec_base = nullptr, vec_len = 0, vec_cap = 0\<rparr>\<rparr>" "pool_inv s2" "pool_inv ap" "get_acceptor this w1 = Inr a"
    "contents s2 = [acc_subscriber a \<mapsto> \<lparr>handlers = serving_acceptor this, mutex_held = False\<rparr>]"
proof -
  obtain this a s0 ap where n: "new_Acceptor 10 w = Inr (this, w\<lparr>subscribers := s0, acceptors := ap\<rparr>)" "pool_inv s0" "pool_inv ap"
      "get_acceptor this (w\<lparr>subscribers := s0, acceptors := ap\<rparr>) = Inr a"
      "contents s0 = (contents (subscribers w))(acc_subscriber a \<mapsto> new_EventHandler)"
    by (rule new_Acceptor_spec [OF assms(1,2)])
  let ?w = "w\<lparr>subscribers := s0, acceptors := ap, server_acceptor := this, server_connections := [],
      send_buffer := \<lparr>vec_base = nullptr, vec_len = 0, vec_cap = 0\<rparr>\<rparr>"
  have w: "pool_inv (subscribers ?w)" "get_acceptor this ?w = Inr a" "contents (subscribers ?w) (acc_subscriber a) = Some new_EventHandler"
    using n by (simp_all add: get_acceptor_def)
  obtain s1 s2 where s: "acceptor_onError this Server_acceptor_error ?w = Inr (?w\<lparr>subscribers := s1\<rparr>)"
      "acceptor_onNewConnection this Server_new_connection (?w\<lparr>subscribers := s1\<rparr>) = Inr (?w\<lparr>subscribers := s2\<rparr>)" "pool_inv s2"
      "contents s2 = (contents (subscribers ?w))(acc_subscriber a \<mapsto>
         \<lparr>handlers = (\<lambda>_. None)(ErrorEventT \<mapsto> UserEvent Server_acceptor_error, AcceptEventT \<mapsto> AcceptThen this Server_new_connection), mutex_held = False\<rparr>)"
    by (rule acceptor_callbacks [OF w])
  let ?w1 = "w\<lparr>subscribers := s2, acceptors := ap, server_acceptor := this, server_connections := [],
      send_buffer := \<lparr>vec_base = nullptr, vec_len = 0, vec_cap = 0\<rparr>\<rparr>"
  have "new_RingnetEchoServer 10 w = Inr ?w1"
    using n(1) s(1,2) by (simp add: new_RingnetEchoServer_def server_registerCallbacks_def)
  moreover have "get_acceptor this ?w1 = Inr a" "contents s2 = [acc_subscriber a \<mapsto> \<lparr>handlers = serving_acceptor this, mutex_held = False\<rparr>]"
    using n(4,5) s(4) assms(3) by (simp_all add: get_acceptor_def serving_acceptor_def)
  ultimately show thesis using n(3) s(3) by (intro that [of ?w1 this ap s2 a]) simp_all
qed

lemma server_listens:
  assumes "posix_keeps_rings X V" "resolver_contract X" "fresh_loop V bufs w" "pool_inv (acceptors w)"
  obtains w1 w2 p where "new_RingnetEchoServer 10 w = Inr w1" "server_listen X address port w1 = Inr w2" "server_ready X V w p w2"
proof -
  have w: "contents (request_pool w) = Map.empty" "contents (subscribers w) = Map.empty" "pool_inv (subscribers w)" "sq_inv w"
    using assms(3) fresh_loop_life [OF assms(3)] by (simp_all add: fresh_loop_def empty_pool_facts queue_life_def)
  obtain this a s2 ap w1 where n: "new_RingnetEchoServer 10 w = Inr w1"
      "w1 = w\<lparr>subscribers := s2, acceptors := ap, server_acceptor := this, server_connections := [],
         send_buffer := \<lparr>vec_base = nullptr, vec_len = 0, vec_cap = 0\<rparr>\<rparr>" "pool_inv s2" "pool_inv ap" "get_acceptor this w1 = Inr a"
      "contents s2 = [acc_subscriber a \<mapsto> \<lparr>handlers = serving_acceptor this, mutex_held = False\<rparr>]"
    by (rule server_made [OF assms(4) w(3,2)])
  have w1: "sq_inv w1" "pool_inv (acceptors w1)" using w(4) n(4) by (simp_all add: n(2) sq_inv_def)
  have first: "(program_step X V good_request)\<^sup>*\<^sup>* w w1" by (rule program_steps_own [OF rtranclp.rtrancl_refl]) (simp_all add: n(2))
  have nn: "acc_subscriber a \<noteq> nullptr" using pool_inv_live_nonnull [OF n(3)] contents_live [of s2 "acc_subscriber a"] n(6) by auto
  obtain resolved x1 where "resolve X address port SOCK_STREAM True (env w1) = Inr (resolved, x1)" by (rule resolve_returns [OF assms(2)])
  then obtain st v where l: "acceptor_listen X SOCK_STREAM this address port w1 = Inr (st, v)" by (rule acceptor_listen_outcome [OF w1 n(5)])
  obtain a' where v: "(program_step X V good_request)\<^sup>*\<^sup>* w1 v" "get_acceptor this v = Inr a'"
      "v = w1\<lparr>env := env v, acceptors := acceptors v, request_pool := request_pool v, pending_requests := pending_requests v\<rparr>"
      "\<forall>b r. contents (request_pool v) b = Some r \<longrightarrow>
         contents (request_pool w1) b = Some r \<or> kind r = ACCEPT \<and> user_data (header r) = acc_subscriber a"
    by (rule acceptor_listens [OF assms(1) w1 n(5) nn l])
  obtain t where t: "server_listen X address port w1 = Inr (v\<lparr>cout := t\<rparr>)"
  proof (cases "success st")
    case True
    then show thesis using l n(2) by (intro that [of "cout v"]) (simp add: server_listen_def)
  next
    case False
    then show thesis using l n(2) by (intro that) (simp add: server_listen_def log_cout_def del: append.simps)
  qed
  have f: "subscribers v = s2" "server_acceptor v = this" "server_connections v = []" "connectors v = connectors w"
      "should_continue v = should_continue w" "ring_buffers v = ring_buffers w" "error_handler v = error_handler w"
    by (subst v(3), simp add: n(2))+
  have steps: "(program_step X V good_request)\<^sup>*\<^sup>* w (v\<lparr>cout := t\<rparr>)" by (rule program_steps_own [OF rtranclp_trans [OF first v(1)]]) simp_all
  have "\<exists>a. get_acceptor this (v\<lparr>cout := t\<rparr>) = Inr a" using v(2) by (simp add: get_acceptor_def)
  then have "server_ready X V w (acc_subscriber a) (v\<lparr>cout := t\<rparr>)"
    using steps v(4) w(1) n(3,6) by (simp add: server_ready_def f) (simp add: n(2))
  with n(1) t show thesis by (rule that)
qed

text \<open>The client is made and its connector has its callbacks; \<open>asyncConnect\<close> is what remains.\<close>

lemma client_made:
  assumes "pool_inv (connectors w)" "pool_inv (subscribers w)"
  obtains this k s2 kp brk m t w3 where
    "w3 = w\<lparr>connectors := kp, client_connector := this, client_connection := None,
       packet := \<lparr>vec_base = heap_brk w, vec_len = 1024, vec_cap = 1024\<rparr>, heap_brk := brk, mem := m, min_bytes_count := target,
       client_received := 0, start_time := 0, stop_time := 0, cout := t, subscribers := s2\<rparr>"
    "bindE (new_RingnetEchoClient target w) (client_connect X address port) =
       bindE (asyncConnect X SOCK_STREAM this address port w3) (\<lambda>(status, w4). if \<not> success status then Inl Terminate else Inr w4)"
    "get_connector this w3 = Inr k" "pool_inv kp" "pool_inv s2" "contents (subscribers w) (ctr_subscriber k) = None"
    "contents s2 = (contents (subscribers w))(ctr_subscriber k \<mapsto> \<lparr>handlers = client_connector_handlers this, mutex_held = False\<rparr>)"
proof -
  obtain this k sp kp where n: "new_Connector w = Inr (this, w\<lparr>subscribers := sp, connectors := kp\<rparr>)" "pool_inv sp" "pool_inv kp"
      "get_connector this (w\<lparr>subscribers := sp, connectors := kp\<rparr>) = Inr k" "block_size (subscribers w) (ctr_subscriber k) = None"
      "contents sp = (contents (subscribers w))(ctr_subscriber k \<mapsto> new_EventHandler)"
    by (rule new_Connector_spec [OF assms])
  have fresh: "contents (subscribers w) (ctr_subscriber k) = None" using n(5) pool.value_sized by fastforce
  let ?brk = "heap_brk w + 1024" and ?m = "\<lambda>a. if heap_brk w \<le> a \<and> a < heap_brk w + 1024 then 0x41 else mem w a"
  let ?t = "cout w @ (''Client: Connecting to '' @ address_text address port @ ''...'') @ newline"
  let ?w2 = "w\<lparr>subscribers := sp, connectors := kp, client_connector := this, client_connection := None,
      packet := \<lparr>vec_base = heap_brk w, vec_len = 1024, vec_cap = 1024\<rparr>, heap_brk := ?brk, mem := ?m, min_bytes_count := target,
      client_received := 0, start_time := 0, stop_time := 0, cout := ?t\<rparr>"
  have w2: "pool_inv (subscribers ?w2)" "get_connector this ?w2 = Inr k"
      "contents (subscribers ?w2) (ctr_subscriber k) = Some new_EventHandler"
    using n by (simp_all add: get_connector_def)
  obtain s2 where s2: "bindE (connector_onError this Client_error ?w2) (connector_onConnection this Client_connected) = Inr (?w2\<lparr>subscribers := s2\<rparr>)"
      "pool_inv s2" "contents s2 = (contents (subscribers ?w2))(ctr_subscriber k \<mapsto> \<lparr>handlers = client_connector_handlers this, mutex_held = False\<rparr>)"
    unfolding client_connector_handlers_def by (rule connector_callbacks [OF w2])
  let ?w3 = "?w2\<lparr>subscribers := s2\<rparr>"
  obtain v where v: "connector_onError this Client_error ?w2 = Inr v" "connector_onConnection this Client_connected v = Inr ?w3"
    using s2(1) by (auto simp: res_simps simp del: append.simps)
  have "client_connector v = this"
    using v(1) subscriber_on_frame by (fastforce simp: connector_onError_def res_simps simp del: append.simps)
  then have main: "bindE (new_RingnetEchoClient target w) (client_connect X address port) =
      bindE (asyncConnect X SOCK_STREAM this address port ?w3) (\<lambda>(status, w4). if \<not> success status then Inl Terminate else Inr w4)"
    using n(1) v
    by (auto simp: new_RingnetEchoClient_def client_connect_def log_cout_def Let_def simp del: append.simps append_assoc cong: if_cong)
  have w3: "?w3 = w\<lparr>connectors := kp, client_connector := this, client_connection := None,
       packet := \<lparr>vec_base = heap_brk w, vec_len = 1024, vec_cap = 1024\<rparr>, heap_brk := ?brk, mem := ?m, min_bytes_count := target,
       client_received := 0, start_time := 0, stop_time := 0, cout := ?t, subscribers := s2\<rparr>" by (simp del: append.simps)
  have "get_connector this ?w3 = Inr k" using n(4) by (simp add: get_connector_def)
  moreover have "contents s2 = (contents (subscribers w))(ctr_subscriber k \<mapsto> \<lparr>handlers = client_connector_handlers this, mutex_held = False\<rparr>)"
    using s2(3) n(6) by simp
  ultimately show thesis using that [OF w3 main] n(3) s2(2) fresh by blast
qed

text \<open>The set-up comes back with the loop in order or ends in the client's \<open>std::terminate\<close>.\<close>

lemma echo_main_outcome:
  assumes "posix_keeps_rings X V" "resolver_contract X" "fresh_loop V bufs w" "pool_inv (acceptors w)"
  obtains w2 p this k s2 kp w3 where "server_ready X V w p w2" "pool_inv (connectors w2)" "sq_inv w2"
    "echo_main X address port target w =
       bindE (asyncConnect X SOCK_STREAM this address port w3) (\<lambda>(status, w4). if \<not> success status then Inl Terminate else Inr w4)"
    "get_connector this w3 = Inr k" "pool_inv kp" "pool_inv s2" "contents (subscribers w2) (ctr_subscriber k) = None"
    "contents s2 = (contents (subscribers w2))(ctr_subscriber k \<mapsto> \<lparr>handlers = client_connector_handlers this, mutex_held = False\<rparr>)"
    "\<exists>brk m t. w3 = w2\<lparr>connectors := kp, client_connector := this, client_connection := None,
       packet := \<lparr>vec_base = heap_brk w2, vec_len = 1024, vec_cap = 1024\<rparr>, heap_brk := brk, mem := m, min_bytes_count := target,
       client_received := 0, start_time := 0, stop_time := 0, cout := t, subscribers := s2\<rparr>"
proof -
  obtain w1 w2 p where s: "new_RingnetEchoServer 10 w = Inr w1" "server_listen X address port w1 = Inr w2" "server_ready X V w p w2"
    by (rule server_listens [OF assms])
  have w: "sq_inv w" "pool_inv (connectors w)" using assms(3) fresh_loop_life [OF assms(3)] by (simp_all add: fresh_loop_def queue_life_def)
  have w2: "pool_inv (connectors w2)" "pool_inv (subscribers w2)" "sq_inv w2"
    using s(3) w program_steps_keep [of X V good_request w w2] by (auto simp: server_ready_def)
  obtain this k s2 kp brk m t w3 where
    "w3 = w2\<lparr>connectors := kp, client_connector := this, client_connection := None,
       packet := \<lparr>vec_base = heap_brk w2, vec_len = 1024, vec_cap = 1024\<rparr>, heap_brk := brk, mem := m, min_bytes_count := target,
       client_received := 0, start_time := 0, stop_time := 0, cout := t, subscribers := s2\<rparr>"
    and main: "bindE (new_RingnetEchoClient target w2) (client_connect X address port) =
       bindE (asyncConnect X SOCK_STREAM this address port w3) (\<lambda>(status, w4). if \<not> success status then Inl Terminate else Inr w4)"
    and k: "get_connector this w3 = Inr k" "pool_inv kp" "pool_inv s2" "contents (subscribers w2) (ctr_subscriber k) = None"
      "contents s2 = (contents (subscribers w2))(ctr_subscriber k \<mapsto> \<lparr>handlers = client_connector_handlers this, mutex_held = False\<rparr>)"
    by (rule client_made [OF w2(1,2)])
  moreover have "echo_main X address port target w =
       bindE (asyncConnect X SOCK_STREAM this address port w3) (\<lambda>(status, w4). if \<not> success status then Inl Terminate else Inr w4)"
    using s(1,2) main by (simp add: echo_main_def)
  ultimately show thesis using that [OF s(3) w2(1,3)] by blast
qed

lemma echo_main_stops:
  assumes "posix_keeps_rings X V" "resolver_contract X" "fresh_loop V bufs w" "pool_inv (acceptors w)" "echo_main X address port target w = Inl e"
  shows "e = Terminate"
proof -
  obtain w2 p this k s2 kp w3 where w2: "pool_inv (connectors w2)" "sq_inv w2"
    and main: "echo_main X address port target w =
       bindE (asyncConnect X SOCK_STREAM this address port w3) (\<lambda>(status, w4). if \<not> success status then Inl Terminate else Inr w4)"
    and k: "get_connector this w3 = Inr k" "pool_inv kp"
    and w3: "\<exists>brk m t. w3 = w2\<lparr>connectors := kp, client_connector := this, client_connection := None,
       packet := \<lparr>vec_base = heap_brk w2, vec_len = 1024, vec_cap = 1024\<rparr>, heap_brk := brk, mem := m, min_bytes_count := target,
       client_received := 0, start_time := 0, stop_time := 0, cout := t, subscribers := s2\<rparr>"
    by (rule echo_main_outcome [OF assms(1-4)])
  have inv: "sq_inv w3" "pool_inv (connectors w3)" using w2(2) k(2) w3 by (auto simp: sq_inv_def)
  obtain resolved x1 where r: "resolve X address port SOCK_STREAM True (env w3) = Inr (resolved, x1)" by (rule resolve_returns [OF assms(2)])
  obtain st w4 where "asyncConnect X SOCK_STREAM this address port w3 = Inr (st, w4)" by (rule asyncConnect_outcome [OF inv k(1) r])
  then show ?thesis using assms(5) main by (simp split: if_splits)
qed

lemma echo_inv_starts:
  assumes "server_ready X V w p w2" "should_continue w" "\<forall>s \<in> set bufs. sp_len s < 2 ^ 31" "clock_keeps X V now"
    "contents (subscribers w2) q = None"
    "contents (subscribers w') = (contents (subscribers w2))(q \<mapsto> \<lparr>handlers = client_connector_handlers (client_connector w'), mutex_held = False\<rparr>)"
    "get_connector (client_connector w') w' = Inr k" "pool_inv (connectors w')" "client_connection w' = None" "vec_len (packet w') = 1024"
    "min_bytes_count w' = target" "acceptors w' = acceptors w2" "server_acceptor w' = server_acceptor w2"
    "server_connections w' = server_connections w2" "should_continue w' = should_continue w2"
    "contents (request_pool w') = (contents (request_pool w2))(b \<mapsto> r)" "kind r = CONNECT" "user_data (header r) = q"
  shows "echo_inv X V now bufs target w' (contents (request_pool w'))"
proof -
  have s: "contents (subscribers w2) p = Some \<lparr>handlers = serving_acceptor (server_acceptor w2), mutex_held = False\<rparr>"
      "\<forall>b r. contents (request_pool w2) b = Some r \<longrightarrow> kind r = ACCEPT \<and> user_data (header r) = p"
    using assms(1) by (simp_all add: server_ready_def)
  have p: "p \<noteq> q" using s(1) assms(5) by auto
  have q: "registered w' q = Some (client_connector_handlers (client_connector w'))" using assms(6) by (simp add: registered_def)
  have acc: "registered w' p = Some (serving_acceptor (server_acceptor w'))" using assms(6,13) s(1) p by (simp add: registered_def)
  have new: "echo_request w' r" using q assms(9,17,18) by (simp add: echo_request_def)
  have old: "echo_request w' y" if "contents (request_pool w2) x = Some y" for x y
    using s(2) that acc by (auto simp: echo_request_def)
  have req: "\<forall>x y. contents (request_pool w') x = Some y \<longrightarrow> echo_request w' y" using old new assms(16) by simp
  have uniq: "\<forall>x y u v. contents (request_pool w') x = Some u \<longrightarrow> contents (request_pool w') y = Some v \<longrightarrow>
      kind u = CONNECT \<longrightarrow> kind v = CONNECT \<longrightarrow> x = y"
    using s(2) assms(16) by (metis Operation.distinct(1) fun_upd_other)
  show ?thesis
    using assms(1-4,7-15) req uniq
    by (simp add: echo_inv_def server_ready_def map_inv_def map_find_def get_acceptor_def)
qed

lemma echo_main_ready:
  assumes "posix_keeps_rings X V" "resolver_contract X" "fresh_loop V bufs w" "pool_inv (acceptors w)" "\<forall>s \<in> set bufs. sp_len s < 2 ^ 31"
    "clock_keeps X V now" "echo_main X address port target w = Inr w'"
  shows "(program_step X V good_request)\<^sup>*\<^sup>* w w'" "world_inv bufs (echo_inv X V now bufs target) w'"
proof -
  obtain w2 p this k s2 kp w3 where ready: "server_ready X V w p w2" and w2: "sq_inv w2"
    and main: "echo_main X address port target w =
       bindE (asyncConnect X SOCK_STREAM this address port w3) (\<lambda>(status, w4). if \<not> success status then Inl Terminate else Inr w4)"
    and k: "get_connector this w3 = Inr k" "pool_inv kp"
    and sub: "pool_inv s2" "contents (subscribers w2) (ctr_subscriber k) = None"
      "contents s2 = (contents (subscribers w2))(ctr_subscriber k \<mapsto> \<lparr>handlers = client_connector_handlers this, mutex_held = False\<rparr>)"
    and ex: "\<exists>brk m t. w3 = w2\<lparr>connectors := kp, client_connector := this, client_connection := None,
       packet := \<lparr>vec_base = heap_brk w2, vec_len = 1024, vec_cap = 1024\<rparr>, heap_brk := brk, mem := m, min_bytes_count := target,
       client_received := 0, start_time := 0, stop_time := 0, cout := t, subscribers := s2\<rparr>"
    by (rule echo_main_outcome [OF assms(1-4)])
  then obtain brk m t where w3: "w3 = w2\<lparr>connectors := kp, client_connector := this, client_connection := None,
       packet := \<lparr>vec_base = heap_brk w2, vec_len = 1024, vec_cap = 1024\<rparr>, heap_brk := brk, mem := m, min_bytes_count := target,
       client_received := 0, start_time := 0, stop_time := 0, cout := t, subscribers := s2\<rparr>" by blast
  obtain st where st: "asyncConnect X SOCK_STREAM this address port w3 = Inr (st, w')" "success st"
    using assms(7) main by (auto simp: res_simps split: if_splits)
  have inv: "sq_inv w3" "pool_inv (connectors w3)" using w2 k(2) by (simp_all add: w3 sq_inv_def)
  obtain r k' where r: "wf_request r" "kind r = CONNECT" "user_data (header r) = ctr_subscriber k"
      "push r w3 = Inr (w3\<lparr>request_pool := request_pool w', pending_requests := pending_requests w'\<rparr>)"
      "same_rings X V (env w3) (env w')"
      "w' = w3\<lparr>env := env w', connectors := connectors w', request_pool := request_pool w', pending_requests := pending_requests w'\<rparr>"
      "get_connector this w' = Inr k'" "ctr_subscriber k' = ctr_subscriber k" "pool_inv (connectors w')"
    by (rule asyncConnect_pushes [OF assms(1) inv k(1) st])
  have "ctr_subscriber k \<noteq> nullptr"
    using pool_inv_live_nonnull [OF sub(1)] contents_live [of s2 "ctr_subscriber k"] sub(3) by auto
  then have good: "good_request r" using r(2,3) by (cases r) (auto simp: good_request_def)
  have steps: "(program_step X V good_request)\<^sup>*\<^sup>* w w2" using ready by (simp add: server_ready_def)
  have "(program_step X V good_request)\<^sup>*\<^sup>* w w3" by (rule program_steps_own [OF steps]) (simp_all add: w3)
  then have "(program_step X V good_request)\<^sup>*\<^sup>* w (w3\<lparr>request_pool := request_pool w', pending_requests := pending_requests w'\<rparr>)"
    by (rule rtranclp.rtrancl_into_rtrancl) (rule program_push [of r], rule r(1), rule good, rule r(4))
  then show "(program_step X V good_request)\<^sup>*\<^sup>* w w'" by (rule program_steps_own) (use r(5) in simp_all)
  obtain b where "contents (request_pool w') = (contents (request_pool w3))(b \<mapsto> r)" using push_contents [OF inv(1) r(1,4)] by auto
  then have pool: "contents (request_pool w') = (contents (request_pool w2))(b \<mapsto> r)" by (simp add: w3)
  have f: "subscribers w' = s2" "client_connector w' = this" "client_connection w' = None" "vec_len (packet w') = 1024"
      "min_bytes_count w' = target" "acceptors w' = acceptors w2" "server_acceptor w' = server_acceptor w2"
      "server_connections w' = server_connections w2" "should_continue w' = should_continue w2" "ring_buffers w' = ring_buffers w2"
      "error_handler w' = error_handler w2"
    by (subst r(6), simp add: w3)+
  have w: "should_continue w" "default_errors w" "ring_buffers w = bufs" using assms(3) by (simp_all add: fresh_loop_def)
  have "echo_inv X V now bufs target w' (contents (request_pool w'))"
    by (rule echo_inv_starts [OF ready w(1) assms(5,6) sub(2) _ _ r(9) f(3-9) pool r(2,3)]) (use sub(3) r(7) in \<open>simp_all add: f(1,2)\<close>)
  moreover have "\<forall>x y. contents (request_pool w') x = Some y \<longrightarrow> user_data (header y) \<in> dom (contents s2)"
    using ready r(3) pool sub(3) by (auto simp: server_ready_def split: if_splits)
  moreover have "\<forall>x h. contents s2 x = Some h \<longrightarrow> \<not> mutex_held h"
    using ready sub(3) by (auto simp: server_ready_def split: if_splits)
  ultimately show "world_inv bufs (echo_inv X V now bufs target) w'"
    using sub(1) w(2,3) ready by (simp add: world_ok_def f default_errors_def server_ready_def)
qed

lemma echo_loop_ok:
  assumes "ring_contract X V (kernel_fits bufs)" "posix_keeps_rings X V" "resolver_contract X" "fresh_loop V bufs w" "pool_inv (acceptors w)"
    "\<forall>s \<in> set bufs. sp_len s < 2 ^ 31" "length bufs < 2 ^ 31" "clock_keeps X V now" "echo_main X address port target w = Inr w'"
  shows "loop_ok X V bufs (echo_inv X V now bufs target) w'"
  by (rule fresh_loop_ok [OF assms(1,7,4) echo_main_ready [OF assms(2-6,8,9)]])

end
