(* ===== verification/Ringnet_Mains.thy ===== *)
theory Ringnet_Mains
  imports Command_Line Writer_Safety Reader_Safety Echo_Safety
begin

text \<open>
  \<open>app/samples/benchmarks/src/ringnet{TcpWriter,TcpReader,EchoBenchmark}.cpp\<close>: the processes of the samples on
  ringnet, from the arguments of \<open>main\<close> to the end of \<open>loop.run()\<close>. A process is a value of
  \<open>(stop + state) option\<close>: \<open>None\<close> never ends, \<open>Some (Inl s)\<close> ends with the stop \<open>s\<close>, and \<open>Some (Inr w)\<close> comes back
  from \<open>loop.run()\<close>, after which \<open>main\<close> only destroys its locals and returns 0.
\<close>

section \<open>The processes\<close>

text \<open>While the loop is constructed no callback has been registered.\<close>

definition nothing_registered :: "'c \<Rightarrow> event \<Rightarrow> 'w \<Rightarrow> stop + 'w" where
  "nothing_registered f e w = Inl (BadCast nullptr)"

text \<open>The storage of a \<open>std::vector\<close> of \<open>n\<close> bytes; \<open>alloc\<close> is \<open>operator new\<close>, which throws where it gives \<open>None\<close>.\<close>

definition vector_storage :: "(nat \<Rightarrow> ptr option) \<Rightarrow> nat \<Rightarrow> stop + ptr" where
  "vector_storage alloc n =
     (if 2 ^ 63 \<le> n then Inl (RuntimeError ''cannot create std::vector larger than max_size()'')
      else case alloc n of None \<Rightarrow> Inl (RuntimeError ''std::bad_alloc'') | Some p \<Rightarrow> Inr p)"

text \<open>The states of the programs when only the loop exists; the program's own members are written by its constructors.\<close>

definition writer_before :: "('x, writer_callback closure) event_loop \<Rightarrow> 'x tcp_writer" where
  "writer_before l = \<lparr>env = env l, request_pool = request_pool l, pending_requests = pending_requests l, buffer_ring = buffer_ring l,
     ring_buffers = ring_buffers l, should_continue = should_continue l, error_handler = error_handler l,
     subscribers = subscribers l, cerr = cerr l, acceptors = empty_pool, connectors = empty_pool, cout = [],
     writer_connector = nullptr, writer_connection = None, writer_packet = \<lparr>sp_base = nullptr, sp_len = 0\<rparr>,
     remaining_bytes_before_print = 0, written_bytes = 0\<rparr>"

definition reader_before :: "('x, reader_callback closure) event_loop \<Rightarrow> 'x reader_state" where
  "reader_before l = \<lparr>env = env l, request_pool = request_pool l, pending_requests = pending_requests l, buffer_ring = buffer_ring l,
     ring_buffers = ring_buffers l, should_continue = should_continue l, error_handler = error_handler l,
     subscribers = subscribers l, cerr = cerr l, acceptors = empty_pool, connectors = empty_pool, cout = [],
     reader_acceptor = nullptr, connections = [], target_bytes_count = 0, received_bytes_count = 0\<rparr>"

definition ringnetTcpWriter_main ::
    "'r cxxopts \<Rightarrow> 'x sys \<Rightarrow> (nat \<Rightarrow> ptr option) \<Rightarrow> ptr \<Rightarrow> string list \<Rightarrow> 'x \<Rightarrow> (stop + 'x tcp_writer) option" where
  "ringnetTcpWriter_main C X alloc buffers argv x =
     process
       (bindE (new_WriterCLI C argv) (\<lambda>cli.
        let address = WriterCLI_address in
        bindE (WriterCLI_port C cli) (\<lambda>port.
        bindE (WriterCLI_chunk_size C cli) (\<lambda>chunk_size.
        bindE (new_EventLoop nothing_registered X 1024 buffers x) (\<lambda>l.
        bindE (vector_storage alloc (unat chunk_size)) (\<lambda>packet_base.
          writer_main X address port (unat chunk_size) packet_base (writer_before l)))))))
       (run X (writer_cb X))"

definition ringnetTcpReader_main ::
    "'r cxxopts \<Rightarrow> 'x sys \<Rightarrow> ptr \<Rightarrow> string list \<Rightarrow> 'x \<Rightarrow> (stop + 'x reader_state) option" where
  "ringnetTcpReader_main C X buffers argv x =
     process
       (bindE (new_ReaderCLI C argv) (\<lambda>cli.
        bindE (new_EventLoop nothing_registered X 1024 buffers x) (\<lambda>l.
        bindE (ReaderCLI_bytes_count C cli) (\<lambda>bytes_count.
        bindE (new_RingnetTcpReader bytes_count (reader_before l)) (\<lambda>w1.
        bindE (ReaderCLI_port C cli) (\<lambda>port.
          reader_listen X ReaderCLI_address port w1))))))
       (run X (reader_cb X))"

definition echo_before :: "memory \<Rightarrow> ptr \<Rightarrow> ('x, echo_callback closure) event_loop \<Rightarrow> 'x echo_state" where
  "echo_before m brk l = \<lparr>env = env l, request_pool = request_pool l, pending_requests = pending_requests l, buffer_ring = buffer_ring l,
     ring_buffers = ring_buffers l, should_continue = should_continue l, error_handler = error_handler l,
     subscribers = subscribers l, cerr = cerr l, acceptors = empty_pool, connectors = empty_pool, cout = [],
     mem = m, heap_brk = brk, server_acceptor = nullptr, server_connections = [],
     send_buffer = \<lparr>vec_base = nullptr, vec_len = 0, vec_cap = 0\<rparr>, client_connector = nullptr, client_connection = None,
     packet = \<lparr>vec_base = nullptr, vec_len = 0, vec_cap = 0\<rparr>, min_bytes_count = 0, client_received = 0, start_time = 0, stop_time = 0\<rparr>"

definition ringnetEchoBenchmark_main ::
    "'r cxxopts \<Rightarrow> 'x sys \<Rightarrow> ('x \<Rightarrow> int \<times> 'x) \<Rightarrow> (64 word \<Rightarrow> int \<Rightarrow> string) \<Rightarrow> memory \<Rightarrow> ptr \<Rightarrow> ptr \<Rightarrow> string list \<Rightarrow> 'x \<Rightarrow>
     (stop + 'x echo_state) option" where
  "ringnetEchoBenchmark_main C X now rate m brk buffers argv x =
     process
       (bindE (new_EchoCLI C argv) (\<lambda>cli.
        let address = EchoCLI_address in
        bindE (EchoCLI_port C cli) (\<lambda>port.
        bindE (EchoCLI_bytes_count C cli) (\<lambda>bytes_count.
        bindE (new_EventLoop nothing_registered X 1024 buffers x) (\<lambda>l.
          echo_main X address port bytes_count (echo_before m brk l))))))
       (run X (echo_cb X now rate))"

section \<open>The writer's process\<close>

lemma writer_before_fresh:
  assumes "ring_contract X V fits" "ring_setup_contract X V" "new_EventLoop cb X n base x = Inr l"
  shows "fresh_loop V (loop_buffers base) (writer_before l)"
  using new_EventLoop_fresh [OF assms] by (simp add: fresh_loop_def writer_before_def default_errors_def)

text \<open>The constructor of the loop stops only by the exception of the queue's constructor.\<close>

lemma new_EventLoop_stops:
  assumes "ring_contract X V fits" "ring_setup_contract X V" "new_EventLoop cb X n base x = Inl e"
  shows "\<exists>what. e = RuntimeError what" "fst (io_uring_queue_init X (word_of_nat n) x) < 0"
proof -
  obtain m y where y: "io_uring_queue_init X (word_of_nat n) x = (m, y)" by (cases "io_uring_queue_init X (word_of_nat n) x")
  let ?w = "\<lparr>env = y, request_pool = empty_pool, pending_requests = no_pending, buffer_ring = nullptr, ring_buffers = [],
      should_continue = True, error_handler = new_ErrorHandler, subscribers = empty_pool, cerr = []\<rparr> :: ('a, 'b) event_loop"
  obtain st w1 where s: "setupBuffers X (loop_buffers base) ?w = (st, w1)" by (cases "setupBuffers X (loop_buffers base) ?w")
  have ok: "default_errors w1" by (subst setupBuffers_loop(1) [OF assms(1,2) _ s]) (simp_all add: default_errors_def)
  show "\<exists>what. e = RuntimeError what" "fst (io_uring_queue_init X (word_of_nat n) x) < 0"
    using assms(3) y s error_handle_default [OF ok, of cb "message st"]
    by (auto simp: new_EventLoop_def new_SubmissionQueue_def throwOnError_def Let_def res_simps split: if_splits)
qed

text \<open>The writer's process once its settings are known.\<close>

definition writer_objects :: "'x sys \<Rightarrow> (nat \<Rightarrow> ptr option) \<Rightarrow> ptr \<Rightarrow> 16 word \<Rightarrow> 64 word \<Rightarrow> 'x \<Rightarrow> stop + 'x tcp_writer" where
  "writer_objects X alloc buffers port chunk_size x =
     bindE (new_EventLoop nothing_registered X 1024 buffers x) (\<lambda>l. bindE (vector_storage alloc (unat chunk_size)) (\<lambda>base.
       writer_main X WriterCLI_address port (unat chunk_size) base (writer_before l)))"

lemma writer_objects_run:
  assumes "ring_contract X V (kernel_fits (loop_buffers buffers))" "ring_setup_contract X V" "posix_keeps_rings X V" "resolver_contract X"
    "unat n < 2 ^ 31"
  shows "process (writer_objects X alloc buffers port n x) (run X (writer_cb X)) \<in> {None, Some (Inl Terminate)}"
proof (cases "writer_objects X alloc buffers port n x")
  case (Inl e)
  then have "e = Terminate \<or> (\<exists>what. e = RuntimeError what)"
    using writer_main_stops [OF writer_before_fresh [OF assms(1,2)] assms(4)] unfolding writer_objects_def
    by (auto simp: res_simps vector_storage_def split: if_splits option.splits dest: new_EventLoop_stops [OF assms(1,2)])
  with Inl show ?thesis by (auto simp: noexceptE_def)
next
  case (Inr w)
  then obtain l base where "new_EventLoop nothing_registered X 1024 buffers x = Inr l"
      "writer_main X WriterCLI_address port (unat n) base (writer_before l) = Inr w"
    by (auto simp: writer_objects_def res_simps)
  then have "loop_ok X V (loop_buffers buffers) writer_inv w"
    by (intro writer_loop_ok [OF assms(1,3) writer_before_fresh [OF assms(1,2)] _ assms(5)]) simp_all
  from writer_run_result [OF this] Inr show ?thesis by (auto simp: noexceptE_def)
qed

text \<open>The process by its settings: an exception of an accessor ends it, otherwise the objects are made and the loop runs.\<close>

lemma ringnetTcpWriter_main_cases:
  assumes "new_WriterCLI C argv = Inr cli"
  obtains (refused) "ringnetTcpWriter_main C X alloc buffers argv x = Some (Inl Terminate)"
  | (runs) port n where "WriterCLI_chunk_size C cli = Inr n"
      "ringnetTcpWriter_main C X alloc buffers argv x = process (writer_objects X alloc buffers port n x) (run X (writer_cb X))"
proof (cases "WriterCLI_port C cli")
  case (Inl e)
  then show ?thesis using assms refused by (auto simp: ringnetTcpWriter_main_def cli_accessor_defs res_simps)
next
  case port: (Inr port)
  show ?thesis
  proof (cases "WriterCLI_chunk_size C cli")
    case (Inl e)
    then show ?thesis using assms port refused by (auto simp: ringnetTcpWriter_main_def cli_accessor_defs res_simps)
  next
    case (Inr n)
    then show ?thesis using assms port by (intro runs) (simp_all add: ringnetTcpWriter_main_def writer_objects_def)
  qed
qed


lemma sample_command_lines:
  "\<exists>cli. new_WriterCLI ref_cxxopts [''tcp-writer''] = Inr cli \<and> cli_count ref_cxxopts cli ''chunk_size'' = 0"
  "\<exists>cli. new_ReaderCLI ref_cxxopts [''tcp-reader''] = Inr cli"
  by (simp_all add: new_CLI_defs parse_or_help_def ref_cxxopts_def ref_parse_def Let_def)


section \<open>The reader's process\<close>

lemma reader_before_fresh:
  assumes "ring_contract X V fits" "ring_setup_contract X V" "new_EventLoop cb X n base x = Inr l"
  shows "fresh_loop V (loop_buffers base) (reader_before l)" "acceptors (reader_before l) = empty_pool"
  using new_EventLoop_fresh [OF assms] by (simp_all add: fresh_loop_def reader_before_def default_errors_def)

text \<open>The reader is constructed on a fresh loop.\<close>

lemma reader_made:
  assumes "ring_contract X V fits" "ring_setup_contract X V" "new_EventLoop cb X n base x = Inr l"
  obtains this a w1 where "new_RingnetTcpReader target (reader_before l) = Inr w1" "reader_constructed target (reader_before l) this a w1"
    "sq_inv w1" "pool_inv (acceptors w1)" "get_acceptor this w1 = Inr a" "reader_acceptor w1 = this"
proof -
  let ?w = "reader_before l"
  note fresh = reader_before_fresh [OF assms]
  have w: "pool_inv (acceptors ?w)" "pool_inv (subscribers ?w)" "contents (subscribers ?w) = Map.empty" "sq_inv ?w"
    using fresh fresh_loop_life [OF fresh(1)] by (simp_all add: fresh_loop_def empty_pool_facts queue_life_def)
  obtain this a w1 where n: "new_RingnetTcpReader target ?w = Inr w1" "reader_constructed target ?w this a w1"
    by (rule new_RingnetTcpReader_spec [OF w(1-3)])
  then show thesis using w(4) by (intro that [OF n]) (auto simp: reader_constructed_def sq_inv_def)
qed

text \<open>The reader's process once its settings are known.\<close>

definition reader_objects :: "'x sys \<Rightarrow> ptr \<Rightarrow> 16 word \<Rightarrow> 64 word \<Rightarrow> 'x \<Rightarrow> stop + 'x reader_state" where
  "reader_objects X buffers port target x =
     bindE (new_EventLoop nothing_registered X 1024 buffers x) (\<lambda>l.
     bindE (new_RingnetTcpReader target (reader_before l)) (reader_listen X ReaderCLI_address port))"

lemma reader_objects_run:
  assumes "ring_contract X V (kernel_fits (loop_buffers buffers))" "ring_setup_contract X V" "posix_keeps_rings X V" "resolver_contract X"
  shows "case reader_objects X buffers port target x of
      Inl e \<Rightarrow> \<exists>what. e = RuntimeError what
    | Inr w \<Rightarrow> meets X reader_mishap (reader_cb X) w \<or> run X (reader_cb X) w = None \<or>
        (\<exists>s. run X (reader_cb X) w = Some (Inl s) \<and> reader_exit target s)"
proof (cases "new_EventLoop nothing_registered X 1024 buffers x :: stop + ('a, reader_callback closure) event_loop")
  case (Inl e)
  then have "\<exists>what. e = RuntimeError what" using new_EventLoop_stops [OF assms(1,2)] by blast
  with Inl show ?thesis by (auto simp: reader_objects_def)
next
  case (Inr l)
  obtain this a w1 where n: "new_RingnetTcpReader target (reader_before l) = Inr w1" "reader_constructed target (reader_before l) this a w1"
      "sq_inv w1" "pool_inv (acceptors w1)" "get_acceptor this w1 = Inr a" "reader_acceptor w1 = this"
    by (rule reader_made [OF assms(1,2) Inr])
  obtain resolved x1 where r: "resolve X ReaderCLI_address port SOCK_STREAM True (env w1) = Inr (resolved, x1)" by (rule resolve_returns [OF assms(4)])
  obtain st w2 where "acceptor_listen X SOCK_STREAM this ReaderCLI_address port w1 = Inr (st, w2)" by (rule acceptor_listen_outcome [OF n(3-5) r])
  then obtain w' where w': "reader_listen X ReaderCLI_address port w1 = Inr w'" using n(6) by (simp add: reader_listen_def)
  have "loop_ok X V (loop_buffers buffers) (reader_inv target) w'"
    by (rule reader_loop_ok [OF assms(1,3) reader_before_fresh(1) [OF assms(1,2) Inr] _ n(2) w']) simp
  from reader_run_result [OF this] show ?thesis by (simp add: reader_objects_def Inr n(1) w')
qed

text \<open>The process by its settings: an exception ends it, otherwise the objects are made and the loop runs.\<close>

lemma ringnetTcpReader_main_cases:
  assumes "ring_contract X V fits" "ring_setup_contract X V" "new_ReaderCLI C argv = Inr cli"
  obtains (refused) "ringnetTcpReader_main C X buffers argv x = Some (Inl Terminate)"
  | (runs) port target where "ReaderCLI_port C cli = Inr port" "ReaderCLI_bytes_count C cli = Inr target"
      "ringnetTcpReader_main C X buffers argv x = process (reader_objects X buffers port target x) (run X (reader_cb X))"
proof (cases "new_EventLoop nothing_registered X 1024 buffers x :: stop + ('a, reader_callback closure) event_loop")
  case (Inl e)
  then have "\<exists>what. e = RuntimeError what" using new_EventLoop_stops [OF assms(1,2)] by blast
  with Inl assms(3) show ?thesis by (intro refused) (auto simp: ringnetTcpReader_main_def)
next
  case l: (Inr l)
  show ?thesis
  proof (cases "ReaderCLI_bytes_count C cli")
    case (Inl e)
    with l assms(3) show ?thesis by (intro refused) (auto simp: ringnetTcpReader_main_def cli_accessor_defs res_simps)
  next
    case t: (Inr target)
    obtain w1 where n: "new_RingnetTcpReader target (reader_before l) = Inr w1" by (rule reader_made [OF assms(1,2) l])
    show ?thesis
    proof (cases "ReaderCLI_port C cli")
      case (Inl e)
      with l t n assms(3) show ?thesis by (intro refused) (auto simp: ringnetTcpReader_main_def cli_accessor_defs res_simps)
    next
      case (Inr port)
      with l t n assms(3) show ?thesis by (intro runs [OF Inr t]) (simp add: ringnetTcpReader_main_def reader_objects_def)
    qed
  qed
qed



text \<open>The reader after a failed \<open>listen\<close> has no request and its loop finds nothing to do.\<close>

lemma reader_listen_failed_idle:
  assumes "ring_contract X V (kernel_fits bufs)" "posix_keeps_rings X V" "fresh_loop V bufs w" "length bufs < 2 ^ 31"
    "reader_constructed target w this a w1" "acceptor_listen X SOCK_STREAM this address port w1 = Inr (st, w2)" "\<not> success st"
    "reader_listen X address port w1 = Inr w'"
  shows "loop_ok X V bufs idle_inv w'"
proof -
  obtain sp ap where w1: "w1 = w\<lparr>subscribers := sp, acceptors := ap, reader_acceptor := this, connections := [], target_bytes_count := target,
       received_bytes_count := 0\<rparr>" "pool_inv sp"
      "contents sp = [acc_subscriber a \<mapsto> \<lparr>handlers = accepting_handlers this, mutex_held = False\<rparr>]"
    using assms(5) unfolding reader_constructed_def by blast
  obtain x q where w2: "w2 = w1\<lparr>env := x, acceptors := q\<rparr>" "same_rings X V (env w1) x"
    by (rule acceptor_listen_fails [OF assms(2,6,7)])
  have eq: "w' = log_cerr (''TcpReader: Could not listen to '' @ address_text address port) w2"
    using w1(1) assms(6-8) by (simp add: reader_listen_def)
  have rings: "same_rings X V (env w) (env w')" using w2 w1(1) by (simp add: eq log_cerr_def)
  then have "(program_step X V good_request)\<^sup>*\<^sup>* w w'"
    by (rule program_steps_own [OF rtranclp.rtrancl_refl, rotated -1]) (simp_all add: eq log_cerr_def w2 w1(1))
  moreover have "world_inv bufs idle_inv w'"
    using assms(3) w1(2,3) by (simp add: world_ok_def idle_inv_def eq log_cerr_def w2 w1(1) fresh_loop_def default_errors_def empty_pool_facts)
  ultimately show ?thesis by (rule fresh_loop_ok [OF assms(1,4,3)])
qed

text \<open>C30. When every \<open>bind\<close> is refused, as for a port that another process holds, the reader prints that it could not
  listen and then never ends: \<open>listen\<close> returns nothing, \<open>main\<close> enters the loop all the same, and the loop,
  with no request and no one to stop it, turns for ever.\<close>

theorem reader_without_port_hangs:
  assumes "ring_contract X V (kernel_fits (loop_buffers buffers))" "ring_setup_contract X V" "posix_keeps_rings X V"
    "resolver_contract X" "bind_refused X" "cxxopts_contract C" "new_ReaderCLI C argv = Inr cli"
    "0 \<le> fst (io_uring_queue_init X 1024 x)"
  shows "ringnetTcpReader_main C X buffers argv x = None"
proof -
  obtain port target where cli: "ReaderCLI_port C cli = Inr port" "ReaderCLI_bytes_count C cli = Inr target"
    using reader_settings [OF assms(6,7)] by blast
  obtain l :: "('a, reader_callback closure) event_loop" where l: "new_EventLoop nothing_registered X 1024 buffers x = Inr l"
    using new_EventLoop_stops(2) [OF assms(1,2), of nothing_registered 1024 buffers x] assms(8)
    by (cases "new_EventLoop nothing_registered X 1024 buffers x :: stop + ('a, reader_callback closure) event_loop") auto
  obtain this a w1 where n: "new_RingnetTcpReader target (reader_before l) = Inr w1" "reader_constructed target (reader_before l) this a w1"
      "sq_inv w1" "pool_inv (acceptors w1)" "get_acceptor this w1 = Inr a" "reader_acceptor w1 = this"
    by (rule reader_made [OF assms(1,2) l])
  obtain st w2 where listen: "acceptor_listen X SOCK_STREAM this ReaderCLI_address port w1 = Inr (st, w2)" "\<not> success st"
    by (rule acceptor_listen_refused [OF assms(5,4) n(3-5)])
  then obtain w' where w': "reader_listen X ReaderCLI_address port w1 = Inr w'" using n(6) by (simp add: reader_listen_def)
  have "loop_ok X V (loop_buffers buffers) idle_inv w'"
    by (rule reader_listen_failed_idle [OF assms(1,3) reader_before_fresh(1) [OF assms(1,2) l] _ n(2) listen w']) simp
  then have "run X (reader_cb X) w' = None" by (rule idle_run)
  then show ?thesis using assms(7) l cli n(1) w' by (simp add: ringnetTcpReader_main_def)
qed

text \<open>An environment in which the port is taken.\<close>

definition taken_sys :: "nat \<Rightarrow> ref_env sys" where
  "taken_sys cap = (ref_sys cap)\<lparr>sys_bind := (\<lambda>_ _ _ x. (-1, x\<lparr>ref_errno := 98\<rparr>))\<rparr>"

lemma taken_sys_facts:
  "ring_contract (taken_sys cap) ref_view fits" "ring_setup_contract (taken_sys cap) ref_view"
  "posix_keeps_rings (taken_sys cap) ref_view" "resolver_contract (taken_sys cap)" "bind_refused (taken_sys cap)"
proof -
  show "ring_contract (taken_sys cap) ref_view fits"
    using ref_ring_contract [of cap fits]
    by (simp add: taken_sys_def ring_contract_def ring_moves_def same_rings_def cq_contract_def)
  show "ring_setup_contract (taken_sys cap) ref_view"
    using ref_ring_setup_contract [of cap] by (simp add: taken_sys_def ring_setup_contract_def same_rings_def)
  show "posix_keeps_rings (taken_sys cap) ref_view" "resolver_contract (taken_sys cap)" "bind_refused (taken_sys cap)"
    using ref_posix_keeps_rings [of cap] ref_resolver_contract [of cap]
    by (simp_all add: taken_sys_def posix_keeps_rings_def same_rings_def ref_cq_view_def resolver_contract_def bind_refused_def ref_sys_def)
qed

theorem reader_without_port_hangs_witness:
  "ringnetTcpReader_main ref_cxxopts (taken_sys 4) 4096 [''tcp-reader''] ref_init = None"
proof -
  obtain cli where cli: "new_ReaderCLI ref_cxxopts [''tcp-reader''] = Inr cli" using sample_command_lines(2) by blast
  have "0 \<le> fst (io_uring_queue_init (taken_sys 4) 1024 ref_init)" by (simp add: taken_sys_def ref_sys_def)
  from reader_without_port_hangs [OF taken_sys_facts ref_cxxopts_contract cli this] show ?thesis .
qed

section \<open>The process of the echo pair\<close>

lemma echo_before_fresh:
  assumes "ring_contract X V fits" "ring_setup_contract X V" "new_EventLoop cb X n base x = Inr l"
  shows "fresh_loop V (loop_buffers base) (echo_before m brk l)" "pool_inv (acceptors (echo_before m brk l))"
  using new_EventLoop_fresh [OF assms] by (simp_all add: fresh_loop_def echo_before_def default_errors_def)

lemma loop_buffers_small: "\<forall>s \<in> set (loop_buffers base). sp_len s < 2 ^ 31"
  by (simp add: loop_buffers_def del: upt_rec_numeral)

text \<open>The process once its settings are known.\<close>

definition echo_objects :: "'x sys \<Rightarrow> memory \<Rightarrow> ptr \<Rightarrow> ptr \<Rightarrow> 16 word \<Rightarrow> 64 word \<Rightarrow> 'x \<Rightarrow> stop + 'x echo_state" where
  "echo_objects X m brk buffers port target x =
     bindE (new_EventLoop nothing_registered X 1024 buffers x) (\<lambda>l. echo_main X EchoCLI_address port target (echo_before m brk l))"

lemma echo_objects_run:
  assumes "ring_contract X V (kernel_fits (loop_buffers buffers))" "ring_setup_contract X V" "posix_keeps_rings X V" "resolver_contract X"
    "clock_keeps X V now"
  shows "case echo_objects X m brk buffers port target x of
      Inl e \<Rightarrow> e = Terminate \<or> (\<exists>what. e = RuntimeError what)
    | Inr w \<Rightarrow> meets X echo_mishap (echo_cb X now rate) w \<or> run X (echo_cb X now rate) w = None \<or>
        (\<exists>s. run X (echo_cb X now rate) w = Some (Inl s) \<and> echo_stop rate target s)"
proof (cases "new_EventLoop nothing_registered X 1024 buffers x :: stop + ('a, echo_callback closure) event_loop")
  case (Inl e)
  then have "\<exists>what. e = RuntimeError what" using new_EventLoop_stops [OF assms(1,2)] by blast
  with Inl show ?thesis by (auto simp: echo_objects_def)
next
  case l: (Inr l)
  note fresh = echo_before_fresh [OF assms(1,2) l, of m brk]
  show ?thesis
  proof (cases "echo_main X EchoCLI_address port target (echo_before m brk l)")
    case (Inl e)
    with echo_main_stops [OF assms(3,4) fresh Inl] l show ?thesis by (simp add: echo_objects_def)
  next
    case (Inr w)
    have "loop_ok X V (loop_buffers buffers) (echo_inv X V now (loop_buffers buffers) target) w"
      by (rule echo_loop_ok [OF assms(1,3,4) fresh loop_buffers_small _ assms(5) Inr]) simp
    from echo_run_result [OF this, of rate] l Inr show ?thesis by (simp add: echo_objects_def)
  qed
qed

lemma ringnetEchoBenchmark_main_cases:
  assumes "new_EchoCLI C argv = Inr cli"
  obtains (refused) "ringnetEchoBenchmark_main C X now rate m brk buffers argv x = Some (Inl Terminate)"
  | (runs) port target where "EchoCLI_port C cli = Inr port" "EchoCLI_bytes_count C cli = Inr target"
      "ringnetEchoBenchmark_main C X now rate m brk buffers argv x =
         process (echo_objects X m brk buffers port target x) (run X (echo_cb X now rate))"
proof (cases "EchoCLI_port C cli")
  case (Inl e)
  then show ?thesis using assms refused by (auto simp: ringnetEchoBenchmark_main_def cli_accessor_defs res_simps)
next
  case port: (Inr port)
  show ?thesis
  proof (cases "EchoCLI_bytes_count C cli")
    case (Inl e)
    then show ?thesis using assms port refused by (auto simp: ringnetEchoBenchmark_main_def cli_accessor_defs res_simps)
  next
    case (Inr target)
    then show ?thesis using assms port by (intro runs) (simp_all add: ringnetEchoBenchmark_main_def echo_objects_def)
  qed
qed



end
