(* ===== verification/Asio_Env.thy ===== *)
theory Asio_Env
  imports Ringnet_Prelude Transition_Systems "HOL-Library.Multiset"
begin

text \<open>
  Asio, on which three of the sample programs are built, as a parameter \<open>A :: ('x, 'c) asio\<close>: its entry points on
  a state \<open>'x\<close> of the \<open>io_context\<close> and everything behind it, where \<open>'c\<close> are the completion handlers (lambdas) of
  the program. Asio keeps the handler of every operation under way and calls it once, from
  \<open>io_context::run\<close>; that is the predicate \<open>asio_contract\<close>, and the locale \<open>asio_program\<close> draws the
  consequences for every program.
\<close>

section \<open>Operations and their completions\<close>

datatype ip_address = V4 "32 word" | V6 "128 word"

type_synonym tcp_endpoint = "ip_address \<times> 16 word"

text \<open>
  An asynchronous operation: on which socket, and with what. A read is given a buffer of so many bytes, a
  write its bytes: Asio reads them from the program's buffer while the write is under way, and no program here changes
  or frees a buffer during that time (the handler keeps it alive), so they are the bytes at the start. The handler
  comes with the operation.
\<close>

datatype asio_request =
    Async_accept ptr
  | Async_connect ptr "tcp_endpoint list"
  | Async_read_some ptr ptr nat
  | Async_write ptr "8 word list"

type_synonym 'c asio_op = "asio_request \<times> 'c"

text \<open>What a handler is told: the error code (0 for none), the bytes transferred, and for a read what was put into the buffer.\<close>

record asio_completion =
  ac_error :: int
  ac_bytes :: nat
  ac_data :: "8 word list"

text \<open>The next thing \<open>io_context::run\<close> does: call a handler, return for lack of work, or wait for ever.\<close>

datatype 'c io_event = Ready "'c asio_op" asio_completion | Out_of_work | Waits_forever

record ('x, 'c) asio =
  asio_make_address :: "string \<Rightarrow> string + ip_address"
  asio_acceptor_open :: "ip_address \<Rightarrow> 'x \<Rightarrow> string option \<times> 'x"
  asio_acceptor_reuse_address :: "bool \<Rightarrow> 'x \<Rightarrow> string option \<times> 'x"
  asio_acceptor_bind :: "tcp_endpoint \<Rightarrow> 'x \<Rightarrow> string option \<times> 'x"
  asio_acceptor_listen :: "'x \<Rightarrow> string option \<times> 'x"
  asio_resolve :: "string \<Rightarrow> string \<Rightarrow> 'x \<Rightarrow> (string + tcp_endpoint list) \<times> 'x"
  asio_socket_close :: "ptr \<Rightarrow> 'x \<Rightarrow> string option \<times> 'x"
  asio_start :: "'c asio_op \<Rightarrow> 'x \<Rightarrow> 'x"
  asio_next :: "'x \<Rightarrow> 'c io_event \<times> 'x"
  asio_message :: "int \<Rightarrow> string"

section \<open>The state of a program\<close>

text \<open>
  The \<open>io_context\<close>, the two output streams, the objects behind \<open>std::make_shared\<close> (sockets and buffers get
  addresses from \<open>heap_next\<close> on) and the contents of the buffers.
\<close>

record 'x asio_world =
  io :: 'x
  asio_cout :: string
  asio_cerr :: string
  heap_next :: ptr
  vectors :: "ptr \<Rightarrow> 8 word list"

definition asio_log :: "string \<Rightarrow> ('x, 'z) asio_world_scheme \<Rightarrow> ('x, 'z) asio_world_scheme" where
  "asio_log t w = w\<lparr>asio_cout := asio_cout w @ t @ newline\<rparr>"

definition asio_log_error :: "string \<Rightarrow> ('x, 'z) asio_world_scheme \<Rightarrow> ('x, 'z) asio_world_scheme" where
  "asio_log_error t w = w\<lparr>asio_cerr := asio_cerr w @ t @ newline\<rparr>"

definition asio_begin :: "('x, 'c) asio \<Rightarrow> asio_request \<Rightarrow> 'c \<Rightarrow> ('x, 'z) asio_world_scheme \<Rightarrow> ('x, 'z) asio_world_scheme" where
  "asio_begin A request handler w = w\<lparr>io := asio_start A (request, handler) (io w)\<rparr>"

text \<open>\<open>std::make_shared\<close> of a socket, and of a \<open>std::vector<char>\<close> with the given elements.\<close>

definition make_shared_socket :: "('x, 'z) asio_world_scheme \<Rightarrow> ptr \<times> ('x, 'z) asio_world_scheme" where
  "make_shared_socket w = (heap_next w, w\<lparr>heap_next := heap_next w + 1\<rparr>)"

definition make_shared_vector :: "8 word list \<Rightarrow> ('x, 'z) asio_world_scheme \<Rightarrow> ptr \<times> ('x, 'z) asio_world_scheme" where
  "make_shared_vector bytes w = (heap_next w, w\<lparr>heap_next := heap_next w + 1, vectors := (vectors w)(heap_next w := bytes)\<rparr>)"

text \<open>A call that may throw; the rest of the \<open>try\<close> block is \<open>k\<close>.\<close>

definition try_call ::
    "('x \<Rightarrow> string option \<times> 'x) \<Rightarrow> (('x, 'z) asio_world_scheme \<Rightarrow> string option \<times> ('x, 'z) asio_world_scheme) \<Rightarrow>
     ('x, 'z) asio_world_scheme \<Rightarrow> string option \<times> ('x, 'z) asio_world_scheme" where
  "try_call f k w = (case f (io w) of (Some what, x) \<Rightarrow> (Some what, w\<lparr>io := x\<rparr>) | (None, x) \<Rightarrow> k (w\<lparr>io := x\<rparr>))"

text \<open>The calls both servers make to open their acceptor.\<close>

definition asio_open_acceptor ::
    "('x, 'c) asio \<Rightarrow> tcp_endpoint \<Rightarrow> (('x, 'z) asio_world_scheme \<Rightarrow> string option \<times> ('x, 'z) asio_world_scheme) \<Rightarrow>
     ('x, 'z) asio_world_scheme \<Rightarrow> string option \<times> ('x, 'z) asio_world_scheme" where
  "asio_open_acceptor A endpoint k =
     try_call (asio_acceptor_open A (fst endpoint))
       (try_call (asio_acceptor_reuse_address A True)
         (try_call (asio_acceptor_bind A endpoint)
           (try_call (asio_acceptor_listen A) k)))"

section \<open>Running the handlers\<close>

text \<open>A read that completes has written into its buffer.\<close>

fun deliver :: "asio_request \<Rightarrow> 8 word list \<Rightarrow> ('x, 'z) asio_world_scheme \<Rightarrow> ('x, 'z) asio_world_scheme" where
  "deliver (Async_read_some s buffer n) bytes w =
     w\<lparr>vectors := (vectors w)(buffer := bytes @ drop (length bytes) (vectors w buffer))\<rparr>"
| "deliver _ bytes w = w"

partial_function (option) io_run ::
    "('x, 'c) asio \<Rightarrow> ('c \<Rightarrow> int \<Rightarrow> nat \<Rightarrow> ('x, 'z) asio_world_scheme \<Rightarrow> stop + ('x, 'z) asio_world_scheme) \<Rightarrow>
     ('x, 'z) asio_world_scheme \<Rightarrow> (stop + ('x, 'z) asio_world_scheme) option" where
  "io_run A handler w =
     (case asio_next A (io w) of
        (Waits_forever, x) \<Rightarrow> None
      | (Out_of_work, x) \<Rightarrow> Some (Inr (w\<lparr>io := x\<rparr>))
      | (Ready (request, h) c, x) \<Rightarrow>
          (case handler h (ac_error c) (ac_bytes c) (deliver request (ac_data c) (w\<lparr>io := x\<rparr>)) of
             Inl e \<Rightarrow> Some (Inl e)
           | Inr w' \<Rightarrow> io_run A handler w'))"

text \<open>One handler call, as a step of the program with the completion it was called for.\<close>

inductive io_step ::
    "('x, 'c) asio \<Rightarrow> ('c \<Rightarrow> int \<Rightarrow> nat \<Rightarrow> ('x, 'z) asio_world_scheme \<Rightarrow> stop + ('x, 'z) asio_world_scheme) \<Rightarrow>
     ('c asio_op \<times> asio_completion) list \<times> ('x, 'z) asio_world_scheme \<Rightarrow>
     ('c asio_op \<times> asio_completion) list \<times> ('x, 'z) asio_world_scheme \<Rightarrow> bool"
  for A handler where
  handler_call: "asio_next A (io w) = (Ready (request, h) c, x) \<Longrightarrow>
     handler h (ac_error c) (ac_bytes c) (deliver request (ac_data c) (w\<lparr>io := x\<rparr>)) = Inr w' \<Longrightarrow>
     io_step A handler (tr, w) (tr @ [((request, h), c)], w')"

inductive_cases io_stepE: "io_step A handler s s'"

text \<open>A run that ends has made some handler calls and then found no work, or a handler has stopped it.\<close>

definition io_ends ::
    "('x, 'c) asio \<Rightarrow> ('c \<Rightarrow> int \<Rightarrow> nat \<Rightarrow> ('x, 'z) asio_world_scheme \<Rightarrow> stop + ('x, 'z) asio_world_scheme) \<Rightarrow>
     ('x, 'z) asio_world_scheme \<Rightarrow> stop + ('x, 'z) asio_world_scheme \<Rightarrow> bool" where
  "io_ends A handler w res \<longleftrightarrow>
     (\<exists>x. asio_next A (io w) = (Out_of_work, x) \<and> res = Inr (w\<lparr>io := x\<rparr>)) \<or>
     (\<exists>request h c x e. asio_next A (io w) = (Ready (request, h) c, x) \<and> res = Inl e \<and>
        handler h (ac_error c) (ac_bytes c) (deliver request (ac_data c) (w\<lparr>io := x\<rparr>)) = Inl e)"

lemma io_run_path:
  assumes "io_run A handler w = Some res"
  shows "\<exists>tr' v. (io_step A handler)\<^sup>*\<^sup>* (tr, w) (tr', v) \<and> io_ends A handler v res"
proof -
  have "\<forall>tr. \<exists>tr' v. (io_step A handler)\<^sup>*\<^sup>* (tr, w) (tr', v) \<and> io_ends A handler v res"
  proof (rule io_run.raw_induct [where P = "\<lambda>A handler w res. \<forall>tr. \<exists>tr' v. (io_step A handler)\<^sup>*\<^sup>* (tr, w) (tr', v) \<and> io_ends A handler v res",
        OF _ assms], rule allI)
    fix f A handler w res tr
    assume IH: "\<And>A handler w res. f A handler w = Some res \<Longrightarrow>
        \<forall>tr. \<exists>tr' v. (io_step A handler)\<^sup>*\<^sup>* (tr, w) (tr', v) \<and> io_ends A handler v res"
      and eq: "(case asio_next A (io w) of
          (Waits_forever, x) \<Rightarrow> None
        | (Out_of_work, x) \<Rightarrow> Some (Inr (w\<lparr>io := x\<rparr>))
        | (Ready (request, h) c, x) \<Rightarrow>
            (case handler h (ac_error c) (ac_bytes c) (deliver request (ac_data c) (w\<lparr>io := x\<rparr>)) of
               Inl e \<Rightarrow> Some (Inl e) | Inr w' \<Rightarrow> f A handler w')) = Some res"
    show "\<exists>tr' v. (io_step A handler)\<^sup>*\<^sup>* (tr, w) (tr', v) \<and> io_ends A handler v res"
    proof (cases "\<exists>request h c x w1. asio_next A (io w) = (Ready (request, h) c, x) \<and>
        handler h (ac_error c) (ac_bytes c) (deliver request (ac_data c) (w\<lparr>io := x\<rparr>)) = Inr w1")
      case True
      then obtain request h c x w1 where ready: "asio_next A (io w) = (Ready (request, h) c, x)"
          "handler h (ac_error c) (ac_bytes c) (deliver request (ac_data c) (w\<lparr>io := x\<rparr>)) = Inr w1" by blast
      with eq have "f A handler w1 = Some res" by simp
      from IH [OF this] obtain tr' v where
        "(io_step A handler)\<^sup>*\<^sup>* (tr @ [((request, h), c)], w1) (tr', v)" "io_ends A handler v res" by blast
      with converse_rtranclp_into_rtranclp [of "io_step A handler", OF handler_call [where handler = handler and A = A, OF ready, of tr]]
      show ?thesis by blast
    next
      case False
      with eq have "io_ends A handler w res"
        by (auto simp: io_ends_def split: prod.splits io_event.splits sum.splits) (metis)
      then show ?thesis by blast
    qed
  qed
  then show ?thesis by blast
qed

section \<open>Documented behaviour\<close>

text \<open>
  Seen through \<open>pend\<close>, the operations under way: starting an operation adds it, the other calls leave them
  alone (a \<open>close\<close> makes them fail later), the handler that is called belongs to one of them, which is over
  then, and \<open>run\<close> returns when, and only when, none is left. A successful read has put as many bytes into its buffer as it
  reports, and no more than fit.
\<close>

fun completes :: "asio_request \<Rightarrow> asio_completion \<Rightarrow> bool" where
  "completes (Async_read_some s buffer n) c \<longleftrightarrow> ac_bytes c = length (ac_data c) \<and> ac_bytes c \<le> n"
| "completes _ c \<longleftrightarrow> True"

definition asio_contract :: "('x, 'c) asio \<Rightarrow> ('x \<Rightarrow> 'c asio_op multiset) \<Rightarrow> bool" where
  "asio_contract A pend \<longleftrightarrow>
     (\<forall>p x. pend (asio_start A p x) = add_mset p (pend x)) \<and>
     (\<forall>x request h c x'. asio_next A x = (Ready (request, h) c, x') \<longrightarrow>
        (request, h) \<in># pend x \<and> pend x' = pend x - {#(request, h)#} \<and> completes request c) \<and>
     (\<forall>x x'. asio_next A x = (Out_of_work, x') \<longrightarrow> pend x = {#}) \<and>
     (\<forall>x. pend x = {#} \<longrightarrow> (\<exists>x'. asio_next A x = (Out_of_work, x'))) \<and>
     (\<forall>a x r x'. asio_acceptor_open A a x = (r, x') \<longrightarrow> pend x' = pend x) \<and>
     (\<forall>b x r x'. asio_acceptor_reuse_address A b x = (r, x') \<longrightarrow> pend x' = pend x) \<and>
     (\<forall>e x r x'. asio_acceptor_bind A e x = (r, x') \<longrightarrow> pend x' = pend x) \<and>
     (\<forall>x r x'. asio_acceptor_listen A x = (r, x') \<longrightarrow> pend x' = pend x) \<and>
     (\<forall>a b x r x'. asio_resolve A a b x = (r, x') \<longrightarrow> pend x' = pend x) \<and>
     (\<forall>s x r x'. asio_socket_close A s x = (r, x') \<longrightarrow> pend x' = pend x)"

lemmas asio_start_pend = asio_contract_def [THEN iffD1, THEN conjunct1, rule_format]
lemmas asio_ready = asio_contract_def [THEN iffD1, THEN conjunct2, THEN conjunct1, rule_format]
lemmas asio_out_of_work = asio_contract_def [THEN iffD1, THEN conjunct2, THEN conjunct2, THEN conjunct1, rule_format]
lemmas asio_no_work = asio_contract_def [THEN iffD1, THEN conjunct2, THEN conjunct2, THEN conjunct2, THEN conjunct1, rule_format]
lemmas asio_open_pend = asio_contract_def [THEN iffD1, THEN conjunct2, THEN conjunct2, THEN conjunct2, THEN conjunct2, THEN conjunct1, rule_format]
lemmas asio_reuse_pend = asio_contract_def [THEN iffD1, THEN conjunct2, THEN conjunct2, THEN conjunct2, THEN conjunct2, THEN conjunct2, THEN conjunct1, rule_format]
lemmas asio_bind_pend = asio_contract_def [THEN iffD1, THEN conjunct2, THEN conjunct2, THEN conjunct2, THEN conjunct2, THEN conjunct2, THEN conjunct2, THEN conjunct1, rule_format]
lemmas asio_listen_pend = asio_contract_def [THEN iffD1, THEN conjunct2, THEN conjunct2, THEN conjunct2, THEN conjunct2, THEN conjunct2, THEN conjunct2, THEN conjunct2, THEN conjunct1, rule_format]
lemmas asio_resolve_pend = asio_contract_def [THEN iffD1, THEN conjunct2, THEN conjunct2, THEN conjunct2, THEN conjunct2, THEN conjunct2, THEN conjunct2, THEN conjunct2, THEN conjunct2, THEN conjunct1, rule_format]
lemmas asio_close_pend = asio_contract_def [THEN iffD1, THEN conjunct2, THEN conjunct2, THEN conjunct2, THEN conjunct2, THEN conjunct2, THEN conjunct2, THEN conjunct2, THEN conjunct2, THEN conjunct2, rule_format]

text \<open>Opening an acceptor starts no operation; it either throws or goes on with \<open>k\<close>.\<close>

definition goes_on ::
    "('x \<Rightarrow> 'c asio_op multiset) \<Rightarrow> (('x, 'z) asio_world_scheme \<Rightarrow> string option \<times> ('x, 'z) asio_world_scheme) \<Rightarrow>
     ('x, 'z) asio_world_scheme \<Rightarrow> string option \<times> ('x, 'z) asio_world_scheme \<Rightarrow> bool" where
  "goes_on pend k w res \<longleftrightarrow> (\<exists>x. pend x = pend (io w) \<and> ((\<exists>what. res = (Some what, w\<lparr>io := x\<rparr>)) \<or> res = k (w\<lparr>io := x\<rparr>)))"

lemma goes_on_refl: "goes_on pend k w (k w)"
  unfolding goes_on_def by (rule exI [of _ "io w"]) simp

lemma try_call_goes_on:
  assumes "\<And>x r x'. f x = (r, x') \<Longrightarrow> pend x' = pend x" "\<And>w. goes_on pend k w (j w)"
  shows "goes_on pend k w (try_call f j w)"
proof (cases "f (io w)")
  case (Pair r x)
  with assms(1) [OF this] assms(2) [of "w\<lparr>io := x\<rparr>"] show ?thesis
    by (cases r) (auto simp: try_call_def goes_on_def)
qed

lemma asio_open_acceptor_goes_on:
  assumes "asio_contract A pend"
  shows "goes_on pend k w (asio_open_acceptor A e k w)"
  unfolding asio_open_acceptor_def
  by (intro try_call_goes_on goes_on_refl)
     (erule asio_open_pend [OF assms] asio_reuse_pend [OF assms] asio_bind_pend [OF assms] asio_listen_pend [OF assms])+

lemma io_run_no_work:
  assumes "asio_contract A pend" "pend (io w) = {#}"
  obtains x where "io_run A handler w = Some (Inr (w\<lparr>io := x\<rparr>))"
  using asio_no_work [OF assms] by (auto simp: io_run.simps [of A handler w])

section \<open>Programs on Asio\<close>

text \<open>
  The contract between \<open>io_context::run\<close> and a program: its invariant \<open>J\<close>, on the completions so far and the
  state, survives every handler call for an operation under way. Then it holds after every number of
  calls, and whatever ends the run is a handler's doing or lack of work.
\<close>

locale asio_program =
  fixes A :: "('x, 'c) asio" and pend :: "'x \<Rightarrow> 'c asio_op multiset"
    and handler :: "'c \<Rightarrow> int \<Rightarrow> nat \<Rightarrow> ('x, 'z) asio_world_scheme \<Rightarrow> stop + ('x, 'z) asio_world_scheme"
    and J :: "('c asio_op \<times> asio_completion) list \<times> ('x, 'z) asio_world_scheme \<Rightarrow> bool"
  assumes contract: "J s \<Longrightarrow> asio_contract A pend"
    and handler_inv: "J (tr, w) \<Longrightarrow> (request, h) \<in># pend (io w) \<Longrightarrow> pend x = pend (io w) - {#(request, h)#} \<Longrightarrow>
      completes request c \<Longrightarrow> handler h (ac_error c) (ac_bytes c) (deliver request (ac_data c) (w\<lparr>io := x\<rparr>)) = Inr w' \<Longrightarrow>
      J (tr @ [((request, h), c)], w')"
begin

lemma io_step_inv: "J s \<Longrightarrow> io_step A handler s s' \<Longrightarrow> J s'"
  by (auto elim!: io_stepE intro: handler_inv dest: asio_ready [OF contract, rotated])

sublocale calls: step_invariant "io_step A handler" J
  by unfold_locales (rule io_step_inv)

text \<open>When \<open>run\<close> comes back, no operation is under way.\<close>

lemma io_run_result:
  assumes "io_run A handler w = Some res" "J (tr, w)"
  shows "case res of
      Inr w' \<Rightarrow> \<exists>tr' v x. (io_step A handler)\<^sup>*\<^sup>* (tr, w) (tr', v) \<and> J (tr', v) \<and> w' = v\<lparr>io := x\<rparr> \<and> pend (io v) = {#}
    | Inl e \<Rightarrow> \<exists>tr' v request h c x. (io_step A handler)\<^sup>*\<^sup>* (tr, w) (tr', v) \<and> J (tr', v) \<and> (request, h) \<in># pend (io v) \<and>
        completes request c \<and> pend x = pend (io v) - {#(request, h)#} \<and>
        handler h (ac_error c) (ac_bytes c) (deliver request (ac_data c) (v\<lparr>io := x\<rparr>)) = Inl e"
proof -
  obtain tr' v where v: "(io_step A handler)\<^sup>*\<^sup>* (tr, w) (tr', v)" "io_ends A handler v res"
    using io_run_path [OF assms(1)] by blast
  note inv = calls.run_inv [OF v(1) assms(2)]
  from v(2) show ?thesis
    unfolding io_ends_def
  proof (elim disjE exE conjE)
    fix x assume "asio_next A (io v) = (Out_of_work, x)" "res = Inr (v\<lparr>io := x\<rparr>)"
    with v(1) inv show ?thesis using asio_out_of_work [OF contract [OF inv]] by auto
  next
    fix request h c x e
    assume ready: "asio_next A (io v) = (Ready (request, h) c, x)" and res: "res = Inl e"
      and stop: "handler h (ac_error c) (ac_bytes c) (deliver request (ac_data c) (v\<lparr>io := x\<rparr>)) = Inl e"
    from asio_ready [OF contract [OF inv] ready] v(1) inv stop show ?thesis unfolding res sum.case by metis
  qed
qed

lemma io_run_stop:
  assumes "io_run A handler w = Some (Inl e)" "J (tr, w)"
  obtains tr' v request h c x where "(io_step A handler)\<^sup>*\<^sup>* (tr, w) (tr', v)" "J (tr', v)" "(request, h) \<in># pend (io v)"
    "completes request c" "pend x = pend (io v) - {#(request, h)#}"
    "handler h (ac_error c) (ac_bytes c) (deliver request (ac_data c) (v\<lparr>io := x\<rparr>)) = Inl e"
  using io_run_result [OF assms] unfolding sum.case by (elim exE conjE) (rule that)

lemma io_run_return:
  assumes "io_run A handler w = Some (Inr w')" "J (tr, w)"
  obtains tr' v x where "(io_step A handler)\<^sup>*\<^sup>* (tr, w) (tr', v)" "J (tr', v)" "w' = v\<lparr>io := x\<rparr>" "pend (io v) = {#}"
  using io_run_result [OF assms] unfolding sum.case by (elim exE conjE) (rule that)

end

section \<open>An Asio for the instances\<close>

text \<open>
  A scripted environment that behaves as the contract says: its state is the operations under way, oldest
  first, and the completions to come, each with the place of its operation. It is not a model of Asio.
\<close>

type_synonym 'c script = "'c asio_op list \<times> (nat \<times> asio_completion) list"

fun ref_asio_next :: "'c script \<Rightarrow> 'c io_event \<times> 'c script" where
  "ref_asio_next (ops, cs) =
     (if ops = [] then (Out_of_work, (ops, cs))
      else case cs of [] \<Rightarrow> (Waits_forever, (ops, cs))
       | (i, c) # cs' \<Rightarrow>
           if i < length ops \<and> completes (fst (ops ! i)) c then (Ready (ops ! i) c, (take i ops @ drop (Suc i) ops, cs'))
           else (Waits_forever, (ops, cs)))"

definition ref_asio :: "('c script, 'c) asio" where
  "ref_asio = \<lparr>asio_make_address = (\<lambda>_. Inr (V4 0x7F000001)), asio_acceptor_open = (\<lambda>_ x. (None, x)),
     asio_acceptor_reuse_address = (\<lambda>_ x. (None, x)), asio_acceptor_bind = (\<lambda>_ x. (None, x)), asio_acceptor_listen = (\<lambda>x. (None, x)),
     asio_resolve = (\<lambda>_ _ x. (Inr [(V4 0x7F000001, 6789)], x)), asio_socket_close = (\<lambda>_ x. (None, x)),
     asio_start = (\<lambda>p (ops, cs). (ops @ [p], cs)), asio_next = ref_asio_next, asio_message = (\<lambda>n. ''error '' @ show_int n)\<rparr>"

lemma mset_remove_nth: "i < length xs \<Longrightarrow> mset (take i xs @ drop (Suc i) xs) = mset xs - {#xs ! i#}"
proof -
  assume "i < length xs"
  then have "mset xs = mset (take i xs @ xs ! i # drop (Suc i) xs)" by (simp only: id_take_nth_drop [symmetric])
  then show ?thesis by simp
qed

lemma ref_asio_contract: "asio_contract ref_asio (\<lambda>x :: 'c script. mset (fst x))"
proof -
  have ready: "(request, h) \<in># mset (fst x) \<and> mset (fst x') = mset (fst x) - {#(request, h)#} \<and> completes request c"
    if "ref_asio_next x = (Ready (request, h) c, x')" for x request h c x'
    using that mset_remove_nth nth_mem
    by (cases x) (fastforce split: if_splits list.splits prod.splits)
  have done_: "fst x = [] \<longleftrightarrow> (\<exists>x'. ref_asio_next x = (Out_of_work, x'))" for x :: "'c script"
    by (cases x) (auto split: if_splits list.splits)
  show ?thesis
    unfolding asio_contract_def
  proof (intro conjI allI impI)
    fix x request h c and x' :: "'c script"
    assume "asio_next ref_asio x = (Ready (request, h) c, x')"
    then have "ref_asio_next x = (Ready (request, h) c, x')" by (simp add: ref_asio_def)
    from ready [OF this] show "(request, h) \<in># mset (fst x)" "mset (fst x') = mset (fst x) - {#(request, h)#}" "completes request c" by blast+
  qed (use done_ in \<open>auto simp: ref_asio_def split: prod.splits\<close>)
qed

text \<open>The first \<open>n\<close> handler calls, for instances.\<close>

fun io_calls ::
    "('x, 'c) asio \<Rightarrow> ('c \<Rightarrow> int \<Rightarrow> nat \<Rightarrow> ('x, 'z) asio_world_scheme \<Rightarrow> stop + ('x, 'z) asio_world_scheme) \<Rightarrow> nat \<Rightarrow>
     ('c asio_op \<times> asio_completion) list \<times> ('x, 'z) asio_world_scheme \<Rightarrow>
     (('c asio_op \<times> asio_completion) list \<times> ('x, 'z) asio_world_scheme) option" where
  "io_calls A handler 0 s = Some s"
| "io_calls A handler (Suc n) (tr, w) =
     (case asio_next A (io w) of
        (Ready (request, h) c, x) \<Rightarrow>
          (case handler h (ac_error c) (ac_bytes c) (deliver request (ac_data c) (w\<lparr>io := x\<rparr>)) of
             Inr w' \<Rightarrow> io_calls A handler n (tr @ [((request, h), c)], w')
           | Inl e \<Rightarrow> None)
      | _ \<Rightarrow> None)"

lemma io_calls_steps: "io_calls A handler n s = Some s' \<Longrightarrow> (io_step A handler)\<^sup>*\<^sup>* s s'"
proof (induction A handler n s rule: io_calls.induct)
  case (2 A handler n tr w)
  then obtain request h c x w1 where next_call: "asio_next A (io w) = (Ready (request, h) c, x)"
      "handler h (ac_error c) (ac_bytes c) (deliver request (ac_data c) (w\<lparr>io := x\<rparr>)) = Inr w1"
      "io_calls A handler n (tr @ [((request, h), c)], w1) = Some s'"
    by (auto split: prod.splits io_event.splits sum.splits)
  from 2 have "(io_step A handler)\<^sup>*\<^sup>* (tr @ [((request, h), c)], w1) s'" using next_call by simp
  then show ?case by (rule converse_rtranclp_into_rtranclp [of "io_step A handler",
      OF handler_call [where handler = handler and A = A, OF next_call(1,2), of tr]])
qed simp

end
