(* ===== verification/Asio_Reader.thy ===== *)
theory Asio_Reader
  imports Asio_Env Command_Line
begin

text \<open>
  \<open>app/samples/benchmarks/*/asio_impl/asioTcpReaderServer.*\<close> and \<open>asioTcpReader.cpp\<close>: the throughput reader on Asio.
  Its lambdas are the constructors of \<open>areader_closure\<close>, with what they capture.
\<close>

section \<open>State and operations\<close>

datatype areader_closure = AReader_accept ptr | AReader_read ptr

text \<open>The members; the one read buffer is shared by all clients, whose data nobody looks at.\<close>

record 'x asio_reader = "'x asio_world" +
  areader_buffer :: ptr
  areader_target :: "64 word"
  areader_received :: "64 word"

definition new_AsioTcpReader :: "64 word \<Rightarrow> 'x asio_reader \<Rightarrow> 'x asio_reader" where
  "new_AsioTcpReader target w =
     (case make_shared_vector (replicate 4096 0) w of (b, w1) \<Rightarrow>
        w1\<lparr>areader_buffer := b, areader_target := target, areader_received := 0\<rparr>)"

definition areader_start_accept :: "('x, areader_closure) asio \<Rightarrow> 'x asio_reader \<Rightarrow> 'x asio_reader" where
  "areader_start_accept A w =
     (case make_shared_socket w of (socket, w1) \<Rightarrow> asio_begin A (Async_accept socket) (AReader_accept socket) w1)"

definition areader_listen :: "('x, areader_closure) asio \<Rightarrow> string \<Rightarrow> 16 word \<Rightarrow> 'x asio_reader \<Rightarrow> 'x asio_reader" where
  "areader_listen A listening_address listening_port w =
     (case (case asio_make_address A listening_address of
              Inl what \<Rightarrow> (Some what, w)
            | Inr ip \<Rightarrow> asio_open_acceptor A (ip, listening_port) (\<lambda>w1. (None,
                areader_start_accept A (asio_log (''TcpReader: Listening on '' @ listening_address @ '':'' @ show_nat (unat listening_port)) w1))) w) of
        (None, w1) \<Rightarrow> w1
      | (Some what, w1) \<Rightarrow> asio_log_error (''TcpReader: Could not listen to '' @ listening_address @ '':'' @
            show_nat (unat listening_port) @ '' - '' @ what) w1)"

definition areader_read :: "('x, areader_closure) asio \<Rightarrow> ptr \<Rightarrow> 'x asio_reader \<Rightarrow> 'x asio_reader" where
  "areader_read A socket w =
     asio_begin A (Async_read_some socket (areader_buffer w) (length (vectors w (areader_buffer w)))) (AReader_read socket) w"

definition areader_handle_accept :: "('x, areader_closure) asio \<Rightarrow> ptr \<Rightarrow> int \<Rightarrow> 'x asio_reader \<Rightarrow> 'x asio_reader" where
  "areader_handle_accept A socket error w =
     areader_start_accept A
       (if error = 0 then areader_read A socket (asio_log ''TcpReader: Received client connection request'' w)
        else asio_log_error (''TcpReader: Accept error: '' @ asio_message A error) w)"

definition areader_printResults :: "'x asio_reader \<Rightarrow> 'x asio_reader" where
  "areader_printResults w = asio_log (''TcpReader: Received '' @ show_nat (unat (areader_received w)) @ '' bytes'') w"

definition areader_handle_read :: "('x, areader_closure) asio \<Rightarrow> ptr \<Rightarrow> int \<Rightarrow> nat \<Rightarrow> 'x asio_reader \<Rightarrow> stop + 'x asio_reader" where
  "areader_handle_read A socket error received_bytes_count w =
     (if error = 0 then
        let w1 = w\<lparr>areader_received := areader_received w + word_of_nat received_bytes_count\<rparr> in
        if areader_target w1 \<le> areader_received w1 then
          let w2 = areader_printResults w1 in
          (case asio_socket_close A socket (io w2) of
             (Some what, _) \<Rightarrow> Inl (RuntimeError what)
           | (None, _) \<Rightarrow> Inl (ExitProcess 0 (asio_cout w2)))
        else Inr (areader_read A socket w1)
      else Inr (asio_log_error (''TcpReader: Read error: '' @ asio_message A error) w))"

fun areader_handler :: "('x, areader_closure) asio \<Rightarrow> areader_closure \<Rightarrow> int \<Rightarrow> nat \<Rightarrow> 'x asio_reader \<Rightarrow> stop + 'x asio_reader" where
  "areader_handler A (AReader_accept socket) error n w = Inr (areader_handle_accept A socket error w)"
| "areader_handler A (AReader_read socket) error n w = areader_handle_read A socket error n w"

text \<open>\<open>main\<close>; the objects of the process come into being with the \<open>io_context\<close> \<open>x\<close>.\<close>

definition areader_before :: "'x \<Rightarrow> 'x asio_reader" where
  "areader_before x = \<lparr>io = x, asio_cout = [], asio_cerr = [], heap_next = 1, vectors = (\<lambda>_. []), areader_buffer = nullptr,
     areader_target = 0, areader_received = 0\<rparr>"

definition asioTcpReader_main ::
    "'r cxxopts \<Rightarrow> ('x, areader_closure) asio \<Rightarrow> string list \<Rightarrow> 'x \<Rightarrow> (stop + 'x asio_reader) option" where
  "asioTcpReader_main C A argv x =
     process
       (bindE (new_ReaderCLI C argv) (\<lambda>cli.
        bindE (ReaderCLI_bytes_count C cli) (\<lambda>bytes_count.
        let w = new_AsioTcpReader bytes_count (areader_before x) in
        bindE (ReaderCLI_port C cli) (\<lambda>port. Inr (areader_listen A ReaderCLI_address port w)))))
       (io_run A (areader_handler A))"

section \<open>The invariant\<close>

text \<open>
  The operations under way are one accept, on a socket not used before, and one read for each of a set of
  clients, into the reader's buffer.
\<close>

definition areader_read_op :: "ptr \<Rightarrow> ptr \<Rightarrow> areader_closure asio_op" where
  "areader_read_op buffer s = (Async_read_some s buffer 4096, AReader_read s)"

definition areader_ops :: "ptr \<Rightarrow> ptr \<Rightarrow> ptr set \<Rightarrow> areader_closure asio_op multiset" where
  "areader_ops buffer a clients = add_mset (Async_accept a, AReader_accept a) (image_mset (areader_read_op buffer) (mset_set clients))"

text \<open>The bytes of the reads completed so far.\<close>

definition read_bytes :: "(areader_closure asio_op \<times> asio_completion) list \<Rightarrow> nat" where
  "read_bytes tr = (\<Sum>((_, h), c)\<leftarrow>tr. case h of AReader_read _ \<Rightarrow> if ac_error c = 0 then ac_bytes c else 0 | _ \<Rightarrow> 0)"

definition areader_inv ::
    "('x, areader_closure) asio \<Rightarrow> ('x \<Rightarrow> areader_closure asio_op multiset) \<Rightarrow> 64 word \<Rightarrow> (areader_closure asio_op \<times> asio_completion) list \<times> 'x asio_reader \<Rightarrow> bool" where
  "areader_inv A pend target = (\<lambda>(tr, w). asio_contract A pend \<and>
     (\<exists>a clients. finite clients \<and> a \<notin> clients \<and> a < heap_next w \<and> (\<forall>s \<in> clients. s < heap_next w) \<and>
        pend (io w) = areader_ops (areader_buffer w) a clients) \<and>
     length (vectors w (areader_buffer w)) = 4096 \<and> areader_target w = target \<and>
     areader_received w = word_of_nat (read_bytes tr))"

lemma read_bytes_append [simp]: "read_bytes (tr @ tr') = read_bytes tr + read_bytes tr'"
  by (simp add: read_bytes_def)

lemma read_bytes_simps [simp]:
  "read_bytes [] = 0"
  "read_bytes [((r, AReader_accept s), c)] = 0"
  "read_bytes [((r, AReader_read s), c)] = (if ac_error c = 0 then ac_bytes c else 0)"
  by (simp_all add: read_bytes_def)

lemma areader_ops_member:
  assumes "(request, h) \<in># areader_ops b a clients" "finite clients"
  shows "request = Async_accept a \<and> h = AReader_accept a \<or>
    (\<exists>s \<in> clients. request = Async_read_some s b 4096 \<and> h = AReader_read s)"
  using assms by (auto simp: areader_ops_def areader_read_op_def)

lemma areader_ops_remove:
  "areader_ops b a clients - {#(Async_accept a, AReader_accept a)#} = image_mset (areader_read_op b) (mset_set clients)"
  "finite clients \<Longrightarrow> s \<in> clients \<Longrightarrow>
   areader_ops b a clients - {#(Async_read_some s b 4096, AReader_read s)#} = areader_ops b a (clients - {s})"
proof -
  show "areader_ops b a clients - {#(Async_accept a, AReader_accept a)#} = image_mset (areader_read_op b) (mset_set clients)"
    by (simp add: areader_ops_def)
  assume c: "finite clients" "s \<in> clients"
  then have "mset_set clients = add_mset s (mset_set (clients - {s}))" by (simp add: mset_set.remove)
  then show "areader_ops b a clients - {#(Async_read_some s b 4096, AReader_read s)#} = areader_ops b a (clients - {s})"
    by (simp add: areader_ops_def areader_read_op_def)
qed

lemma areader_accept_inv:
  assumes "areader_inv A pend target (tr, w)" "pend (io w) = areader_ops (areader_buffer w) a clients" "finite clients" "a \<notin> clients"
    "a < heap_next w" "\<forall>s \<in> clients. s < heap_next w" "pend x = image_mset (areader_read_op (areader_buffer w)) (mset_set clients)"
  shows "areader_inv A pend target (tr @ [((r, AReader_accept a), c)], areader_handle_accept A a (ac_error c) (w\<lparr>io := x\<rparr>))"
proof -
  have inv: "asio_contract A pend" "length (vectors w (areader_buffer w)) = 4096" "areader_target w = target"
      "areader_received w = word_of_nat (read_bytes tr)"
    using assms(1) by (simp_all add: areader_inv_def)
  let ?clients = "if ac_error c = 0 then insert a clients else clients"
  let ?w = "areader_handle_accept A a (ac_error c) (w\<lparr>io := x\<rparr>)"
  have "pend (io ?w) = areader_ops (areader_buffer ?w) (heap_next w) ?clients"
    using assms(3,4,7) inv(2)
    by (simp add: areader_handle_accept_def areader_start_accept_def make_shared_socket_def asio_begin_def areader_read_def
        asio_log_def asio_log_error_def asio_start_pend [OF inv(1)] areader_ops_def areader_read_op_def)
  moreover have "heap_next ?w = heap_next w + 1" "vectors ?w = vectors w" "areader_buffer ?w = areader_buffer w"
      "areader_target ?w = areader_target w" "areader_received ?w = areader_received w"
    by (simp_all add: areader_handle_accept_def areader_start_accept_def make_shared_socket_def asio_begin_def areader_read_def
        asio_log_def asio_log_error_def)
  ultimately show ?thesis
    using assms(3-6) inv by (auto simp: areader_inv_def intro!: exI [of _ "heap_next w"] exI [of _ ?clients] intro: less_SucI)
qed

lemma areader_read_inv:
  assumes "areader_inv A pend target (tr, w)" "pend (io w) = areader_ops (areader_buffer w) a clients" "finite clients" "a \<notin> clients"
    "a < heap_next w" "\<forall>s \<in> clients. s < heap_next w" "s \<in> clients" "pend x = areader_ops (areader_buffer w) a (clients - {s})"
    "ac_bytes c = length (ac_data c)" "ac_bytes c \<le> 4096"
    "areader_handle_read A s (ac_error c) (ac_bytes c) (deliver (Async_read_some s (areader_buffer w) 4096) (ac_data c) (w\<lparr>io := x\<rparr>)) = Inr w'"
  shows "areader_inv A pend target (tr @ [((r, AReader_read s), c)], w')"
proof -
  have inv: "asio_contract A pend" "length (vectors w (areader_buffer w)) = 4096" "areader_target w = target"
      "areader_received w = word_of_nat (read_bytes tr)"
    using assms(1) by (simp_all add: areader_inv_def)
  let ?clients = "if ac_error c = 0 then clients else clients - {s}"
  have eq: "heap_next w' = heap_next w" "areader_buffer w' = areader_buffer w" "areader_target w' = target"
      "length (vectors w' (areader_buffer w)) = 4096" "areader_received w' = word_of_nat (read_bytes (tr @ [((r, AReader_read s), c)]))"
    using assms(9-11) inv
    by (auto simp: areader_handle_read_def areader_printResults_def asio_log_def asio_log_error_def areader_read_def asio_begin_def
        Let_def split: if_splits prod.splits option.splits)
  have "mset_set clients = add_mset s (mset_set (clients - {s}))" using assms(3,7) by (simp add: mset_set.remove)
  then have "pend (io w') = areader_ops (areader_buffer w') a ?clients"
    using assms(8-11) inv
    by (auto simp: areader_handle_read_def areader_printResults_def asio_log_def asio_log_error_def areader_read_def asio_begin_def
        Let_def asio_start_pend [OF inv(1)] areader_ops_def areader_read_op_def split: if_splits prod.splits option.splits)
  with eq assms(3-6) inv(1) show ?thesis
    by (auto simp: areader_inv_def intro!: exI [of _ a] exI [of _ ?clients])
qed

interpretation areader: asio_program A pend "areader_handler A" "areader_inv A pend target" for A pend target
proof unfold_locales
  fix tr and w :: "'a asio_reader" and request h x c w'
  assume inv: "areader_inv A pend target (tr, w)" and p: "(request, h) \<in># pend (io w)" and x: "pend x = pend (io w) - {#(request, h)#}"
    and c: "completes request c"
    and w': "areader_handler A h (ac_error c) (ac_bytes c) (deliver request (ac_data c) (w\<lparr>io := x\<rparr>)) = Inr w'"
  obtain a clients where ops: "pend (io w) = areader_ops (areader_buffer w) a clients" "finite clients" "a \<notin> clients" "a < heap_next w"
      "\<forall>s \<in> clients. s < heap_next w"
    using inv by (auto simp: areader_inv_def)
  from areader_ops_member [OF p [unfolded ops(1)] ops(2)] show "areader_inv A pend target (tr @ [((request, h), c)], w')"
  proof
    assume r: "request = Async_accept a \<and> h = AReader_accept a"
    then show ?thesis using areader_accept_inv [OF inv ops, of x request c] w' x ops(1) by (auto simp: areader_ops_remove(1))
  next
    assume "\<exists>s \<in> clients. request = Async_read_some s (areader_buffer w) 4096 \<and> h = AReader_read s"
    then obtain s where s: "s \<in> clients" "request = Async_read_some s (areader_buffer w) 4096" "h = AReader_read s" by blast
    show ?thesis
      using areader_read_inv [OF inv ops s(1)] w' x c ops(1) by (simp add: s(2,3) areader_ops_remove(2) [OF ops(2) s(1)])
  qed
qed (auto simp: areader_inv_def)

section \<open>From main on\<close>

abbreviation areader_set_up :: "('x, areader_closure) asio \<Rightarrow> 16 word \<Rightarrow> 64 word \<Rightarrow> 'x \<Rightarrow> 'x asio_reader" where
  "areader_set_up A port target x \<equiv> areader_listen A ReaderCLI_address port (new_AsioTcpReader target (areader_before x))"

definition areader_refusal :: "16 word \<Rightarrow> string \<Rightarrow> string" where
  "areader_refusal port what = ''TcpReader: Could not listen to '' @ ReaderCLI_address @ '':'' @ show_nat (unat port) @ '' - '' @ what @ newline"

lemma areader_set_up_cases:
  assumes "asio_contract A pend" "pend x = {#}"
  shows "(\<exists>what. asio_cerr (areader_set_up A port target x) = areader_refusal port what) \<and> pend (io (areader_set_up A port target x)) = {#} \<or>
    areader_inv A pend target ([], areader_set_up A port target x)"
proof -
  let ?w = "new_AsioTcpReader target (areader_before x)"
  let ?k = "\<lambda>w1. (None :: string option,
      areader_start_accept A (asio_log (''TcpReader: Listening on '' @ ReaderCLI_address @ '':'' @ show_nat (unat port)) w1))"
  have w: "pend (io ?w) = {#}" "asio_cerr ?w = []" "length (vectors ?w (areader_buffer ?w)) = 4096" "areader_target ?w = target"
      "areader_received ?w = 0"
    using assms(2) by (simp_all add: new_AsioTcpReader_def make_shared_vector_def areader_before_def)
  show ?thesis
  proof (cases "asio_make_address A ReaderCLI_address")
    case (Inl what)
    then show ?thesis using w by (auto simp: areader_listen_def asio_log_error_def areader_refusal_def)
  next
    case (Inr ip)
    have open_: "goes_on pend ?k ?w (asio_open_acceptor A (ip, port) ?k ?w)" by (rule asio_open_acceptor_goes_on [OF assms(1)])
    then obtain y where y: "pend y = {#}" "(\<exists>what. asio_open_acceptor A (ip, port) ?k ?w = (Some what, ?w\<lparr>io := y\<rparr>)) \<or>
        asio_open_acceptor A (ip, port) ?k ?w = ?k (?w\<lparr>io := y\<rparr>)"
      using w(1) by (auto simp: goes_on_def)
    from y(2) show ?thesis
    proof
      assume "\<exists>what. asio_open_acceptor A (ip, port) ?k ?w = (Some what, ?w\<lparr>io := y\<rparr>)"
      then show ?thesis using Inr y(1) w(2) by (auto simp: areader_listen_def asio_log_error_def areader_refusal_def simp del: append_Cons)
    next
      assume "asio_open_acceptor A (ip, port) ?k ?w = ?k (?w\<lparr>io := y\<rparr>)"
      then have eq: "areader_set_up A port target x = snd (?k (?w\<lparr>io := y\<rparr>))"
        using Inr by (simp add: areader_listen_def del: append.simps)
      have "areader_inv A pend target ([], snd (?k (?w\<lparr>io := y\<rparr>)))"
        using w(3-5) assms(1) y(1)
        by (auto simp: areader_inv_def areader_start_accept_def make_shared_socket_def asio_begin_def asio_log_def
            asio_start_pend [OF assms(1)] areader_ops_def intro!: exI [of _ "heap_next ?w"] exI [of _ "{}"] simp del: append.simps)
      then show ?thesis unfolding eq by blast
    qed
  qed
qed

text \<open>What stops the reader: the handler of a read, when enough bytes have come.\<close>

lemma areader_stop:
  assumes "areader_inv A pend target (tr, v)" "(request, h) \<in># pend (io v)"
    "areader_handler A h (ac_error c) (ac_bytes c) (deliver request (ac_data c) (v\<lparr>io := x\<rparr>)) = Inl e"
  shows "(\<exists>what. e = RuntimeError what) \<or>
    (\<exists>s out n. h = AReader_read s \<and> ac_error c = 0 \<and> n = read_bytes tr + ac_bytes c \<and> target \<le> word_of_nat n \<and>
       e = ExitProcess 0 (out @ ''TcpReader: Received '' @ show_nat (unat (word_of_nat n :: 64 word)) @ '' bytes'' @ newline))"
proof -
  obtain s where s: "h = AReader_read s" using assms(3) by (cases h) auto
  have inv: "areader_target v = target" "areader_received v = word_of_nat (read_bytes tr)" using assms(1) by (simp_all add: areader_inv_def)
  have "areader_received (deliver request (ac_data c) (v\<lparr>io := x\<rparr>)) = areader_received v"
    "areader_target (deliver request (ac_data c) (v\<lparr>io := x\<rparr>)) = areader_target v"
    by (cases request; simp)+
  then show ?thesis
    using assms(3) inv unfolding s
    by (auto simp: areader_handle_read_def areader_printResults_def asio_log_def Let_def simp del: append.simps
        split: if_splits prod.splits option.splits)
qed

text \<open>The exit of the reader, for the reads completed so far.\<close>

definition areader_exit ::
    "('x, areader_closure) asio \<Rightarrow> ('x \<Rightarrow> areader_closure asio_op multiset) \<Rightarrow> 64 word \<Rightarrow> 'x asio_reader \<Rightarrow> stop \<Rightarrow> bool" where
  "areader_exit A pend target w e \<longleftrightarrow>
     (\<exists>tr v request s c out n. (io_step A (areader_handler A))\<^sup>*\<^sup>* ([], w) (tr, v) \<and> (request, AReader_read s) \<in># pend (io v) \<and>
        n = read_bytes (tr @ [((request, AReader_read s), c)]) \<and> target \<le> word_of_nat n \<and>
        e = ExitProcess 0 (out @ ''TcpReader: Received '' @ show_nat (unat (word_of_nat n :: 64 word)) @ '' bytes'' @ newline))"

lemma areader_run_result:
  assumes "io_run A (areader_handler A) w = Some res" "areader_inv A pend target ([], w)"
  shows "\<exists>e. res = Inl e \<and> ((\<exists>what. e = RuntimeError what) \<or> areader_exit A pend target w e)"
proof (cases res)
  case (Inr w')
  obtain tr v where "areader_inv A pend target (tr, v)" "pend (io v) = {#}"
    by (rule areader.io_run_return [OF assms(1) [unfolded Inr] assms(2)])
  then show ?thesis by (auto simp: areader_inv_def areader_ops_def)
next
  case (Inl e)
  obtain tr v request h y and c :: asio_completion where stop: "(io_step A (areader_handler A))\<^sup>*\<^sup>* ([], w) (tr, v)" "areader_inv A pend target (tr, v)"
      "(request, h) \<in># pend (io v)"
      "areader_handler A h (ac_error c) (ac_bytes c) (deliver request (ac_data c) (v\<lparr>io := y\<rparr>)) = Inl e"
    by (rule areader.io_run_stop [OF assms(1) [unfolded Inl] assms(2)])
  from areader_stop [OF stop(2-4)] show ?thesis
  proof (elim disjE exE conjE)
    fix s out n
    assume h: "h = AReader_read s" "ac_error c = 0" "n = read_bytes tr + ac_bytes c" "target \<le> word_of_nat n"
      "e = ExitProcess 0 (out @ ''TcpReader: Received '' @ show_nat (unat (word_of_nat n :: 64 word)) @ '' bytes'' @ newline)"
    then have "n = read_bytes (tr @ [((request, AReader_read s), c)])" by simp
    with h stop(1,3) have "areader_exit A pend target w e" unfolding areader_exit_def by blast
    with Inl show ?thesis by blast
  qed (use Inl in simp)
qed

section \<open>Properties of the reader on Asio\<close>


text \<open>A reader that is to receive ten bytes; one client connects and sends twelve.\<close>

definition areader_script :: "areader_closure script" where
  "areader_script = ([], [(0, \<lparr>ac_error = 0, ac_bytes = 0, ac_data = []\<rparr>), (0, \<lparr>ac_error = 0, ac_bytes = 12, ac_data = replicate 12 65\<rparr>)])"

lemma areader_sample_cli:
  obtains cli where "new_ReaderCLI ref_cxxopts [''tcp-reader'', ''--bytes_count=10''] = Inr cli"
    "ReaderCLI_bytes_count ref_cxxopts cli = Inr 10" "ReaderCLI_port ref_cxxopts cli = Inr 6789"
proof -
  let ?cli = "([(''bytes_count'', ''10'')], [(''port'', show_nat 6789), (''bytes_count'', show_nat 10000000000), (''clients_count'', show_nat 10), (''help'', [])])"
  have ten: "read_nat ''10'' = Some 10" by (simp add: read_nat_def is_digit_def digits_value_def)
  have "new_ReaderCLI ref_cxxopts [''tcp-reader'', ''--bytes_count=10''] = Inr ?cli"
    by (simp add: new_ReaderCLI_def parse_or_help_def ref_cxxopts_def ref_parse_def split_argument_def Let_def ReaderCLI_options_def
        long_name_def value_ok_def ten help_option_def Reader_DEFAULT_PORT_def Reader_DEFAULT_BYTES_COUNT_def Reader_DEFAULT_CLIENTS_COUNT_def)
  moreover have "ReaderCLI_bytes_count ref_cxxopts ?cli = Inr 10" "ReaderCLI_port ref_cxxopts ?cli = Inr 6789"
    by (simp_all add: cli_accessor_defs ref_cxxopts_def ref_value_def ten map_add_def)
  ultimately show thesis by (rule that)
qed

lemma areader_sample_run:
  "\<exists>e. io_run ref_asio (areader_handler ref_asio) (areader_set_up ref_asio 6789 10 areader_script) = Some (Inl e) \<and> noexceptE (Inl e :: stop + unit) \<noteq> Inl Terminate"
  by (simp add: io_run.simps areader_script_def ref_asio_def areader_listen_def new_AsioTcpReader_def areader_before_def make_shared_vector_def
      asio_open_acceptor_def try_call_def areader_start_accept_def make_shared_socket_def asio_begin_def asio_log_def
      areader_handle_accept_def areader_read_def areader_handle_read_def areader_printResults_def Let_def noexceptE_def)


end
