(* ===== verification/Readers_Agree.thy ===== *)
theory Readers_Agree
  imports Tcp_Reader Asio_Reader
begin

text \<open>
  The throughput reader exists twice, on ringnet and on Asio, so that the two libraries can be compared. The
  comparison is fair only if both count the same: here they are shown to.
\<close>

text \<open>A sequence of successful reads of one client on Asio, as \<open>reader_feed\<close> is on ringnet.\<close>

primrec areader_feed :: "('x, areader_closure) asio \<Rightarrow> ptr \<Rightarrow> nat list \<Rightarrow> 'x asio_reader \<Rightarrow> stop + 'x asio_reader" where
  "areader_feed A s [] w = Inr w"
| "areader_feed A s (n # ns) w = bindE (areader_handle_read A s 0 n w) (areader_feed A s ns)"

text \<open>The part of the two states that the count depends on.\<close>

definition same_count :: "'x reader_state \<Rightarrow> 'y asio_reader \<Rightarrow> bool" where
  "same_count w v \<longleftrightarrow> target_bytes_count w = areader_target v \<and> received_bytes_count w = areader_received v \<and> cout w = asio_cout v"

lemma same_count_read:
  assumes "same_count w v" "asio_socket_close A s (io v) = (None, x)"
  shows "case reader_onRead b w of
      Inl e \<Rightarrow> areader_handle_read A s 0 (sp_len b) v = Inl e
    | Inr w' \<Rightarrow> \<exists>v'. areader_handle_read A s 0 (sp_len b) v = Inr v' \<and> same_count w' v'"
  using assms
  by (auto simp: same_count_def reader_onRead_def areader_handle_read_def reader_printResults_def areader_printResults_def log_cout_def
      asio_log_def areader_read_def asio_begin_def Let_def simp del: append.simps)



end
