(* ===== verification/Asio_Echo.thy ===== *)
theory Asio_Echo
  imports Asio_Env Command_Line "HOL-Library.Sublist" "HOL-Library.Signed_Division"
begin

text \<open>
  \<open>app/samples/benchmarks/*/asio_impl/asioEcho{Server,Client}.*\<close> and \<open>asioEchoBenchmark.cpp\<close>: the echo server and the
  echo client on Asio, which run on one \<open>io_context\<close>. The state holds the members of both, and
  \<open>aecho_closure\<close> the lambdas of both, with what they capture: the socket, and the buffer they keep alive.
\<close>

section \<open>State\<close>

datatype aecho_closure =
    AServer_accept ptr
  | AServer_read ptr ptr
  | AServer_write ptr ptr
  | AClient_connect
  | AClient_write
  | AClient_read ptr

record 'x asio_echo = "'x asio_world" +
  aserver_connections :: "ptr list"
  aserver_max_clients :: nat
  aclient_socket :: ptr
  aclient_packet :: "8 word list"
  aclient_min_bytes :: "64 word"
  aclient_received :: "64 word"
  aclient_start :: int
  aclient_stop :: int

section \<open>The server\<close>

definition new_AsioEchoServer :: "nat \<Rightarrow> 'x asio_echo \<Rightarrow> 'x asio_echo" where
  "new_AsioEchoServer max_clients_count w = w\<lparr>aserver_connections := [], aserver_max_clients := max_clients_count\<rparr>"

definition aserver_start_accept :: "('x, aecho_closure) asio \<Rightarrow> 'x asio_echo \<Rightarrow> 'x asio_echo" where
  "aserver_start_accept A w =
     (case make_shared_socket w of (socket, w1) \<Rightarrow> asio_begin A (Async_accept socket) (AServer_accept socket) w1)"

definition aserver_listen :: "('x, aecho_closure) asio \<Rightarrow> string \<Rightarrow> 16 word \<Rightarrow> 'x asio_echo \<Rightarrow> 'x asio_echo" where
  "aserver_listen A listening_address listening_port w =
     (case (case asio_make_address A listening_address of
              Inl what \<Rightarrow> (Some what, w)
            | Inr ip \<Rightarrow> asio_open_acceptor A (ip, listening_port) (\<lambda>w1. (None,
                aserver_start_accept A (asio_log (''Server: Listening on '' @ listening_address @ '':'' @ show_nat (unat listening_port)) w1))) w) of
        (None, w1) \<Rightarrow> w1
      | (Some what, w1) \<Rightarrow> asio_log_error (''Server: Could not listen to '' @ listening_address @ '':'' @
            show_nat (unat listening_port) @ '' - '' @ what) w1)"

text \<open>Reading into a new buffer of 1024 bytes, which the handler keeps alive.\<close>

definition aserver_read :: "('x, aecho_closure) asio \<Rightarrow> ptr \<Rightarrow> 'x asio_echo \<Rightarrow> 'x asio_echo" where
  "aserver_read A socket w =
     (case make_shared_vector (replicate 1024 0) w of (buffer, w1) \<Rightarrow>
        asio_begin A (Async_read_some socket buffer (length (vectors w1 buffer))) (AServer_read socket buffer) w1)"

definition aserver_handle_accept :: "('x, aecho_closure) asio \<Rightarrow> ptr \<Rightarrow> int \<Rightarrow> 'x asio_echo \<Rightarrow> 'x asio_echo" where
  "aserver_handle_accept A socket error w =
     aserver_start_accept A
       (if error = 0 then
          let w1 = asio_log ''Server: Received client connection request'' w;
              w2 = w1\<lparr>aserver_connections := aserver_connections w1 @ [socket]\<rparr>
          in aserver_read A socket w2
        else asio_log_error (''Server: Accept error: '' @ asio_message A error) w)"

text \<open>The erase-remove idiom on \<open>connections_\<close>.\<close>

definition aserver_erase :: "ptr \<Rightarrow> 'x asio_echo \<Rightarrow> 'x asio_echo" where
  "aserver_erase socket w = w\<lparr>aserver_connections := filter (\<lambda>s. s \<noteq> socket) (aserver_connections w)\<rparr>"

text \<open>The range \<open>begin()\<close> to \<open>begin() + bytes_transferred\<close> must lie in the buffer.\<close>

definition aserver_handle_read ::
    "('x, aecho_closure) asio \<Rightarrow> ptr \<Rightarrow> ptr \<Rightarrow> int \<Rightarrow> nat \<Rightarrow> 'x asio_echo \<Rightarrow> stop + 'x asio_echo" where
  "aserver_handle_read A socket buffer error bytes_transferred w =
     (if error = 0 then
        if length (vectors w buffer) < bytes_transferred then Inl OutOfBounds
        else (case make_shared_vector (take bytes_transferred (vectors w buffer)) w of (send_buffer, w1) \<Rightarrow>
          Inr (asio_begin A (Async_write socket (vectors w1 send_buffer)) (AServer_write socket send_buffer) w1))
      else Inr (aserver_erase socket (asio_log_error (''Server: Read error: '' @ asio_message A error) w)))"

definition aserver_handle_write :: "('x, aecho_closure) asio \<Rightarrow> ptr \<Rightarrow> int \<Rightarrow> 'x asio_echo \<Rightarrow> 'x asio_echo" where
  "aserver_handle_write A socket error w =
     (if error = 0 then aserver_read A socket w
      else aserver_erase socket (asio_log_error (''Server: Write error: '' @ asio_message A error) w))"

section \<open>The client\<close>

text \<open>\<open>now\<close> reads the clock and \<open>rate\<close> prints the byte rate, a floating-point number.\<close>

definition new_AsioEchoClient :: "64 word \<Rightarrow> 'x asio_echo \<Rightarrow> 'x asio_echo" where
  "new_AsioEchoClient min_bytes_count w =
     (case make_shared_socket w of (socket, w1) \<Rightarrow>
        w1\<lparr>aclient_socket := socket, aclient_packet := replicate 1024 0x41, aclient_min_bytes := min_bytes_count,
           aclient_received := 0, aclient_start := 0, aclient_stop := 0\<rparr>)"

text \<open>\<open>resolve\<close> throws; nobody catches it.\<close>

definition aclient_connect :: "('x, aecho_closure) asio \<Rightarrow> string \<Rightarrow> 16 word \<Rightarrow> 'x asio_echo \<Rightarrow> stop + 'x asio_echo" where
  "aclient_connect A server_address server_port w =
     (let w1 = asio_log (''Client: Connecting to '' @ server_address @ '':'' @ show_nat (unat server_port) @ ''...'') w in
      case asio_resolve A server_address (show_nat (unat server_port)) (io w1) of
        (Inl what, x) \<Rightarrow> Inl (RuntimeError what)
      | (Inr endpoints, x) \<Rightarrow> Inr (asio_begin A (Async_connect (aclient_socket w1) endpoints) AClient_connect (w1\<lparr>io := x\<rparr>)))"

definition aclient_send_packet :: "('x, aecho_closure) asio \<Rightarrow> 'x asio_echo \<Rightarrow> 'x asio_echo" where
  "aclient_send_packet A w = asio_begin A (Async_write (aclient_socket w) (aclient_packet w)) AClient_write w"

definition aclient_handle_connect ::
    "('x, aecho_closure) asio \<Rightarrow> ('x \<Rightarrow> int \<times> 'x) \<Rightarrow> int \<Rightarrow> 'x asio_echo \<Rightarrow> 'x asio_echo" where
  "aclient_handle_connect A now error w =
     (if error = 0 then
        let w1 = asio_log ''Client: Connected successfully'' w in
        (case now (io w1) of (t, x) \<Rightarrow> aclient_send_packet A (w1\<lparr>io := x, aclient_start := t\<rparr>))
      else asio_log_error (''Client: Connection failed: '' @ asio_message A error) w)"

definition aclient_handle_write :: "('x, aecho_closure) asio \<Rightarrow> int \<Rightarrow> 'x asio_echo \<Rightarrow> 'x asio_echo" where
  "aclient_handle_write A error w =
     (if error = 0 then
        (case make_shared_vector (replicate 1024 0) w of (buffer, w1) \<Rightarrow>
           asio_begin A (Async_read_some (aclient_socket w1) buffer (length (vectors w1 buffer))) (AClient_read buffer) w1)
      else asio_log_error (''Client: Write error: '' @ asio_message A error) w)"

text \<open>The unit is chosen as in the ringnet client: by \<open>period::den\<close>, that is 1, 1000 and 1000000.\<close>

definition aclient_elapsed_text :: "int \<Rightarrow> string" where
  "aclient_elapsed_text ticks =
     (if 1 < ticks then show_int (ticks sdiv 1000000000) @ ''s''
      else if 1000 < ticks then show_int (ticks sdiv 1000000) @ ''ms''
      else if 1000000 < ticks then show_int (ticks sdiv 1000) @ [CHR 0xCE, CHR 0xBC] @ ''s''
      else show_int ticks @ ''ns'')"

definition aclient_printResults ::
    "('x \<Rightarrow> int \<times> 'x) \<Rightarrow> (64 word \<Rightarrow> int \<Rightarrow> string) \<Rightarrow> 'x asio_echo \<Rightarrow> 'x asio_echo" where
  "aclient_printResults now rate w =
     (case now (io w) of (t, x) \<Rightarrow>
        let elapsed = t - aclient_start w in
        w\<lparr>io := x, aclient_stop := t,
          asio_cout := asio_cout w @ ''Exchanged '' @ show_nat (unat (aclient_received w)) @ '' bytes in '' @ aclient_elapsed_text elapsed @
            '' ('' @ rate (aclient_received w) elapsed @ '' MB/s)'' @ newline\<rparr>)"

definition aclient_handle_read ::
    "('x, aecho_closure) asio \<Rightarrow> ('x \<Rightarrow> int \<times> 'x) \<Rightarrow> (64 word \<Rightarrow> int \<Rightarrow> string) \<Rightarrow> int \<Rightarrow> nat \<Rightarrow> 'x asio_echo \<Rightarrow> stop + 'x asio_echo" where
  "aclient_handle_read A now rate error bytes_transferred w =
     (if error = 0 then
        let w1 = w\<lparr>aclient_received := aclient_received w + word_of_nat bytes_transferred\<rparr> in
        if aclient_received w1 < aclient_min_bytes w1 then Inr (aclient_send_packet A w1)
        else Inl (ExitProcess 0 (asio_cout (aclient_printResults now rate w1)))
      else Inr (asio_log_error (''Client: Read error: '' @ asio_message A error) w))"

section \<open>The benchmark\<close>

fun aecho_handler ::
    "('x, aecho_closure) asio \<Rightarrow> ('x \<Rightarrow> int \<times> 'x) \<Rightarrow> (64 word \<Rightarrow> int \<Rightarrow> string) \<Rightarrow> aecho_closure \<Rightarrow> int \<Rightarrow> nat \<Rightarrow> 'x asio_echo \<Rightarrow>
     stop + 'x asio_echo" where
  "aecho_handler A now rate (AServer_accept socket) error n w = Inr (aserver_handle_accept A socket error w)"
| "aecho_handler A now rate (AServer_read socket buffer) error n w = aserver_handle_read A socket buffer error n w"
| "aecho_handler A now rate (AServer_write socket send_buffer) error n w = Inr (aserver_handle_write A socket error w)"
| "aecho_handler A now rate AClient_connect error n w = Inr (aclient_handle_connect A now error w)"
| "aecho_handler A now rate AClient_write error n w = Inr (aclient_handle_write A error w)"
| "aecho_handler A now rate (AClient_read buffer) error n w = aclient_handle_read A now rate error n w"

definition aecho_before :: "'x \<Rightarrow> 'x asio_echo" where
  "aecho_before x = \<lparr>io = x, asio_cout = [], asio_cerr = [], heap_next = 1, vectors = (\<lambda>_. []), aserver_connections = [],
     aserver_max_clients = 0, aclient_socket = nullptr, aclient_packet = [], aclient_min_bytes = 0, aclient_received = 0,
     aclient_start = 0, aclient_stop = 0\<rparr>"

definition aecho_set_up :: "('x, aecho_closure) asio \<Rightarrow> string \<Rightarrow> 16 word \<Rightarrow> 64 word \<Rightarrow> 'x \<Rightarrow> stop + 'x asio_echo" where
  "aecho_set_up A address port bytes_count x =
     (let w1 = new_AsioEchoServer 10 (aecho_before x);
          w2 = aserver_listen A address port w1;
          w3 = new_AsioEchoClient bytes_count w2
      in aclient_connect A address port w3)"

definition asioEchoBenchmark_main ::
    "'r cxxopts \<Rightarrow> ('x, aecho_closure) asio \<Rightarrow> ('x \<Rightarrow> int \<times> 'x) \<Rightarrow> (64 word \<Rightarrow> int \<Rightarrow> string) \<Rightarrow> string list \<Rightarrow> 'x \<Rightarrow>
     (stop + 'x asio_echo) option" where
  "asioEchoBenchmark_main C A now rate argv x =
     process
       (bindE (new_EchoCLI C argv) (\<lambda>cli.
        let address = EchoCLI_address in
        bindE (EchoCLI_port C cli) (\<lambda>port.
        bindE (EchoCLI_bytes_count C cli) (\<lambda>bytes_count. aecho_set_up A address port bytes_count x))))
       (io_run A (aecho_handler A now rate))"

end
