(* ===== verification/Asio_Echo_Run.thy ===== *)
theory Asio_Echo_Run
  imports Asio_Echo
begin

text \<open>
  The echo benchmark on Asio as a whole: the invariant of its runs, and what it gives. Every connected client
  has exactly one operation of the server under way, a read into a buffer of its own or a write of what was read;
  so its bytes come back to it, in order, whatever the other clients do.
\<close>

section \<open>What was received and sent\<close>

type_synonym aecho_trace = "(aecho_closure asio_op \<times> asio_completion) list"

fun received_from :: "ptr \<Rightarrow> aecho_closure asio_op \<times> asio_completion \<Rightarrow> 8 word list" where
  "received_from s ((r, AServer_read t b), c) = (if t = s \<and> ac_error c = 0 then ac_data c else [])"
| "received_from s _ = []"

fun sent_to :: "ptr \<Rightarrow> aecho_closure asio_op \<times> asio_completion \<Rightarrow> 8 word list" where
  "sent_to s ((Async_write t bytes, AServer_write u b), c) = (if u = s \<and> ac_error c = 0 then bytes else [])"
| "sent_to s _ = []"

definition aecho_received :: "ptr \<Rightarrow> aecho_trace \<Rightarrow> 8 word list" where
  "aecho_received s tr = concat (map (received_from s) tr)"

definition aecho_sent :: "ptr \<Rightarrow> aecho_trace \<Rightarrow> 8 word list" where
  "aecho_sent s tr = concat (map (sent_to s) tr)"

lemma aecho_trace_simps [simp]:
  "aecho_received s [] = []" "aecho_received s (tr @ [p]) = aecho_received s tr @ received_from s p"
  "aecho_sent s [] = []" "aecho_sent s (tr @ [p]) = aecho_sent s tr @ sent_to s p"
  by (simp_all add: aecho_received_def aecho_sent_def)

fun client_bytes :: "aecho_closure asio_op \<times> asio_completion \<Rightarrow> nat" where
  "client_bytes ((r, AClient_read b), c) = (if ac_error c = 0 then ac_bytes c else 0)"
| "client_bytes _ = 0"

section \<open>The operations under way\<close>

text \<open>The operation of the server on a connected socket \<open>s\<close>; buffers lie below \<open>brk\<close>.\<close>

definition server_op :: "aecho_trace \<Rightarrow> (ptr \<Rightarrow> 8 word list) \<Rightarrow> ptr \<Rightarrow> ptr \<Rightarrow> aecho_closure asio_op \<Rightarrow> bool" where
  "server_op tr vec brk s p \<longleftrightarrow>
     (\<exists>b. p = (Async_read_some s b 1024, AServer_read s b) \<and> b < brk \<and> length (vec b) = 1024 \<and>
        aecho_received s tr = aecho_sent s tr) \<or>
     (\<exists>b bytes. p = (Async_write s bytes, AServer_write s b) \<and> aecho_received s tr = aecho_sent s tr @ bytes)"

definition client_op :: "(ptr \<Rightarrow> 8 word list) \<Rightarrow> ptr \<Rightarrow> aecho_closure asio_op \<Rightarrow> bool" where
  "client_op vec brk p \<longleftrightarrow>
     (\<exists>s e. p = (Async_connect s e, AClient_connect)) \<or> (\<exists>s bytes. p = (Async_write s bytes, AClient_write)) \<or>
     (\<exists>s b. p = (Async_read_some s b 1024, AClient_read b) \<and> b < brk \<and> length (vec b) = 1024)"

text \<open>All of them: the server's, when it listens, and at most one of the client.\<close>

definition server_ops :: "bool \<Rightarrow> ptr \<Rightarrow> (ptr \<Rightarrow> aecho_closure asio_op) \<Rightarrow> ptr list \<Rightarrow> aecho_closure asio_op multiset" where
  "server_ops listening a f cs =
     (if listening then add_mset (Async_accept a, AServer_accept a) (image_mset f (mset cs)) else {#})"

definition aecho_ops_ok ::
    "bool \<Rightarrow> aecho_trace \<Rightarrow> ptr list \<Rightarrow> (ptr \<Rightarrow> 8 word list) \<Rightarrow> ptr \<Rightarrow> aecho_closure asio_op multiset \<Rightarrow> bool" where
  "aecho_ops_ok listening tr cs vec brk P \<longleftrightarrow>
     (\<exists>a f C. P = server_ops listening a f cs + C \<and> distinct (a # cs) \<and> (\<forall>s \<in> set (a # cs). s < brk) \<and>
        (\<not> listening \<longrightarrow> cs = []) \<and> (\<forall>s \<in> set cs. server_op tr vec brk s (f s)) \<and>
        (C = {#} \<or> (\<exists>p. C = {#p#} \<and> client_op vec brk p)) \<and>
        (\<forall>s. s = a \<or> brk \<le> s \<longrightarrow> aecho_received s tr = [] \<and> aecho_sent s tr = []) \<and>
        (\<forall>s. prefix (aecho_sent s tr) (aecho_received s tr)))"

lemma ops_update:
  assumes "distinct cs" "s \<in> set cs"
  shows "image_mset (f(s := p)) (mset cs) = add_mset p (image_mset f (mset cs) - {#f s#})"
    "image_mset f (mset (filter (\<lambda>t. t \<noteq> s) cs)) = image_mset f (mset cs) - {#f s#}"
proof -
  obtain M where M: "mset cs = add_mset s M" using assms(2) by (metis mset_add set_mset_mset)
  have "count (mset cs) s = 1" using assms by (simp add: distinct_count_atmost_1)
  then have s: "s \<notin># M" using M by (simp add: not_in_iff)
  then have "image_mset (f(s := p)) M = image_mset f M" by (intro image_mset_cong) auto
  then show "image_mset (f(s := p)) (mset cs) = add_mset p (image_mset f (mset cs) - {#f s#})" by (simp add: M)
  have "filter_mset (\<lambda>t. t \<noteq> s) M = M" using s by (auto simp: filter_mset_eq_conv)
  then show "image_mset f (mset (filter (\<lambda>t. t \<noteq> s) cs)) = image_mset f (mset cs) - {#f s#}" by (simp add: M)
qed

text \<open>Operations stay in order when buffers are added or filled, and when the trace grows by other sockets' completions.\<close>

lemma server_op_mono:
  assumes "server_op tr vec brk s p" "brk \<le> brk'" "\<And>b. b < brk \<Longrightarrow> length (vec b) = 1024 \<Longrightarrow> length (vec' b) = 1024"
    "aecho_received s tr' = aecho_received s tr" "aecho_sent s tr' = aecho_sent s tr"
  shows "server_op tr' vec' brk' s p"
  using assms unfolding server_op_def by (metis order_less_le_trans)

lemma client_op_mono:
  assumes "client_op vec brk p" "brk \<le> brk'" "\<And>b. b < brk \<Longrightarrow> length (vec b) = 1024 \<Longrightarrow> length (vec' b) = 1024"
  shows "client_op vec' brk' p"
  using assms unfolding client_op_def by (metis order_less_le_trans)

lemma aecho_opsE:
  assumes "aecho_ops_ok listening tr cs vec brk P"
  obtains a f C where "P = server_ops listening a f cs + C" "distinct (a # cs)" "\<forall>s \<in> set (a # cs). s < brk"
    "\<not> listening \<longrightarrow> cs = []" "\<forall>s \<in> set cs. server_op tr vec brk s (f s)"
    "C = {#} \<or> (\<exists>p. C = {#p#} \<and> client_op vec brk p)"
    "\<forall>s. s = a \<or> brk \<le> s \<longrightarrow> aecho_received s tr = [] \<and> aecho_sent s tr = []"
    "\<forall>s. prefix (aecho_sent s tr) (aecho_received s tr)"
  using assms unfolding aecho_ops_ok_def by (elim exE conjE) (rule that)

lemma aecho_opsI:
  assumes "P = server_ops listening a f cs + C" "distinct (a # cs)" "\<forall>s \<in> set (a # cs). s < brk"
    "\<not> listening \<longrightarrow> cs = []" "\<forall>s \<in> set cs. server_op tr vec brk s (f s)"
    "C = {#} \<or> (\<exists>p. C = {#p#} \<and> client_op vec brk p)"
    "\<forall>s. s = a \<or> brk \<le> s \<longrightarrow> aecho_received s tr = [] \<and> aecho_sent s tr = []"
    "\<forall>s. prefix (aecho_sent s tr) (aecho_received s tr)"
  shows "aecho_ops_ok listening tr cs vec brk P"
  unfolding aecho_ops_ok_def by (intro exI conjI) (rule assms)+

text \<open>Whose operation it is, by its handler.\<close>

lemma aecho_ops_member:
  assumes "P = server_ops listening a f cs + C" "\<forall>s \<in> set cs. server_op tr vec brk s (f s)"
    "C = {#} \<or> (\<exists>p. C = {#p#} \<and> client_op vec brk p)" "p \<in># P"
  shows "listening \<and> p = (Async_accept a, AServer_accept a) \<or> (\<exists>s \<in> set cs. listening \<and> p = f s) \<or> C = {#p#} \<and> client_op vec brk p"
  using assms by (auto simp: server_ops_def split: if_splits)

section \<open>The steps\<close>

definition vec_kept :: "ptr \<Rightarrow> (ptr \<Rightarrow> 8 word list) \<Rightarrow> (ptr \<Rightarrow> 8 word list) \<Rightarrow> bool" where
  "vec_kept brk vec vec' \<longleftrightarrow> (\<forall>b < brk. length (vec b) = 1024 \<longrightarrow> length (vec' b) = 1024)"

definition quiet :: "aecho_closure asio_op \<times> asio_completion \<Rightarrow> bool" where
  "quiet p \<longleftrightarrow> (\<forall>s. received_from s p = [] \<and> sent_to s p = [])"

lemma aecho_client_step:
  assumes "aecho_ops_ok listening tr cs vec brk P" "p \<in># P" "snd p = AClient_connect \<or> snd p = AClient_write \<or> (\<exists>b. snd p = AClient_read b)"
    "brk \<le> brk'" "vec_kept brk vec vec'" "quiet (p, c)" "C' = {#} \<or> (\<exists>q. C' = {#q#} \<and> client_op vec' brk' q)"
  shows "aecho_ops_ok listening (tr @ [(p, c)]) cs vec' brk' (P - {#p#} + C')"
  using assms(1)
proof (rule aecho_opsE)
  fix a f C
  assume ops: "P = server_ops listening a f cs + C" "distinct (a # cs)" "\<forall>s \<in> set (a # cs). s < brk"
    "\<not> listening \<longrightarrow> cs = []" "\<forall>s \<in> set cs. server_op tr vec brk s (f s)"
    "C = {#} \<or> (\<exists>p. C = {#p#} \<and> client_op vec brk p)"
    "\<forall>s. s = a \<or> brk \<le> s \<longrightarrow> aecho_received s tr = [] \<and> aecho_sent s tr = []"
    "\<forall>s. prefix (aecho_sent s tr) (aecho_received s tr)"
  have "C = {#p#}"
    using aecho_ops_member [OF ops(1,5,6) assms(2)] ops(5) assms(3) by (auto simp: server_op_def)
  then have P: "P - {#p#} + C' = server_ops listening a f cs + C'" using ops(1) by simp
  show ?thesis
  proof (rule aecho_opsI [OF P ops(2) _ ops(4)])
    show "\<forall>s \<in> set cs. server_op (tr @ [(p, c)]) vec' brk' s (f s)"
      using ops(5) assms(4-6) by (auto simp: quiet_def vec_kept_def intro: server_op_mono)
  qed (use ops(3,7,8) assms(4,6,7) in \<open>auto simp: quiet_def\<close>)
qed

lemma aecho_accept_step:
  assumes "aecho_ops_ok True tr cs vec brk P" "(r, AServer_accept a) \<in># P"
  shows "aecho_ops_ok True (tr @ [((r, AServer_accept a), c)]) cs vec (brk + 1)
      (add_mset (Async_accept brk, AServer_accept brk) (P - {#(r, AServer_accept a)#}))"
    "aecho_ops_ok True (tr @ [((r, AServer_accept a), c)]) (cs @ [a]) (vec(brk := replicate 1024 0)) (brk + 2)
      (add_mset (Async_accept (brk + 1), AServer_accept (brk + 1))
        (add_mset (Async_read_some a brk 1024, AServer_read a brk) (P - {#(r, AServer_accept a)#})))"
  using assms(1)
proof (rule_tac [!] aecho_opsE)
  fix a' f C
  assume ops: "P = server_ops True a' f cs + C" "distinct (a' # cs)" "\<forall>s \<in> set (a' # cs). s < brk"
    "\<not> True \<longrightarrow> cs = []" "\<forall>s \<in> set cs. server_op tr vec brk s (f s)"
    "C = {#} \<or> (\<exists>p. C = {#p#} \<and> client_op vec brk p)"
    "\<forall>s. s = a' \<or> brk \<le> s \<longrightarrow> aecho_received s tr = [] \<and> aecho_sent s tr = []"
    "\<forall>s. prefix (aecho_sent s tr) (aecho_received s tr)"
  have p: "r = Async_accept a" "a' = a"
    using aecho_ops_member [OF ops(1,5,6) assms(2)] ops(5) by (auto simp: server_op_def client_op_def)
  have rest: "P - {#(r, AServer_accept a)#} = image_mset f (mset cs) + C" using ops(1) p by (simp add: server_ops_def)
  let ?f = "f(a := (Async_read_some a brk 1024, AServer_read a brk))" and ?tr = "tr @ [((r, AServer_accept a), c)]"
  let ?vec = "vec(brk := replicate 1024 0)"
  have same: "aecho_received s ?tr = aecho_received s tr" "aecho_sent s ?tr = aecho_sent s tr" for s by (cases r; simp)+
  show "aecho_ops_ok True ?tr cs vec (brk + 1) (add_mset (Async_accept brk, AServer_accept brk) (P - {#(r, AServer_accept a)#}))"
  proof (rule aecho_opsI [where a = brk and f = f and C = C])
    show "\<forall>s \<in> set cs. server_op ?tr vec (brk + 1) s (f s)" using ops(5) same by (auto intro: server_op_mono [of tr vec brk])
    show "C = {#} \<or> (\<exists>p. C = {#p#} \<and> client_op vec (brk + 1) p)"
      using ops(6) client_op_mono [of vec brk _ "brk + 1" vec] by auto
    show "\<forall>s\<in>set (brk # cs). s < brk + 1" using ops(3) by (auto intro: less_SucI)
  qed (use ops(2,3,7,8) rest same in \<open>auto simp: server_ops_def\<close>)
  have fresh: "a \<notin> set cs" using ops(2) p by simp
  then have im: "image_mset ?f (mset cs) = image_mset f (mset cs)" by (intro image_mset_cong) auto
  show "aecho_ops_ok True ?tr (cs @ [a]) ?vec (brk + 2) (add_mset (Async_accept (brk + 1), AServer_accept (brk + 1))
      (add_mset (Async_read_some a brk 1024, AServer_read a brk) (P - {#(r, AServer_accept a)#})))"
  proof (rule aecho_opsI [where a = "brk + 1" and f = ?f and C = C])
    have "server_op ?tr ?vec (brk + 2) s (f s)" if "s \<in> set cs" for s using ops(5) that same by (auto intro: server_op_mono [of tr vec brk])
    moreover have "server_op ?tr ?vec (brk + 2) a (?f a)" using ops(7) p by (simp add: server_op_def same)
    ultimately show "\<forall>s \<in> set (cs @ [a]). server_op ?tr ?vec (brk + 2) s (?f s)" using fresh by auto
    show "C = {#} \<or> (\<exists>p. C = {#p#} \<and> client_op ?vec (brk + 2) p)"
      using ops(6) client_op_mono [of vec brk _ "brk + 2" ?vec] by auto
    show "\<forall>s\<in>set ((brk + 1) # cs @ [a]). s < brk + 2" using ops(3) p by (auto intro: less_SucI)
  qed (use ops(2,3,7,8) rest same im p in \<open>auto simp: server_ops_def\<close>)
qed

lemma aecho_server_member:
  assumes "aecho_ops_ok listening tr cs vec brk P" "(r, h) \<in># P" "h = AServer_read s b \<or> h = AServer_write s b"
  shows "listening \<and> s \<in> set cs \<and> server_op tr vec brk s (r, h)"
  using assms(1)
proof (rule aecho_opsE)
  fix a f C
  assume ops: "P = server_ops listening a f cs + C" "\<forall>s \<in> set cs. server_op tr vec brk s (f s)"
    "C = {#} \<or> (\<exists>p. C = {#p#} \<and> client_op vec brk p)"
  obtain t where "t \<in> set cs" "listening" "(r, h) = f t"
    using aecho_ops_member [OF ops assms(2)] assms(3) by (auto simp: client_op_def)
  moreover from this ops(2) have "server_op tr vec brk t (r, h)" by simp
  ultimately show ?thesis using assms(3) by (auto simp: server_op_def)
qed

lemma aecho_accept_member:
  assumes "aecho_ops_ok listening tr cs vec brk P" "(r, AServer_accept a) \<in># P"
  shows "listening \<and> r = Async_accept a"
  using assms(1)
proof (rule aecho_opsE)
  fix a' f C
  assume ops: "P = server_ops listening a' f cs + C" "\<forall>s \<in> set cs. server_op tr vec brk s (f s)"
    "C = {#} \<or> (\<exists>p. C = {#p#} \<and> client_op vec brk p)"
  show ?thesis using aecho_ops_member [OF ops assms(2)] ops(2) by (auto simp: server_op_def client_op_def)
qed

lemma other_sockets:
  assumes "h = AServer_read s b \<or> h = AServer_write s b" "t \<noteq> s"
  shows "received_from t ((r, h), c) = []" "sent_to t ((r, h), c) = []"
  using assms by (cases r; auto)+

lemma aecho_server_step:
  assumes "aecho_ops_ok listening tr cs vec brk P" "(r, h) \<in># P" "h = AServer_read s b \<or> h = AServer_write s b"
    "brk \<le> brk'" "vec_kept brk vec vec'"
  shows "server_op (tr @ [((r, h), c)]) vec' brk' s q \<Longrightarrow>
      aecho_ops_ok listening (tr @ [((r, h), c)]) cs vec' brk' (add_mset q (P - {#(r, h)#}))"
    "prefix (aecho_sent s (tr @ [((r, h), c)])) (aecho_received s (tr @ [((r, h), c)])) \<Longrightarrow>
      aecho_ops_ok listening (tr @ [((r, h), c)]) (filter (\<lambda>t. t \<noteq> s) cs) vec' brk' (P - {#(r, h)#})"
proof -
  let ?tr = "tr @ [((r, h), c)]"
  obtain a f C where ops: "P = server_ops listening a f cs + C" "distinct (a # cs)" "\<forall>s \<in> set (a # cs). s < brk"
    "\<not> listening \<longrightarrow> cs = []" "\<forall>s \<in> set cs. server_op tr vec brk s (f s)"
    "C = {#} \<or> (\<exists>p. C = {#p#} \<and> client_op vec brk p)"
    "\<forall>s. s = a \<or> brk \<le> s \<longrightarrow> aecho_received s tr = [] \<and> aecho_sent s tr = []"
    "\<forall>s. prefix (aecho_sent s tr) (aecho_received s tr)"
    by (rule aecho_opsE [OF assms(1)])
  obtain t where t: "t \<in> set cs" "listening" "(r, h) = f t"
    using aecho_ops_member [OF ops(1,5,6) assms(2)] assms(3) by (auto simp: client_op_def)
  moreover from this ops(5) have "server_op tr vec brk t (r, h)" by simp
  ultimately have s: "s \<in> set cs" "listening" "f s = (r, h)" using assms(3) by (auto simp: server_op_def)
  have other: "aecho_received t ?tr = aecho_received t tr" "aecho_sent t ?tr = aecho_sent t tr" if "t \<noteq> s" for t
    using other_sockets [OF assms(3) that] by simp_all
  have keep: "server_op ?tr vec' brk' t (f t)" if "t \<in> set cs" "t \<noteq> s" for t
  proof (rule server_op_mono [OF _ assms(4)])
    show "server_op tr vec brk t (f t)" using ops(5) that by simp
    show "length (vec' b) = 1024" if "b < brk" "length (vec b) = 1024" for b using that assms(5) by (simp add: vec_kept_def)
  qed (use other [OF that(2)] in simp_all)
  have client: "C = {#} \<or> (\<exists>p. C = {#p#} \<and> client_op vec' brk' p)"
    using ops(6) client_op_mono [of vec brk _ brk' vec'] assms(4,5) by (auto simp: vec_kept_def)
  have quiet: "\<forall>t. t = a \<or> brk' \<le> t \<longrightarrow> aecho_received t ?tr = [] \<and> aecho_sent t ?tr = []"
  proof (intro allI impI)
    fix t assume t: "t = a \<or> brk' \<le> t"
    have "t \<noteq> s" using t ops(2,3) s(1) assms(4) by auto
    moreover have "t = a \<or> brk \<le> t" using t assms(4) by auto
    ultimately show "aecho_received t ?tr = [] \<and> aecho_sent t ?tr = []" using ops(7) other by auto
  qed
  have prefixes: "\<forall>t. prefix (aecho_sent t ?tr) (aecho_received t ?tr)" if "prefix (aecho_sent s ?tr) (aecho_received s ?tr)"
  proof
    fix t show "prefix (aecho_sent t ?tr) (aecho_received t ?tr)"
      using that ops(8) other [of t] by (cases "t = s") (simp_all del: aecho_trace_simps)
  qed
  have dist: "distinct cs" using ops(2) by simp
  note upd = ops_update [OF dist s(1), of f]
  have "f s \<in># image_mset f (mset cs)" using s(1) by simp
  then obtain M where M: "image_mset f (mset cs) = add_mset (r, h) M" using s(3) by (metis mset_add)
  show "aecho_ops_ok listening ?tr cs vec' brk' (add_mset q (P - {#(r, h)#}))" if q: "server_op ?tr vec' brk' s q"
  proof (rule aecho_opsI [where a = a and f = "f(s := q)" and C = C])
    show "add_mset q (P - {#(r, h)#}) = server_ops listening a (f(s := q)) cs + C"
      using ops(1) s upd(1) [of q] M by (simp add: server_ops_def)
    show "\<forall>t \<in> set cs. server_op ?tr vec' brk' t ((f(s := q)) t)" using keep q by simp
    have "prefix (aecho_sent s ?tr) (aecho_received s ?tr)" using q by (auto simp: server_op_def)
    then show "\<forall>t. prefix (aecho_sent t ?tr) (aecho_received t ?tr)" by (rule prefixes)
  qed (use ops(2-4) assms(4) client quiet in auto)
  show "aecho_ops_ok listening ?tr (filter (\<lambda>t. t \<noteq> s) cs) vec' brk' (P - {#(r, h)#})"
    if pre: "prefix (aecho_sent s ?tr) (aecho_received s ?tr)"
  proof (rule aecho_opsI [where a = a and f = f and C = C])
    show "P - {#(r, h)#} = server_ops listening a f (filter (\<lambda>t. t \<noteq> s) cs) + C"
      using ops(1) s upd(2) M by (simp add: server_ops_def)
    show "\<forall>t. prefix (aecho_sent t ?tr) (aecho_received t ?tr)" by (rule prefixes [OF pre])
  qed (use ops(2-4) assms(4) client quiet keep s(2) in auto)
qed

section \<open>The invariant of the benchmark\<close>

definition client_total :: "aecho_trace \<Rightarrow> nat" where
  "client_total tr = sum_list (map client_bytes tr)"

definition clock_ok :: "('x \<Rightarrow> int \<times> 'x) \<Rightarrow> ('x \<Rightarrow> aecho_closure asio_op multiset) \<Rightarrow> bool" where
  "clock_ok now pend \<longleftrightarrow> (\<forall>x t x'. now x = (t, x') \<longrightarrow> pend x' = pend x)"

definition aecho_inv ::
    "('x, aecho_closure) asio \<Rightarrow> ('x \<Rightarrow> aecho_closure asio_op multiset) \<Rightarrow> ('x \<Rightarrow> int \<times> 'x) \<Rightarrow> bool \<Rightarrow> 64 word \<Rightarrow>
     aecho_trace \<times> 'x asio_echo \<Rightarrow> bool" where
  "aecho_inv A pend now listening target = (\<lambda>(tr, w). asio_contract A pend \<and> clock_ok now pend \<and>
     aecho_ops_ok listening tr (aserver_connections w) (vectors w) (heap_next w) (pend (io w)) \<and>
     aclient_min_bytes w = target \<and> aclient_received w = word_of_nat (client_total tr))"

lemma client_total_simps [simp]: "client_total [] = 0" "client_total (tr @ [p]) = client_total tr + client_bytes p"
  by (simp_all add: client_total_def)

text \<open>Filling a buffer keeps its length.\<close>

lemma deliver_frame [simp]:
  "io (deliver r bytes w) = io w" "heap_next (deliver r bytes w) = heap_next w" "asio_world.more (deliver r bytes w) = asio_world.more w"
  "asio_cout (deliver r bytes w) = asio_cout w" "asio_cerr (deliver r bytes w) = asio_cerr w"
  by (cases r; simp)+

lemma deliver_echo [simp]:
  "aserver_connections (deliver r bytes w) = aserver_connections w" "aclient_min_bytes (deliver r bytes w) = aclient_min_bytes w"
  "aclient_received (deliver r bytes w) = aclient_received w" "aclient_socket (deliver r bytes w) = aclient_socket w"
  by (cases r; simp)+

lemma deliver_kept:
  assumes "completes r c" "\<And>s b n. r = Async_read_some s b n \<Longrightarrow> n \<le> 1024"
  shows "vec_kept brk (vectors w) (vectors (deliver r (ac_data c) w))"
  using assms by (cases r) (auto simp: vec_kept_def)

lemma vec_kept_new: "vec_kept brk v v' \<Longrightarrow> vec_kept brk v (v'(brk := x))"
  by (simp add: vec_kept_def)

lemma vec_kept_refl [simp]: "vec_kept brk v v"
  by (simp add: vec_kept_def)

lemma aecho_accept_inv:
  assumes "aecho_inv A pend now listening target (tr, w)" "(r, AServer_accept a) \<in># pend (io w)" "pend x = pend (io w) - {#(r, AServer_accept a)#}"
  shows "aecho_inv A pend now listening target
    (tr @ [((r, AServer_accept a), c)], aserver_handle_accept A a (ac_error c) (deliver r (ac_data c) (w\<lparr>io := x\<rparr>)))"
proof -
  have inv: "asio_contract A pend" "clock_ok now pend"
      "aecho_ops_ok listening tr (aserver_connections w) (vectors w) (heap_next w) (pend (io w))"
      "aclient_min_bytes w = target" "aclient_received w = word_of_nat (client_total tr)"
    using assms(1) by (simp_all add: aecho_inv_def)
  have l: "listening" "r = Async_accept a" using aecho_accept_member [OF inv(3) assms(2)] by simp_all
  have d: "deliver r (ac_data c) (w\<lparr>io := x\<rparr>) = w\<lparr>io := x\<rparr>" by (simp add: l(2))
  show ?thesis
    using aecho_accept_step [OF inv(3) [unfolded l(1)[THEN Eq_TrueI]] assms(2), of c] inv(1,2,4,5) l
    by (simp add: d aecho_inv_def aserver_handle_accept_def aserver_start_accept_def make_shared_socket_def aserver_read_def
        make_shared_vector_def asio_begin_def asio_log_def asio_log_error_def Let_def asio_start_pend [OF inv(1)] assms(3))
qed

text \<open>A completed read: its bytes are in the buffer, so the write carries exactly them.\<close>

lemma aecho_read_inv:
  assumes "aecho_inv A pend now listening target (tr, w)" "(r, AServer_read s b) \<in># pend (io w)"
    "pend x = pend (io w) - {#(r, AServer_read s b)#}" "completes r c"
  obtains w' where "aserver_handle_read A s b (ac_error c) (ac_bytes c) (deliver r (ac_data c) (w\<lparr>io := x\<rparr>)) = Inr w'"
    "aecho_inv A pend now listening target (tr @ [((r, AServer_read s b), c)], w')"
proof -
  have inv: "asio_contract A pend" "clock_ok now pend"
      "aecho_ops_ok listening tr (aserver_connections w) (vectors w) (heap_next w) (pend (io w))"
      "aclient_min_bytes w = target" "aclient_received w = word_of_nat (client_total tr)"
    using assms(1) by (simp_all add: aecho_inv_def)
  have r: "r = Async_read_some s b 1024" "b < heap_next w" "length (vectors w b) = 1024" "aecho_received s tr = aecho_sent s tr"
    using aecho_server_member [OF inv(3) assms(2)] by (auto simp: server_op_def)
  have data: "ac_bytes c = length (ac_data c)" "ac_bytes c \<le> 1024" using assms(4) r(1) by simp_all
  let ?v = "deliver r (ac_data c) (w\<lparr>io := x\<rparr>)" and ?tr = "tr @ [((r, AServer_read s b), c)]"
  have vec: "vectors ?v = (vectors w)(b := ac_data c @ drop (length (ac_data c)) (vectors w b))" by (simp add: r(1))
  have kept: "vec_kept (heap_next w) (vectors w) (vectors ?v)" using data by (simp add: vec_kept_def vec)
  note step = aecho_server_step [OF inv(3) assms(2) disjI1 [OF refl] _ vec_kept_new [OF kept]]
    aecho_server_step [OF inv(3) assms(2) disjI1 [OF refl] _ kept]
  show thesis
  proof (cases "ac_error c = 0")
    case True
    let ?w = "?v\<lparr>heap_next := heap_next w + 1, vectors := (vectors ?v)(heap_next w := ac_data c),
        io := asio_start A (Async_write s (ac_data c), AServer_write s (heap_next w)) x\<rparr>"
    have len: "\<not> length (vectors ?v b) < ac_bytes c" "take (ac_bytes c) (vectors ?v b) = ac_data c"
      using data r(3) by (simp_all add: vec)
    have eq: "aserver_handle_read A s b (ac_error c) (ac_bytes c) ?v = Inr ?w"
      using True len by (simp add: aserver_handle_read_def make_shared_vector_def asio_begin_def)
    have "server_op ?tr ((vectors ?v)(heap_next w := ac_data c)) (heap_next w + 1) s (Async_write s (ac_data c), AServer_write s (heap_next w))"
      using r(4) True by (simp add: server_op_def)
    from step(1) [OF _ this] have "aecho_inv A pend now listening target (?tr, ?w)"
      using inv by (simp add: aecho_inv_def asio_start_pend [OF inv(1)] assms(3))
    with eq show ?thesis by (rule that)
  next
    case False
    have pre: "prefix (aecho_sent s ?tr) (aecho_received s ?tr)" using False r(4) by simp
    let ?w = "aserver_erase s (asio_log_error (''Server: Read error: '' @ asio_message A (ac_error c)) ?v)"
    have eq: "aserver_handle_read A s b (ac_error c) (ac_bytes c) ?v = Inr ?w"
      using False by (simp add: aserver_handle_read_def)
    have "aecho_inv A pend now listening target (?tr, ?w)"
      using step(4) [OF order_refl pre] inv False
      by (simp add: aecho_inv_def aserver_erase_def asio_log_error_def assms(3))
    with eq show ?thesis by (rule that)
  qed
qed

lemma aecho_write_inv:
  assumes "aecho_inv A pend now listening target (tr, w)" "(r, AServer_write s b) \<in># pend (io w)"
    "pend x = pend (io w) - {#(r, AServer_write s b)#}"
  shows "aecho_inv A pend now listening target
    (tr @ [((r, AServer_write s b), c)], aserver_handle_write A s (ac_error c) (deliver r (ac_data c) (w\<lparr>io := x\<rparr>)))"
proof -
  have inv: "asio_contract A pend" "clock_ok now pend"
      "aecho_ops_ok listening tr (aserver_connections w) (vectors w) (heap_next w) (pend (io w))"
      "aclient_min_bytes w = target" "aclient_received w = word_of_nat (client_total tr)"
    using assms(1) by (simp_all add: aecho_inv_def)
  obtain bytes where r: "r = Async_write s bytes" "aecho_received s tr = aecho_sent s tr @ bytes"
    using aecho_server_member [OF inv(3) assms(2)] by (auto simp: server_op_def)
  let ?tr = "tr @ [((r, AServer_write s b), c)]" and ?vec = "(vectors w)(heap_next w := replicate 1024 0)"
  note step = aecho_server_step [OF inv(3) assms(2) disjI2 [OF refl], where c = c]
  show ?thesis
  proof (cases "ac_error c = 0")
    case True
    have "server_op ?tr ?vec (heap_next w + 1) s (Async_read_some s (heap_next w) 1024, AServer_read s (heap_next w))"
      using r True by (simp add: server_op_def)
    from step(1) [OF _ vec_kept_new [OF vec_kept_refl] this] show ?thesis
      using inv True r(1)
      by (simp add: aecho_inv_def aserver_handle_write_def aserver_read_def make_shared_vector_def asio_begin_def
          asio_start_pend [OF inv(1)] assms(3))
  next
    case False
    have "prefix (aecho_sent s ?tr) (aecho_received s ?tr)" using False r by simp
    from step(2) [OF order_refl vec_kept_refl this] show ?thesis
      using inv False r(1)
      by (simp add: aecho_inv_def aserver_handle_write_def aserver_erase_def asio_log_error_def assms(3))
  qed
qed

lemma aecho_client_inv:
  assumes "aecho_inv A pend now listening target (tr, w)" "(r, h) \<in># pend (io w)" "pend x = pend (io w) - {#(r, h)#}" "completes r c"
    "h = AClient_connect \<or> h = AClient_write \<or> (\<exists>b. h = AClient_read b)"
    "aecho_handler A now rate h (ac_error c) (ac_bytes c) (deliver r (ac_data c) (w\<lparr>io := x\<rparr>)) = Inr w'"
  shows "aecho_inv A pend now listening target (tr @ [((r, h), c)], w')"
proof -
  have inv: "asio_contract A pend" "clock_ok now pend"
      "aecho_ops_ok listening tr (aserver_connections w) (vectors w) (heap_next w) (pend (io w))"
      "aclient_min_bytes w = target" "aclient_received w = word_of_nat (client_total tr)"
    using assms(1) by (simp_all add: aecho_inv_def)
  have op: "client_op (vectors w) (heap_next w) (r, h)"
    using inv(3)
  proof (rule aecho_opsE)
    fix a f C
    assume ops: "pend (io w) = server_ops listening a f (aserver_connections w) + C"
      "\<forall>s \<in> set (aserver_connections w). server_op tr (vectors w) (heap_next w) s (f s)"
      "C = {#} \<or> (\<exists>p. C = {#p#} \<and> client_op (vectors w) (heap_next w) p)"
    show ?thesis using aecho_ops_member [OF ops assms(2)] ops(2) assms(5) by (auto simp: server_op_def)
  qed
  let ?v = "deliver r (ac_data c) (w\<lparr>io := x\<rparr>)" and ?tr = "tr @ [((r, h), c)]"
  have kept: "vec_kept (heap_next w) (vectors w) (vectors ?v)"
    using deliver_kept [OF assms(4), of "heap_next w" "w\<lparr>io := x\<rparr>"] op by (auto simp: client_op_def)
  have quiet: "quiet ((r, h), c)" using assms(5) by (cases r) (auto simp: quiet_def)
  have clock: "pend (snd (now y)) = pend y" for y using inv(2) unfolding clock_ok_def by (metis prod.collapse)
  have sp: "snd (r, h) = AClient_connect \<or> snd (r, h) = AClient_write \<or> (\<exists>b. snd (r, h) = AClient_read b)" using assms(5) by simp
  note step = aecho_client_step [OF inv(3) assms(2) sp _ _ quiet]
  have none: "aecho_ops_ok listening ?tr (aserver_connections w) (vectors ?v) (heap_next w) (pend x)"
    using step [OF order_refl kept, of "{#}"] by (simp add: assms(3))
  have one: "aecho_ops_ok listening ?tr (aserver_connections w) (vectors ?v) (heap_next w) (add_mset q (pend x))"
    if "client_op (vectors ?v) (heap_next w) q" for q
    using step [OF order_refl kept, of "{#q#}"] that by (simp add: assms(3))
  have new: "aecho_ops_ok listening ?tr (aserver_connections w) ((vectors ?v)(heap_next w := bs)) (heap_next w + 1) (add_mset q (pend x))"
    if "client_op ((vectors ?v)(heap_next w := bs)) (heap_next w + 1) q" for q bs
    using step [OF _ vec_kept_new [OF kept], of "heap_next w + 1" "{#q#}"] that by (simp add: assms(3))
  have wr: "client_op vec brk (Async_write s bytes, AClient_write)" for vec brk s bytes by (simp add: client_op_def)
  have rd: "client_op ((vectors ?v)(heap_next w := replicate 1024 0)) (heap_next w + 1) (Async_read_some s (heap_next w) 1024, AClient_read (heap_next w))"
    for s by (simp add: client_op_def)
  have bytes: "word_of_nat (client_total ?tr) = aclient_received w + word_of_nat (client_bytes ((r, h), c))" by (simp add: inv(5))
  from assms(5) show ?thesis
  proof (elim disjE exE)
    assume h: "h = AClient_connect"
    show ?thesis
      using assms(6) none one [OF wr] inv clock [of x] bytes unfolding h
      by (auto simp: aecho_inv_def aclient_handle_connect_def aclient_send_packet_def asio_begin_def asio_log_def asio_log_error_def
          Let_def asio_start_pend [OF inv(1)] assms(3) h split: if_splits prod.splits)
  next
    assume h: "h = AClient_write"
    show ?thesis
      using assms(6) none new [OF rd] inv bytes unfolding h
      by (auto simp: aecho_inv_def aclient_handle_write_def make_shared_vector_def asio_begin_def asio_log_error_def
          asio_start_pend [OF inv(1)] assms(3) h split: if_splits)
  next
    fix b assume h: "h = AClient_read b"
    show ?thesis
      using assms(6) none one [OF wr] inv bytes unfolding h
      by (auto simp: aecho_inv_def aclient_handle_read_def aclient_send_packet_def asio_begin_def asio_log_error_def
          Let_def asio_start_pend [OF inv(1)] assms(3) h split: if_splits)
  qed
qed

interpretation aecho: asio_program A pend "aecho_handler A now rate" "aecho_inv A pend now listening target"
  for A pend now rate listening target
proof unfold_locales
  fix tr and w :: "'a asio_echo" and request h x c w'
  assume inv: "aecho_inv A pend now listening target (tr, w)" and p: "(request, h) \<in># pend (io w)" and x: "pend x = pend (io w) - {#(request, h)#}"
    and c: "completes request c"
    and w': "aecho_handler A now rate h (ac_error c) (ac_bytes c) (deliver request (ac_data c) (w\<lparr>io := x\<rparr>)) = Inr w'"
  show "aecho_inv A pend now listening target (tr @ [((request, h), c)], w')"
  proof (cases h)
    case (AServer_accept a)
    with aecho_accept_inv [of A pend now listening target tr w request a x c] inv p x w' show ?thesis by simp
  next
    case (AServer_read s b)
    obtain w1 where "aserver_handle_read A s b (ac_error c) (ac_bytes c) (deliver request (ac_data c) (w\<lparr>io := x\<rparr>)) = Inr w1"
        "aecho_inv A pend now listening target (tr @ [((request, AServer_read s b), c)], w1)"
      using aecho_read_inv [OF inv p [unfolded AServer_read] x [unfolded AServer_read] c] by blast
    with w' AServer_read show ?thesis by simp
  next
    case (AServer_write s b)
    with aecho_write_inv [of A pend now listening target tr w request s b x c] inv p x w' show ?thesis by simp
  qed (use aecho_client_inv [OF inv p x c _ w'] in simp_all)
qed (auto simp: aecho_inv_def)

section \<open>From main on\<close>

definition aserver_refusal :: "string \<Rightarrow> 16 word \<Rightarrow> string \<Rightarrow> string" where
  "aserver_refusal address port what =
     ''Server: Could not listen to '' @ address @ '':'' @ show_nat (unat port) @ '' - '' @ what @ newline"

text \<open>After \<open>listen\<close> the server has one accept under way, or has said why not.\<close>

lemma aserver_listen_cases:
  assumes "asio_contract A pend" "pend (io w) = {#}" "asio_cerr w = []"
  obtains (listening) x t where "aserver_listen A address port w =
      w\<lparr>io := x, asio_cout := t, heap_next := heap_next w + 1\<rparr>" "pend x = {#(Async_accept (heap_next w), AServer_accept (heap_next w))#}"
  | (refused) x what where "aserver_listen A address port w = w\<lparr>io := x, asio_cerr := aserver_refusal address port what\<rparr>" "pend x = {#}"
proof -
  let ?t = "asio_cout w @ (''Server: Listening on '' @ address @ '':'' @ show_nat (unat port)) @ newline"
  let ?k = "\<lambda>w1 :: 'a asio_echo. (None :: string option,
      aserver_start_accept A (asio_log (''Server: Listening on '' @ address @ '':'' @ show_nat (unat port)) w1))"
  show thesis
  proof (cases "asio_make_address A address")
    case (Inl what)
    then have "aserver_listen A address port w = w\<lparr>io := io w, asio_cerr := aserver_refusal address port what\<rparr>"
      using assms(3) by (simp add: aserver_listen_def asio_log_error_def aserver_refusal_def)
    then show thesis using assms(2) by (rule refused)
  next
    case (Inr ip)
    have "goes_on pend ?k w (asio_open_acceptor A (ip, port) ?k w)" by (rule asio_open_acceptor_goes_on [OF assms(1)])
    then obtain y where y: "pend y = {#}" "(\<exists>what. asio_open_acceptor A (ip, port) ?k w = (Some what, w\<lparr>io := y\<rparr>)) \<or>
        asio_open_acceptor A (ip, port) ?k w = ?k (w\<lparr>io := y\<rparr>)"
      using assms(2) by (auto simp: goes_on_def)
    from y(2) show thesis
    proof (elim disjE exE)
      fix what assume "asio_open_acceptor A (ip, port) ?k w = (Some what, w\<lparr>io := y\<rparr>)"
      then have "aserver_listen A address port w = w\<lparr>io := y, asio_cerr := aserver_refusal address port what\<rparr>"
        using Inr assms(3) by (simp add: aserver_listen_def asio_log_error_def aserver_refusal_def del: append_Cons)
      then show thesis using y(1) by (rule refused)
    next
      assume "asio_open_acceptor A (ip, port) ?k w = ?k (w\<lparr>io := y\<rparr>)"
      then have "aserver_listen A address port w = snd (?k (w\<lparr>io := y\<rparr>))" using Inr by (simp add: aserver_listen_def del: append_Cons)
      also have "\<dots> = w\<lparr>io := asio_start A (Async_accept (heap_next w), AServer_accept (heap_next w)) y, asio_cout := ?t, heap_next := heap_next w + 1\<rparr>"
        by (simp add: aserver_start_accept_def make_shared_socket_def asio_begin_def asio_log_def del: append_Cons)
      finally show thesis by (rule listening) (simp add: asio_start_pend [OF assms(1)] y(1))
    qed
  qed
qed

lemma aecho_set_up_inv:
  assumes "asio_contract A pend" "clock_ok now pend" "pend x = {#}" "aecho_set_up A address port target x = Inr w"
  obtains (listening) "aecho_inv A pend now True target ([], w)" "asio_cerr w = []"
  | (refused) what where "aecho_inv A pend now False target ([], w)" "asio_cerr w = aserver_refusal address port what"
proof -
  let ?w1 = "new_AsioEchoServer 10 (aecho_before x)"
  let ?w2 = "aserver_listen A address port ?w1"
  let ?w3 = "new_AsioEchoClient target ?w2"
  have w1: "pend (io ?w1) = {#}" "asio_cerr ?w1 = []" "heap_next ?w1 = 1" "aserver_connections ?w1 = []"
    using assms(3) by (simp_all add: new_AsioEchoServer_def aecho_before_def)
  obtain endpoints y where res: "asio_resolve A address (show_nat (unat port)) (io ?w3) = (Inr endpoints, y)"
      and w: "w = (asio_log (''Client: Connecting to '' @ address @ '':'' @ show_nat (unat port) @ ''...'') ?w3)
        \<lparr>io := asio_start A (Async_connect (aclient_socket ?w3) endpoints, AClient_connect) y\<rparr>"
    using assms(4)
    by (auto simp: aecho_set_up_def Let_def aclient_connect_def asio_log_def asio_begin_def simp del: append.simps split: prod.splits sum.splits)
  have y: "pend y = pend (io ?w2)"
    using asio_resolve_pend [OF assms(1) res] by (simp add: new_AsioEchoClient_def make_shared_socket_def)
  let ?p = "(Async_connect (aclient_socket ?w3) endpoints, AClient_connect)"
  have fields: "pend (io w) = add_mset ?p (pend (io ?w2))" "aserver_connections w = aserver_connections ?w2"
      "heap_next w = heap_next ?w2 + 1" "aclient_min_bytes w = target" "aclient_received w = 0" "asio_cerr w = asio_cerr ?w2"
    by (simp_all add: w y asio_start_pend [OF assms(1)] new_AsioEchoClient_def make_shared_socket_def asio_log_def)
  have client: "client_op vec brk ?p" for vec brk by (simp add: client_op_def)
  show thesis
  proof (rule aserver_listen_cases [OF assms(1) w1(1,2), of address port])
    fix x' t
    assume l: "?w2 = ?w1\<lparr>io := x', asio_cout := t, heap_next := heap_next ?w1 + 1\<rparr>"
      "pend x' = {#(Async_accept (heap_next ?w1), AServer_accept (heap_next ?w1))#}"
    have "aecho_ops_ok True [] [] (vectors w) (heap_next w) (pend (io w))"
      unfolding fields(1,3)
      by (rule aecho_opsI [where a = 1 and f = "\<lambda>_. ?p" and C = "{#?p#}"]) (use l w1(3) client in \<open>simp_all add: server_ops_def\<close>)
    then show thesis using listening assms(1,2) fields l(1) w1(2,4) by (simp add: aecho_inv_def)
  next
    fix x' what
    assume l: "?w2 = ?w1\<lparr>io := x', asio_cerr := aserver_refusal address port what\<rparr>" "pend x' = {#}"
    have "aecho_ops_ok False [] [] (vectors w) (heap_next w) (pend (io w))"
      unfolding fields(1,3)
      by (rule aecho_opsI [where a = 1 and f = "\<lambda>_. ?p" and C = "{#?p#}"]) (use l w1(3) client in \<open>simp_all add: server_ops_def\<close>)
    then show thesis using refused assms(1,2) fields l(1) w1(4) by (simp add: aecho_inv_def)
  qed
qed

text \<open>What a client is owed, read off the invariant: nothing while a read is under way, else what the write under way carries.\<close>

lemma aecho_inv_owed:
  assumes "aecho_inv A pend now listening target (tr, v)" "s \<in> set (aserver_connections v)"
  obtains (reading) b where "(Async_read_some s b 1024, AServer_read s b) \<in># pend (io v)" "aecho_received s tr = aecho_sent s tr"
  | (writing) b bytes where "(Async_write s bytes, AServer_write s b) \<in># pend (io v)" "aecho_received s tr = aecho_sent s tr @ bytes"
proof -
  have "aecho_ops_ok listening tr (aserver_connections v) (vectors v) (heap_next v) (pend (io v))"
    using assms(1) by (simp add: aecho_inv_def)
  then show thesis
  proof (rule aecho_opsE)
    fix a f C
    assume ops: "pend (io v) = server_ops listening a f (aserver_connections v) + C" "\<not> listening \<longrightarrow> aserver_connections v = []"
      "\<forall>s \<in> set (aserver_connections v). server_op tr (vectors v) (heap_next v) s (f s)"
    have "listening" using ops(2) assms(2) by auto
    then have "f s \<in># pend (io v)" using ops(1) assms(2) by (simp add: server_ops_def)
    then show thesis using ops(3) assms(2) that by (auto simp: server_op_def)
  qed
qed

lemma aecho_inv_prefix: "aecho_inv A pend now listening target (tr, v) \<Longrightarrow> prefix (aecho_sent s tr) (aecho_received s tr)"
  by (auto simp: aecho_inv_def aecho_ops_ok_def)

lemma aecho_inv_listening: "aecho_inv A pend now True target (tr, v) \<Longrightarrow> pend (io v) \<noteq> {#}"
  by (auto simp: aecho_inv_def aecho_ops_ok_def server_ops_def)

text \<open>The exit of the benchmark: the client has received enough.\<close>

definition aecho_exit ::
    "('x, aecho_closure) asio \<Rightarrow> ('x \<Rightarrow> aecho_closure asio_op multiset) \<Rightarrow> ('x \<Rightarrow> int \<times> 'x) \<Rightarrow> (64 word \<Rightarrow> int \<Rightarrow> string) \<Rightarrow>
     64 word \<Rightarrow> 'x asio_echo \<Rightarrow> stop \<Rightarrow> bool" where
  "aecho_exit A pend now rate target w e \<longleftrightarrow>
     (\<exists>tr v request b c n out ticks. (io_step A (aecho_handler A now rate))\<^sup>*\<^sup>* ([], w) (tr, v) \<and> (request, AClient_read b) \<in># pend (io v) \<and>
        n = (word_of_nat (client_total (tr @ [((request, AClient_read b), c)])) :: 64 word) \<and> target \<le> n \<and>
        e = ExitProcess 0 (out @ ''Exchanged '' @ show_nat (unat n) @ '' bytes in '' @ aclient_elapsed_text ticks @
          '' ('' @ rate n ticks @ '' MB/s)'' @ newline))"

lemma aclient_report:
  assumes "aclient_received u = n"
  obtains ticks where "asio_cout (aclient_printResults now rate u) = asio_cout u @ ''Exchanged '' @ show_nat (unat n) @
    '' bytes in '' @ aclient_elapsed_text ticks @ '' ('' @ rate n ticks @ '' MB/s)'' @ newline"
proof (cases "now (io u)")
  case (Pair t x)
  show thesis by (rule that [of "t - aclient_start u"]) (simp add: aclient_printResults_def Pair Let_def assms)
qed

lemma aecho_stop:
  assumes "aecho_inv A pend now listening target (tr, v)" "(r, h) \<in># pend (io v)" "pend x = pend (io v) - {#(r, h)#}" "completes r c"
    "aecho_handler A now rate h (ac_error c) (ac_bytes c) (deliver r (ac_data c) (v\<lparr>io := x\<rparr>)) = Inl e"
    "(io_step A (aecho_handler A now rate))\<^sup>*\<^sup>* ([], w) (tr, v)"
  shows "aecho_exit A pend now rate target w e"
proof (cases h)
  case (AServer_read s b)
  obtain w' where "aserver_handle_read A s b (ac_error c) (ac_bytes c) (deliver r (ac_data c) (v\<lparr>io := x\<rparr>)) = Inr w'"
    by (rule aecho_read_inv [OF assms(1) assms(2,3) [unfolded AServer_read] assms(4)])
  with assms(5) AServer_read show ?thesis by simp
next
  case (AClient_read b)
  let ?v = "deliver r (ac_data c) (v\<lparr>io := x\<rparr>)" and ?n = "word_of_nat (client_total (tr @ [((r, AClient_read b), c)])) :: 64 word"
  have inv: "aclient_min_bytes v = target" "aclient_received v = word_of_nat (client_total tr)"
    using assms(1) by (simp_all add: aecho_inv_def)
  have ok: "ac_error c = 0" using assms(5) by (auto simp: AClient_read aclient_handle_read_def split: if_splits)
  let ?u = "?v\<lparr>aclient_received := ?n\<rparr>"
  have n: "aclient_received ?v + word_of_nat (ac_bytes c) = ?n" by (simp add: inv ok)
  have enough: "target \<le> ?n" and e: "e = ExitProcess 0 (asio_cout (aclient_printResults now rate ?u))"
    using assms(5) unfolding AClient_read aecho_handler.simps aclient_handle_read_def Let_def n
    by (simp_all add: ok inv not_less [symmetric] del: client_total_simps split: if_splits)
  obtain ticks where "asio_cout (aclient_printResults now rate ?u) = asio_cout ?u @ ''Exchanged '' @ show_nat (unat ?n) @ '' bytes in '' @
      aclient_elapsed_text ticks @ '' ('' @ rate ?n ticks @ '' MB/s)'' @ newline"
    by (rule aclient_report [of ?u ?n]) (simp del: client_total_simps)
  with assms(2,6) enough show ?thesis unfolding aecho_exit_def e AClient_read by blast
qed (use assms(5) in simp_all)

lemma aecho_run_result:
  assumes "io_run A (aecho_handler A now rate) w = Some res" "aecho_inv A pend now listening target ([], w)"
  shows "case res of Inr w' \<Rightarrow> \<not> listening | Inl e \<Rightarrow> aecho_exit A pend now rate target w e"
proof (cases res)
  case (Inr w')
  obtain tr v where "aecho_inv A pend now listening target (tr, v)" "pend (io v) = {#}"
    by (rule aecho.io_run_return [OF assms(1) [unfolded Inr] assms(2)])
  with aecho_inv_listening [of A pend now target tr v] Inr show ?thesis by auto
next
  case (Inl e)
  obtain tr v request h y and c :: asio_completion where stop: "(io_step A (aecho_handler A now rate))\<^sup>*\<^sup>* ([], w) (tr, v)"
      "aecho_inv A pend now listening target (tr, v)" "(request, h) \<in># pend (io v)" "completes request c" "pend y = pend (io v) - {#(request, h)#}"
      "aecho_handler A now rate h (ac_error c) (ac_bytes c) (deliver request (ac_data c) (v\<lparr>io := y\<rparr>)) = Inl e"
    by (rule aecho.io_run_stop [OF assms(1) [unfolded Inl] assms(2)])
  from aecho_stop [OF stop(2,3,5,4,6,1)] show ?thesis by (simp add: Inl)
qed

section \<open>An exchange\<close>

text \<open>An exchange of three bytes: the client connects, sends, the server reads, echoes, the client reads.\<close>

definition aecho_script :: "aecho_closure script" where
  "aecho_script = ([], [(1, \<lparr>ac_error = 0, ac_bytes = 0, ac_data = []\<rparr>), (0, \<lparr>ac_error = 0, ac_bytes = 0, ac_data = []\<rparr>),
     (0, \<lparr>ac_error = 0, ac_bytes = 1024, ac_data = []\<rparr>), (0, \<lparr>ac_error = 0, ac_bytes = 3, ac_data = [65, 66, 67]\<rparr>),
     (2, \<lparr>ac_error = 0, ac_bytes = 3, ac_data = []\<rparr>), (1, \<lparr>ac_error = 0, ac_bytes = 3, ac_data = [65, 66, 67]\<rparr>)])"

definition sample_clock :: "aecho_closure script \<Rightarrow> int \<times> aecho_closure script" where
  "sample_clock x = (0, x)"

lemma sample_clock_ok: "clock_ok sample_clock (\<lambda>x. mset (fst x))"
  by (simp add: clock_ok_def sample_clock_def)

lemmas aecho_sample_simps = aecho_script_def ref_asio_def aecho_set_up_def aserver_listen_def new_AsioEchoServer_def new_AsioEchoClient_def
  aecho_before_def make_shared_vector_def asio_open_acceptor_def try_call_def aserver_start_accept_def make_shared_socket_def asio_begin_def
  asio_log_def aserver_handle_accept_def aserver_read_def aserver_handle_read_def aserver_handle_write_def aclient_connect_def
  aclient_send_packet_def aclient_handle_connect_def aclient_handle_write_def aclient_handle_read_def sample_clock_def Let_def

lemma aecho_sample_calls:
  "\<exists>w tr v. aecho_set_up ref_asio ''127.0.0.1'' 6789 3 aecho_script = Inr w \<and>
     io_calls ref_asio (aecho_handler ref_asio sample_clock (\<lambda>_ _. [])) (Suc (Suc (Suc (Suc 0)))) ([], w) = Some (tr, v) \<and>
     1 \<in> set (aserver_connections v) \<and> aecho_received 1 tr = [65, 66, 67] \<and> aecho_sent 1 tr = []"
  by (simp add: aecho_sample_simps aecho_received_def aecho_sent_def)

lemma aecho_sample_cli:
  obtains cli where "new_EchoCLI ref_cxxopts [''echo'', ''--bytes_count=3''] = Inr cli"
    "EchoCLI_port ref_cxxopts cli = Inr 6789" "EchoCLI_bytes_count ref_cxxopts cli = Inr 3"
proof -
  let ?cli = "([(''bytes_count'', ''3'')], [(''port'', show_nat 6789), (''bytes_count'', show_nat 1000000000), (''clients_count'', show_nat 10), (''help'', [])])"
  have three: "read_nat ''3'' = Some 3" by (simp add: read_nat_def is_digit_def digits_value_def)
  have "new_EchoCLI ref_cxxopts [''echo'', ''--bytes_count=3''] = Inr ?cli"
    by (simp add: new_EchoCLI_def parse_or_help_def ref_cxxopts_def ref_parse_def split_argument_def Let_def EchoCLI_options_def
        long_name_def value_ok_def three help_option_def Echo_DEFAULT_PORT_def Echo_DEFAULT_BYTES_COUNT_def Echo_DEFAULT_CLIENTS_COUNT_def)
  moreover have "EchoCLI_port ref_cxxopts ?cli = Inr 6789" "EchoCLI_bytes_count ref_cxxopts ?cli = Inr 3"
    by (simp_all add: cli_accessor_defs ref_cxxopts_def ref_value_def three map_add_def)
  ultimately show thesis by (rule that)
qed

lemma aecho_sample_run:
  "\<exists>w out. aecho_set_up ref_asio ''127.0.0.1'' 6789 3 aecho_script = Inr w \<and>
     io_run ref_asio (aecho_handler ref_asio sample_clock (\<lambda>_ _. [])) w = Some (Inl (ExitProcess 0 out))"
  by (simp add: aecho_sample_simps io_run.simps)

section \<open>Properties of the benchmark on Asio\<close>

text \<open>C14. The echo server on Asio keeps its clients apart. In every state the benchmark can reach, and for every socket, what the
  server has sent back is a prefix of what it has received there; while the socket is connected, the rest is
  empty (and the next read is under way) or exactly what the one write under way on it carries.\<close>

theorem aserver_echoes_in_order:
  assumes "asio_contract A pend" "clock_ok now pend" "pend x = {#}" "aecho_set_up A address port target x = Inr w"
    "(io_step A (aecho_handler A now rate))\<^sup>*\<^sup>* ([], w) (tr, v)"
  shows "prefix (aecho_sent s tr) (aecho_received s tr) \<and>
    (s \<in> set (aserver_connections v) \<longrightarrow>
       (\<exists>b. (Async_read_some s b 1024, AServer_read s b) \<in># pend (io v) \<and> aecho_received s tr = aecho_sent s tr) \<or>
       (\<exists>b bytes. (Async_write s bytes, AServer_write s b) \<in># pend (io v) \<and> aecho_received s tr = aecho_sent s tr @ bytes))"
proof -
  obtain listening where "aecho_inv A pend now listening target ([], w)"
    by (rule aecho_set_up_inv [OF assms(1-4)])
  note inv = aecho.calls.run_inv [OF assms(5) this]
  from aecho_inv_prefix [OF inv] aecho_inv_owed [OF inv, of s] show ?thesis by blast
qed

theorem aserver_echoes_in_order_witness:
  "\<exists>w tr v. aecho_set_up ref_asio ''127.0.0.1'' 6789 3 aecho_script = Inr w \<and>
     (io_step ref_asio (aecho_handler ref_asio sample_clock (\<lambda>_ _. [])))\<^sup>*\<^sup>* ([], w) (tr, v) \<and>
     aecho_received 1 tr = [65, 66, 67] \<and> aecho_sent 1 tr = [] \<and>
     (\<exists>b. (Async_write 1 [65, 66, 67], AServer_write 1 b) \<in># mset (fst (io v)))"
proof -
  obtain w tr v where s: "aecho_set_up ref_asio ''127.0.0.1'' 6789 3 aecho_script = Inr w"
      "io_calls ref_asio (aecho_handler ref_asio sample_clock (\<lambda>_ _. [])) (Suc (Suc (Suc (Suc 0)))) ([], w) = Some (tr, v)"
      "1 \<in> set (aserver_connections v)" "aecho_received 1 tr = [65, 66, 67]" "aecho_sent 1 tr = []"
    using aecho_sample_calls by blast
  have idle: "mset (fst aecho_script) = {#}" by (simp add: aecho_script_def)
  note steps = io_calls_steps [OF s(2)]
  from aserver_echoes_in_order [OF ref_asio_contract sample_clock_ok idle s(1) steps, of 1] s steps show ?thesis by auto
qed



end
