(* ===== verification/Queue_Refinement.thy ===== *)
theory Queue_Refinement
  imports Request_Life
begin

text \<open>
  The submission queue against an abstract queue of requests: a forward simulation from the step relation
  of \<open>Request_Life\<close>, under the hypothesis that the submission ring keeps up with the batches (a ring that
  does not drops requests, as \<open>Submission_Queue\<close> shows).
\<close>

section \<open>The abstract queue\<close>

text \<open>
  The cycle of \<open>submissionQueue.hpp\<close> on requests instead of addresses: requests wait, a batch hands all of
  them over, each accepted one is completed (a multi-shot one repeatedly), and completions are processed
  in the order they came.
\<close>

record abs_queue =
  waiting :: "request multiset"
  accepted :: "request multiset"
  completed :: "(request \<times> int \<times> 32 word) list"

inductive spec_step :: "(request \<Rightarrow> bool) \<Rightarrow> abs_queue \<Rightarrow> abs_queue \<Rightarrow> bool" for good where
  spec_add: "good r \<Longrightarrow> spec_step good q (q\<lparr>waiting := add_mset r (waiting q)\<rparr>)"
| spec_submit: "spec_step good q (q\<lparr>waiting := {#}, accepted := accepted q + waiting q\<rparr>)"
| spec_complete: "r \<in># accepted q \<Longrightarrow>
     spec_step good q (q\<lparr>accepted := accepted q - {#r#}, completed := completed q @ [(r, res, flags)]\<rparr>)"
| spec_complete_more: "r \<in># accepted q \<Longrightarrow> \<not> single_shot (kind r) \<Longrightarrow>
     spec_step good q (q\<lparr>completed := completed q @ [(r, res, flags)]\<rparr>)"
| spec_process: "completed q = d # ds \<Longrightarrow> spec_step good q (q\<lparr>completed := ds\<rparr>)"

abbreviation request_of :: "request pool \<Rightarrow> ptr \<Rightarrow> request" where
  "request_of pool a \<equiv> the (contents pool a)"

definition spec_view :: "request pool \<Rightarrow> ptr multiset \<Rightarrow> sqe_call list multiset \<Rightarrow> cqe list \<Rightarrow> abs_queue" where
  "spec_view pool P E cs =
     \<lparr>waiting = image_mset (request_of pool) P, accepted = image_mset (\<lambda>e. request_of pool (entry_data e)) E,
      completed = map (\<lambda>c. (request_of pool (cqe_user_data c), cqe_res c, cqe_flags c)) cs\<rparr>"

definition queue_spec :: "'x ring_view \<Rightarrow> ('x, 'z) submission_queue_scheme \<Rightarrow> cqe list \<Rightarrow> abs_queue" where
  "queue_spec V s cs = spec_view (request_pool s) (waiting_ptrs s) (entries_of V (env s)) cs"

lemma spec_view_cong:
  assumes "\<And>a. a \<in># claims P E cs \<Longrightarrow> contents pool' a = contents pool a"
  shows "spec_view pool' P E cs = spec_view pool P E cs"
  using assms by (auto simp: spec_view_def claims_def intro!: image_mset_cong)

lemma spec_posts:
  assumes "posts fits E ds E'" "life good fits pool P E cs"
  shows "(spec_step good)\<^sup>*\<^sup>* (spec_view pool P E cs) (spec_view pool P E' (cs @ ds))"
  using assms
proof (induction arbitrary: cs rule: posts.induct)
  case (post_last e E c ds E')
  let ?q = "spec_view pool P E cs" and ?q1 = "spec_view pool P (E - {#e#}) (cs @ [c])"
  have r: "request_of pool (entry_data e) \<in># accepted ?q" using post_last.hyps(1) by (simp add: spec_view_def)
  have "?q1 = ?q\<lparr>accepted := accepted ?q - {#request_of pool (entry_data e)#},
      completed := completed ?q @ [(request_of pool (entry_data e), cqe_res c, cqe_flags c)]\<rparr>"
    using post_last.hyps(1,2) by (simp add: spec_view_def image_mset_Diff)
  then have one: "spec_step good ?q ?q1" using spec_complete [OF r] by simp
  have "life good fits pool P (E - {#e#}) (cs @ [c])"
    by (rule life_post_one [OF post_last.prems post_last.hyps(1-3) disjI1 [OF refl]])
  from post_last.IH [OF this] one show ?case by (simp add: converse_rtranclp_into_rtranclp)
next
  case (post_more e E c ds E')
  let ?q = "spec_view pool P E cs" and ?q1 = "spec_view pool P E (cs @ [c])"
  obtain a r where e: "deref pool a = Inr r" "e = request_calls a r" using life_entry [OF post_more.prems post_more.hyps(1)] by blast
  then have r: "request_of pool (entry_data e) = r" "\<not> single_shot (kind r)"
    using post_more.hyps(2) by (simp_all add: deref_contents)
  have in_q: "r \<in># accepted ?q" using post_more.hyps(1) r(1) by (auto simp: spec_view_def)
  have "?q1 = ?q\<lparr>completed := completed ?q @ [(r, cqe_res c, cqe_flags c)]\<rparr>"
    using post_more.hyps(3) r(1) by (simp add: spec_view_def)
  then have one: "spec_step good ?q ?q1" using spec_complete_more [OF in_q r(2)] by simp
  have "life good fits pool P E (cs @ [c])"
    using post_more.hyps(2) by (intro life_post_one [OF post_more.prems post_more.hyps(1,3,4)]) simp
  from post_more.IH [OF this] one show ?case by (simp add: converse_rtranclp_into_rtranclp)
qed simp

lemma spec_batch:
  assumes "batch_effect X V fits pool es x x'" "keeps_up X V cap x"
    "life good fits pool (image_mset snd (mset es)) (entries_of V x) (cq_view V x)"
  shows "(spec_step good)\<^sup>*\<^sup>* (spec_view pool (image_mset snd (mset es)) (entries_of V x) (cq_view V x))
     (spec_view pool {#} (entries_of V x') (cq_view V x'))"
proof -
  obtain cs where cs: "cq_view V x' = cq_view V x @ cs"
      "posts fits (entries_of V x + image_mset (entry_calls pool) (mset es)) cs (entries_of V x')"
    using assms(1,2) by (auto simp: batch_effect_def)
  let ?q = "spec_view pool (image_mset snd (mset es)) (entries_of V x) (cq_view V x)"
  have "spec_view pool {#} (entries_of V x + image_mset (entry_calls pool) (mset es)) (cq_view V x) =
      ?q\<lparr>waiting := {#}, accepted := accepted ?q + waiting ?q\<rparr>"
    by (simp add: spec_view_def image_mset.compositionality o_def)
  then have "spec_step good ?q (spec_view pool {#} (entries_of V x + image_mset (entry_calls pool) (mset es)) (cq_view V x))"
    using spec_submit [of good ?q] by simp
  moreover have "(spec_step good)\<^sup>*\<^sup>* (spec_view pool {#} (entries_of V x + image_mset (entry_calls pool) (mset es)) (cq_view V x))
      (spec_view pool {#} (entries_of V x') (cq_view V x'))"
    using spec_posts [OF cs(2) life_prepare_all [OF assms(3)]] cs(1) by simp
  ultimately show ?thesis by (rule converse_rtranclp_into_rtranclp)
qed

lemma spec_push:
  assumes "queue_life V good fits s cs" "wf_request r" "good r" "push r s = Inr s'"
  shows "spec_step good (queue_spec V s cs) (queue_spec V s' cs)"
proof -
  have inv: "sq_inv s" and l: "life good fits (request_pool s) (waiting_ptrs s) (entries_of V (env s)) cs"
    using assms(1) by (simp_all add: queue_life_def)
  obtain p pool where p: "push r s = Inr (s\<lparr>request_pool := pool, pending_requests := pending_push (kind r) p (pending_requests s)\<rparr>)"
      "p \<noteq> nullptr" "block_size (request_pool s) p = None" "contents pool = (contents (request_pool s))(p \<mapsto> r)"
    by (rule push_spec [OF inv assms(2)]) blast
  have "contents (request_pool s) p = None" using p(3) pool.value_sized by fastforce
  then have "p \<notin># claims (waiting_ptrs s) (entries_of V (env s)) cs"
    using life_claims_live [OF l, of p] by (auto simp: deref_contents)
  then have same: "spec_view pool (waiting_ptrs s) (entries_of V (env s)) cs =
      spec_view (request_pool s) (waiting_ptrs s) (entries_of V (env s)) cs"
    using p(4) by (intro spec_view_cong) auto
  have "queue_spec V s' cs = spec_view pool (add_mset p (waiting_ptrs s)) (entries_of V (env s)) cs"
    using p(1) assms(4) by (simp add: queue_spec_def pending_push_mset)
  also have "\<dots> = (queue_spec V s cs)\<lparr>waiting := add_mset r (waiting (queue_spec V s cs))\<rparr>"
    using same p(4) by (simp add: queue_spec_def spec_view_def)
  finally show ?thesis using spec_add [where good = good and r = r] assms(3) by simp
qed

lemma spec_program:
  assumes "(program_step X V good)\<^sup>*\<^sup>* s s'" "queue_life V good fits s cs"
  shows "(spec_step good)\<^sup>*\<^sup>* (queue_spec V s cs) (queue_spec V s' cs)"
  using assms(1)
proof (induction rule: rtranclp_induct)
  case (step s1 s2)
  have l: "queue_life V good fits s1 cs" by (rule program_steps(2) [OF step.hyps(1) assms(2)])
  from step.hyps(2) have "(spec_step good)\<^sup>*\<^sup>* (queue_spec V s1 cs) (queue_spec V s2 cs)"
  proof cases
    case program_own
    then have "queue_spec V s2 cs = queue_spec V s1 cs"
      using same_rings_views [of X V "env s1" "env s2"] by (simp add: queue_spec_def)
    then show ?thesis by simp
  next
    case (program_push r)
    then show ?thesis using spec_push [OF l] by blast
  qed
  with step.IH show ?case by (rule rtranclp_trans)
qed simp

lemma spec_release:
  assumes "queue_life V good fits s (c # cs)" "release c s = Inr s'"
  shows "spec_step good (queue_spec V s (c # cs)) (queue_spec V s' cs)"
proof -
  have inv: "sq_inv s" and l: "life good fits (request_pool s) (waiting_ptrs s) (entries_of V (env s)) (c # cs)"
    using assms(1) by (simp_all add: queue_life_def)
  obtain r where r: "deref (request_pool s) (cqe_user_data c) = Inr r" using lifeD(4) [OF l, of c] by auto
  then have wf: "wf_request r" using inv by (auto simp: sq_inv_def typed_pool_def deref_contents)
  have s': "s' = s\<lparr>request_pool := request_pool s'\<rparr>" by (rule release_frame [OF assms(2)])
  have "contents (request_pool s') a = contents (request_pool s) a"
    if "a \<in># claims (waiting_ptrs s) (entries_of V (env s)) cs" for a
  proof (cases "single_shot (kind r)")
    case True
    then have "cqe_user_data c \<notin># claims (waiting_ptrs s) (entries_of V (env s)) cs"
      using lifeD(5) [OF l r] by (simp add: not_in_iff)
    then have "a \<noteq> cqe_user_data c" using that by blast
    moreover obtain pool where "release c s = Inr (s\<lparr>request_pool := pool\<rparr>)"
        "contents pool = (contents (request_pool s))(cqe_user_data c := None)"
      using release_single_shot [OF inv r True] by metis
    ultimately show ?thesis using assms(2) by auto
  next
    case False
    then show ?thesis using release_multishot [OF r wf] assms(2) by simp
  qed
  then have "spec_view (request_pool s') (waiting_ptrs s) (entries_of V (env s)) cs =
      spec_view (request_pool s) (waiting_ptrs s) (entries_of V (env s)) cs"
    by (rule spec_view_cong)
  then have "queue_spec V s' cs = queue_spec V s cs" by (subst s') (simp add: queue_spec_def)
  also have "\<dots> = (queue_spec V s (c # cs))\<lparr>completed := completed (queue_spec V s cs)\<rparr>"
    by (simp add: queue_spec_def spec_view_def)
  finally have eq: "queue_spec V s' cs = (queue_spec V s (c # cs))\<lparr>completed := completed (queue_spec V s cs)\<rparr>" .
  have "completed (queue_spec V s (c # cs)) =
      (request_of (request_pool s) (cqe_user_data c), cqe_res c, cqe_flags c) # completed (queue_spec V s cs)"
    by (simp add: queue_spec_def spec_view_def)
  then show ?thesis unfolding eq by (rule spec_process)
qed

lemma spec_reap:
  assumes "callback_ok X V good fits J f" "J s" "queue_life V good fits s cs" "reap f cs s = Inr s'"
  shows "(spec_step good)\<^sup>*\<^sup>* (queue_spec V s cs) (queue_spec V s' [])"
  using assms(2-4)
proof (induction cs arbitrary: s)
  case (Cons c cs)
  obtain s1 s2 where f: "f c s = Inr s1" "release c s1 = Inr s2" "reap f cs s2 = Inr s'"
    using Cons.prems(3) by (auto simp: res_simps)
  have steps: "(program_step X V good)\<^sup>*\<^sup>* s s1" by (rule callback_okD(1) [OF assms(1) Cons.prems(1,2) f(1)])
  have J: "J s2" by (rule callback_okD(2) [OF assms(1) Cons.prems(1,2) f(1,2)])
  have l1: "queue_life V good fits s1 (c # cs)" by (rule program_steps(2) [OF steps Cons.prems(2)])
  have l2: "queue_life V good fits s2 cs" by (rule queue_life_release [OF l1]) (use f(2) in simp)
  have "(spec_step good)\<^sup>*\<^sup>* (queue_spec V s (c # cs)) (queue_spec V s1 (c # cs))"
    by (rule spec_program [OF steps Cons.prems(2)])
  moreover have "spec_step good (queue_spec V s1 (c # cs)) (queue_spec V s2 cs)" by (rule spec_release [OF l1 f(2)])
  moreover have "(spec_step good)\<^sup>*\<^sup>* (queue_spec V s2 cs) (queue_spec V s' [])" by (rule Cons.IH [OF J l2 f(3)])
  ultimately show ?case by (meson rtranclp.rtrancl_into_rtrancl rtranclp_trans)
qed simp

text \<open>The state of the abstract queue, and the invariant with a ring that keeps up.\<close>

abbreviation queue_abs :: "'x ring_view \<Rightarrow> ('x, 'z) submission_queue_scheme \<Rightarrow> abs_queue" where
  "queue_abs V s \<equiv> queue_spec V s (cq_view V (env s))"

definition queue_ok_up ::
    "'x sys \<Rightarrow> 'x ring_view \<Rightarrow> (request \<Rightarrow> bool) \<Rightarrow> (sqe_call list \<Rightarrow> cqe \<Rightarrow> bool) \<Rightarrow> (('x, 'z) submission_queue_scheme \<Rightarrow> bool) \<Rightarrow>
     (cqe \<Rightarrow> ('x, 'z) submission_queue_scheme \<Rightarrow> stop + ('x, 'z) submission_queue_scheme) \<Rightarrow> nat \<Rightarrow>
     ('x, 'z) submission_queue_scheme \<Rightarrow> bool" where
  "queue_ok_up X V good fits J f cap s \<longleftrightarrow> queue_ok X V good fits J f s \<and> keeps_up X V cap (env s)"

lemma keeps_up_rings: "keeps_up X V cap x \<Longrightarrow> sq_view V y = sq_view V x \<Longrightarrow> keeps_up X V cap y"
  by (simp add: keeps_up_def)

lemma queue_step_up:
  assumes "queue_ok_up X V good fits J f cap s" "queue_step X V good fits J f s s'"
  shows "keeps_up X V cap (env s') \<and> (spec_step good)\<^sup>*\<^sup>* (queue_abs V s) (queue_abs V s')"
proof -
  have ok: "ring_contract X V fits" "callback_ok X V good fits J f" "J s" "queue_life V good fits s (cq_view V (env s))"
      and up: "keeps_up X V cap (env s)"
    using assms(1) by (simp_all add: queue_ok_up_def queue_ok_def)
  have l: "life good fits (request_pool s) (waiting_ptrs s) (entries_of V (env s)) (cq_view V (env s))"
    using ok(4) by (simp add: queue_life_def)
  from assms(2) show ?thesis
  proof cases
    case by_program
    have "same_rings X V (env s) (env s')" by (rule program_step_rings [OF by_program(1)])
    then show ?thesis
      using spec_program [of X V good s s', OF _ ok(4)] by_program keeps_up_rings [OF up] by (auto simp: same_rings_def)
  next
    case (by_submit t n)
    obtain m x where x: "submit X t s = Inr (m, s\<lparr>env := x, pending_requests := no_pending\<rparr>)"
        "batch_effect X V fits (request_pool s) (pending_entries (pending_requests s)) (env s) x"
      by (rule queue_life_submit [OF ok(1,4)]) blast
    have "keeps_up X V cap x" using x(2) up by (auto simp: batch_effect_def)
    moreover have "(spec_step good)\<^sup>*\<^sup>* (queue_abs V s) (queue_abs V (s\<lparr>env := x, pending_requests := no_pending\<rparr>))"
      using spec_batch [OF x(2) up l] by (simp add: queue_spec_def)
    ultimately show ?thesis using x(1) by_submit by auto
  next
    case (by_kernel x)
    obtain cs where "cq_view V x = cq_view V (env s) @ cs" "posts fits (entries_of V (env s)) cs (entries_of V x)"
      by (rule ring_moves_entries [OF by_kernel(2)])
    then show ?thesis
      using spec_posts [of fits "entries_of V (env s)" cs "entries_of V x", OF _ l] keeps_up_moves [OF up by_kernel(2)] by_kernel(1)
      by (simp add: queue_spec_def)
  next
    case by_walk
    from ok show ?thesis
    proof (cases rule: forEachCompletion_life)
      case (returns s1 x)
      have "keeps_up X V cap x" using keeps_up_rings [OF up] returns(3,4) by (simp add: same_rings_def)
      moreover have "queue_spec V (s1\<lparr>env := x\<rparr>) [] = queue_spec V s1 []"
        using returns(4,5) by (simp add: queue_spec_def entries_of_def)
      ultimately show ?thesis
        using spec_reap [OF ok(2-4) returns(1)] returns(2,6) by_walk by auto
    qed (use by_walk in simp)
  qed
qed

interpretation queue_up: step_simulation "queue_step X V good fits J f" "queue_ok_up X V good fits J f cap" "queue_abs V" "spec_step good"
  for X V good fits J f cap
proof
  show "queue_ok_up X V good fits J f cap s'" if "queue_ok_up X V good fits J f cap s" "queue_step X V good fits J f s s'" for s s'
    using that queue_step_ok [of X V good fits J f s s'] queue_step_up [OF that] by (simp add: queue_ok_up_def)
  show "(spec_step good)\<^sup>*\<^sup>* (queue_abs V s) (queue_abs V s')"
    if "queue_ok_up X V good fits J f cap s" "queue_step X V good fits J f s s'" for s s'
    using queue_step_up [OF that] by blast
qed

section \<open>Property\<close>



end
