(* ===== verification/Queue_Threads.thy ===== *)
theory Queue_Threads
  imports Queue_Refinement
begin

text \<open>
  The submission queue between threads, one access to shared data at a time. \<open>Request_Life\<close> lets threads add requests
  between the operations of the loop; here they do so in the middle of them: \<open>push\<close> of
  \<open>submissionQueue.hpp\<close> is split at the pool, the assignment and the mutex, \<open>submit\<close> and \<open>forEachCompletion\<close>
  at every request, every completion and every call into the kernel, and the kernel posts completions
  at any moment, also while they are walked.

  The request pool is a \<open>std::pmr::unsynchronized_pool_resource\<close>, which two threads must not use at the same
  time. A call of it takes two steps, so that such a \<open>race\<close> is a state; nothing is said of what follows it.
\<close>

section \<open>States\<close>

text \<open>Where a thread is in \<open>push\<close>: in the pool, before the assignment \<open>*ptr = std::move(request)\<close>, before the mutex, holding it.\<close>

datatype push_pc =
    Outside
  | Allocating request
  | Assigning request ptr
  | Locking Operation ptr
  | Appending Operation ptr
  | Unlocking

text \<open>
  Where the loop is: before \<open>submit\<close>; in \<open>preparePendingRequests\<close>, with the mutex, the requests still to visit and the count; before
  the call that enters the kernel; in \<open>forEachCompletion\<close> with its \<open>head\<close> and \<open>processed\<close>, between
  completions, in the function it was given, in \<open>release\<close>, in the pool.
\<close>

datatype loop_pc =
    Loop_submit
  | Loop_preparing "(Operation \<times> ptr) list" nat
  | Loop_unlocking nat
  | Loop_entering nat
  | Loop_walking "32 word" "32 word"
  | Loop_calling "32 word" "32 word" cqe
  | Loop_releasing "32 word" "32 word" cqe
  | Loop_freeing "32 word" "32 word" cqe

text \<open>Thread 0 runs the loop; the function it calls may add requests too.\<close>

record ('x, 'z) thread_state =
  queue :: "('x, 'z) submission_queue_scheme"
  pending_requests_mutex :: "nat option"
  pushing :: "nat \<Rightarrow> push_pc"
  at_loop :: loop_pc

primrec in_callback :: "loop_pc \<Rightarrow> bool" where
  "in_callback Loop_submit = False"
| "in_callback (Loop_preparing es n) = False"
| "in_callback (Loop_unlocking n) = False"
| "in_callback (Loop_entering n) = False"
| "in_callback (Loop_walking h k) = False"
| "in_callback (Loop_calling h k c) = True"
| "in_callback (Loop_releasing h k c) = False"
| "in_callback (Loop_freeing h k c) = False"

primrec push_in_pool :: "push_pc \<Rightarrow> bool" where
  "push_in_pool Outside = False"
| "push_in_pool (Allocating r) = True"
| "push_in_pool (Assigning r p) = False"
| "push_in_pool (Locking k p) = False"
| "push_in_pool (Appending k p) = False"
| "push_in_pool Unlocking = False"

primrec loop_in_pool :: "loop_pc \<Rightarrow> bool" where
  "loop_in_pool Loop_submit = False"
| "loop_in_pool (Loop_preparing es n) = False"
| "loop_in_pool (Loop_unlocking n) = False"
| "loop_in_pool (Loop_entering n) = False"
| "loop_in_pool (Loop_walking h k) = False"
| "loop_in_pool (Loop_calling h k c) = False"
| "loop_in_pool (Loop_releasing h k c) = False"
| "loop_in_pool (Loop_freeing h k c) = True"

definition in_pool :: "('x, 'z) thread_state \<Rightarrow> nat \<Rightarrow> bool" where
  "in_pool s t \<longleftrightarrow> push_in_pool (pushing s t) \<or> t = 0 \<and> loop_in_pool (at_loop s)"

definition race :: "('x, 'z) thread_state \<Rightarrow> bool" where
  "race s \<longleftrightarrow> (\<exists>t u. t \<noteq> u \<and> in_pool s t \<and> in_pool s u)"

section \<open>Steps\<close>

text \<open>
  \<open>push\<close> by one of the threads in \<open>T\<close>: allocate, assign, lock, append, unlock. \<open>good\<close> is as in \<open>Request_Life\<close>.
\<close>

inductive push_step ::
    "(request \<Rightarrow> bool) \<Rightarrow> nat set \<Rightarrow> ('x, 'z) thread_state \<Rightarrow> ('x, 'z) thread_state \<Rightarrow> bool"
  for good T where
  push_begin: "t \<in> T \<Longrightarrow> pushing s t = Outside \<Longrightarrow> (t = 0 \<longrightarrow> in_callback (at_loop s)) \<Longrightarrow> wf_request r \<Longrightarrow> good r \<Longrightarrow>
     push_step good T s (s\<lparr>pushing := (pushing s)(t := Allocating r)\<rparr>)"
| push_allocate: "pushing s t = Allocating r \<Longrightarrow> allocate (sizeof_request (kind r)) (request_pool (queue s)) = (p, pool) \<Longrightarrow>
     push_step good T s (s\<lparr>queue := (queue s)\<lparr>request_pool := pool\<rparr>, pushing := (pushing s)(t := Assigning r p)\<rparr>)"
| push_assign: "pushing s t = Assigning r p \<Longrightarrow> store p r (request_pool (queue s)) = Inr pool \<Longrightarrow>
     push_step good T s (s\<lparr>queue := (queue s)\<lparr>request_pool := pool\<rparr>, pushing := (pushing s)(t := Locking (kind r) p)\<rparr>)"
| push_lock: "pushing s t = Locking k p \<Longrightarrow> pending_requests_mutex s = None \<Longrightarrow>
     push_step good T s (s\<lparr>pending_requests_mutex := Some t, pushing := (pushing s)(t := Appending k p)\<rparr>)"
| push_append: "pushing s t = Appending k p \<Longrightarrow>
     push_step good T s
       (s\<lparr>queue := (queue s)\<lparr>pending_requests := pending_push k p (pending_requests (queue s))\<rparr>, pushing := (pushing s)(t := Unlocking)\<rparr>)"
| push_unlock: "pushing s t = Unlocking \<Longrightarrow>
     push_step good T s (s\<lparr>pending_requests_mutex := None, pushing := (pushing s)(t := Outside)\<rparr>)"

text \<open>\<open>submit\<close>: under the mutex each request is prepared and the lists are cleared; then the kernel is entered.\<close>

inductive submit_step :: "'x sys \<Rightarrow> ('x, 'z) thread_state \<Rightarrow> ('x, 'z) thread_state \<Rightarrow> bool" for X where
  loop_lock: "at_loop s = Loop_submit \<Longrightarrow> pending_requests_mutex s = None \<Longrightarrow>
     submit_step X s (s\<lparr>pending_requests_mutex := Some 0, at_loop := Loop_preparing (pending_entries (pending_requests (queue s))) 0\<rparr>)"
| loop_prepare: "at_loop s = Loop_preparing (e # es) n \<Longrightarrow> prepare (fst e) X (snd e) (queue s) = Inr (st, q) \<Longrightarrow>
     submit_step X s (s\<lparr>queue := q, at_loop := Loop_preparing es (Suc n)\<rparr>)"
| loop_clear: "at_loop s = Loop_preparing [] n \<Longrightarrow>
     submit_step X s
       (s\<lparr>queue := (queue s)\<lparr>pending_requests := pending_clear (pending_requests (queue s))\<rparr>, at_loop := Loop_unlocking n\<rparr>)"
| loop_unlock: "at_loop s = Loop_unlocking n \<Longrightarrow>
     submit_step X s (s\<lparr>pending_requests_mutex := None, at_loop := Loop_entering n\<rparr>)"
| loop_enter: "at_loop s = Loop_entering n \<Longrightarrow> enter_ring X timeout n (queue s) = (st, q) \<Longrightarrow>
     submit_step X s (s\<lparr>queue := q, at_loop := Loop_walking (cq_khead X (env q)) 0\<rparr>)"

text \<open>\<open>forEachCompletion\<close>: the ring is looked at anew for every completion, and marked as seen at the end.\<close>

inductive walk_step :: "'x sys \<Rightarrow> ('x, 'z) thread_state \<Rightarrow> ('x, 'z) thread_state \<Rightarrow> bool" for X where
  loop_next: "at_loop s = Loop_walking h k \<Longrightarrow> cqe_at X (env (queue s)) h = Some c \<Longrightarrow>
     walk_step X s (s\<lparr>at_loop := Loop_calling h k c\<rparr>)"
| loop_return: "at_loop s = Loop_calling h k c \<Longrightarrow> pushing s 0 = Outside \<Longrightarrow>
     walk_step X s (s\<lparr>at_loop := Loop_releasing h k c\<rparr>)"
| loop_keep: "at_loop s = Loop_releasing h k c \<Longrightarrow> deref (request_pool (queue s)) (cqe_user_data c) = Inr r \<Longrightarrow> \<not> single_shot (kind r) \<Longrightarrow>
     release c (queue s) = Inr q \<Longrightarrow> walk_step X s (s\<lparr>queue := q, at_loop := Loop_walking (h + 1) (k + 1)\<rparr>)"
| loop_free: "at_loop s = Loop_releasing h k c \<Longrightarrow> deref (request_pool (queue s)) (cqe_user_data c) = Inr r \<Longrightarrow> single_shot (kind r) \<Longrightarrow>
     walk_step X s (s\<lparr>at_loop := Loop_freeing h k c\<rparr>)"
| loop_freed: "at_loop s = Loop_freeing h k c \<Longrightarrow> release c (queue s) = Inr q \<Longrightarrow>
     walk_step X s (s\<lparr>queue := q, at_loop := Loop_walking (h + 1) (k + 1)\<rparr>)"
| loop_advance: "at_loop s = Loop_walking h k \<Longrightarrow> cqe_at X (env (queue s)) h = None \<Longrightarrow>
     walk_step X s
       (s\<lparr>queue := (if k \<noteq> 0 then (queue s)\<lparr>env := io_uring_cq_advance X k (env (queue s))\<rparr> else queue s), at_loop := Loop_submit\<rparr>)"

text \<open>All of it in any order, with the kernel, and with whatever leaves the queue alone. \<open>fits\<close> is as in \<open>Request_Life\<close>.\<close>

inductive thread_step ::
    "'x sys \<Rightarrow> 'x ring_view \<Rightarrow> (request \<Rightarrow> bool) \<Rightarrow> (sqe_call list \<Rightarrow> cqe \<Rightarrow> bool) \<Rightarrow> nat set \<Rightarrow>
     ('x, 'z) thread_state \<Rightarrow> ('x, 'z) thread_state \<Rightarrow> bool"
  for X V good fits T where
  thread_push: "push_step good T s s' \<Longrightarrow> thread_step X V good fits T s s'"
| thread_submit: "submit_step X s s' \<Longrightarrow> thread_step X V good fits T s s'"
| thread_walk: "walk_step X s s' \<Longrightarrow> thread_step X V good fits T s s'"
| own_step: "request_pool q = request_pool (queue s) \<Longrightarrow> pending_requests q = pending_requests (queue s) \<Longrightarrow>
     same_rings X V (env (queue s)) (env q) \<Longrightarrow> thread_step X V good fits T s (s\<lparr>queue := q\<rparr>)"
| kernel_step: "ring_moves X V fits 0 (env (queue s)) x \<Longrightarrow> thread_step X V good fits T s (s\<lparr>queue := (queue s)\<lparr>env := x\<rparr>\<rparr>)"

text \<open>Runs up to the first race.\<close>

definition system_step ::
    "'x sys \<Rightarrow> 'x ring_view \<Rightarrow> (request \<Rightarrow> bool) \<Rightarrow> (sqe_call list \<Rightarrow> cqe \<Rightarrow> bool) \<Rightarrow> nat set \<Rightarrow>
     ('x, 'z) thread_state \<Rightarrow> ('x, 'z) thread_state \<Rightarrow> bool" where
  "system_step X V good fits T s s' \<longleftrightarrow> \<not> race s \<and> thread_step X V good fits T s s'"

section \<open>The invariant\<close>

text \<open>The completions still to process, the requests still to prepare, and the position of the walk.\<close>

primrec walk_position :: "loop_pc \<Rightarrow> (32 word \<times> 32 word) option" where
  "walk_position Loop_submit = None"
| "walk_position (Loop_preparing es n) = None"
| "walk_position (Loop_unlocking n) = None"
| "walk_position (Loop_entering n) = None"
| "walk_position (Loop_walking h k) = Some (h, k)"
| "walk_position (Loop_calling h k c) = Some (h, k)"
| "walk_position (Loop_releasing h k c) = Some (h, k)"
| "walk_position (Loop_freeing h k c) = Some (h, k)"

primrec current :: "loop_pc \<Rightarrow> cqe option" where
  "current Loop_submit = None"
| "current (Loop_preparing es n) = None"
| "current (Loop_unlocking n) = None"
| "current (Loop_entering n) = None"
| "current (Loop_walking h k) = None"
| "current (Loop_calling h k c) = Some c"
| "current (Loop_releasing h k c) = Some c"
| "current (Loop_freeing h k c) = Some c"

definition processed :: "loop_pc \<Rightarrow> nat" where
  "processed l = (case walk_position l of None \<Rightarrow> 0 | Some (h, k) \<Rightarrow> unat k)"

definition unprocessed :: "'x ring_view \<Rightarrow> ('x, 'z) thread_state \<Rightarrow> cqe list" where
  "unprocessed V s = drop (processed (at_loop s)) (cq_view V (env (queue s)))"

definition to_prepare :: "('x, 'z) thread_state \<Rightarrow> (Operation \<times> ptr) list" where
  "to_prepare s = (case at_loop s of Loop_preparing es n \<Rightarrow> es | _ \<Rightarrow> pending_entries (pending_requests (queue s)))"

abbreviation unprepared :: "('x, 'z) thread_state \<Rightarrow> ptr multiset" where
  "unprepared s \<equiv> image_mset snd (mset (to_prepare s))"

abbreviation claimed :: "'x ring_view \<Rightarrow> ('x, 'z) thread_state \<Rightarrow> ptr multiset" where
  "claimed V s \<equiv> claims (unprepared s) (entries_of V (env (queue s))) (unprocessed V s)"

text \<open>The block a thread has in its hands, and what it knows of it.\<close>

primrec held :: "push_pc \<Rightarrow> ptr option" where
  "held Outside = None"
| "held (Allocating r) = None"
| "held (Assigning r p) = Some p"
| "held (Locking k p) = Some p"
| "held (Appending k p) = Some p"
| "held Unlocking = None"

primrec push_ok :: "(request \<Rightarrow> bool) \<Rightarrow> request pool \<Rightarrow> push_pc \<Rightarrow> bool" where
  "push_ok good pool Outside \<longleftrightarrow> True"
| "push_ok good pool (Allocating r) \<longleftrightarrow> wf_request r \<and> good r"
| "push_ok good pool (Assigning r p) \<longleftrightarrow> wf_request r \<and> good r \<and> p \<noteq> nullptr \<and> block_size pool p = Some (sizeof_request (kind r)) \<and> contents pool p = None"
| "push_ok good pool (Locking k p) \<longleftrightarrow> (\<exists>r. deref pool p = Inr r \<and> kind r = k)"
| "push_ok good pool (Appending k p) \<longleftrightarrow> (\<exists>r. deref pool p = Inr r \<and> kind r = k)"
| "push_ok good pool Unlocking \<longleftrightarrow> True"

primrec push_locked :: "push_pc \<Rightarrow> bool" where
  "push_locked Outside = False"
| "push_locked (Allocating r) = False"
| "push_locked (Assigning r p) = False"
| "push_locked (Locking k p) = False"
| "push_locked (Appending k p) = True"
| "push_locked Unlocking = True"

primrec loop_locked :: "loop_pc \<Rightarrow> bool" where
  "loop_locked Loop_submit = False"
| "loop_locked (Loop_preparing es n) = True"
| "loop_locked (Loop_unlocking n) = True"
| "loop_locked (Loop_entering n) = False"
| "loop_locked (Loop_walking h k) = False"
| "loop_locked (Loop_calling h k c) = False"
| "loop_locked (Loop_releasing h k c) = False"
| "loop_locked (Loop_freeing h k c) = False"

definition holds_mutex :: "('x, 'z) thread_state \<Rightarrow> nat \<Rightarrow> bool" where
  "holds_mutex s t \<longleftrightarrow> push_locked (pushing s t) \<or> t = 0 \<and> loop_locked (at_loop s)"

text \<open>The queue and the loop.\<close>

definition loop_inv :: "'x sys \<Rightarrow> 'x ring_view \<Rightarrow> (request \<Rightarrow> bool) \<Rightarrow> (sqe_call list \<Rightarrow> cqe \<Rightarrow> bool) \<Rightarrow> ('x, 'z) thread_state \<Rightarrow> bool" where
  "loop_inv X V good fits s \<longleftrightarrow> sq_inv (queue s) \<and>
     life good fits (request_pool (queue s)) (unprepared s) (entries_of V (env (queue s))) (unprocessed V s) \<and>
     (\<forall>h k. walk_position (at_loop s) = Some (h, k) \<longrightarrow>
        h = cq_khead X (env (queue s)) + k \<and> unat k \<le> length (cq_view V (env (queue s)))) \<and>
     (\<forall>c. current (at_loop s) = Some c \<longrightarrow> (\<exists>cs. unprocessed V s = c # cs)) \<and>
     set (to_prepare s) \<subseteq> set (pending_entries (pending_requests (queue s)))"

text \<open>The threads that add requests: what they hold is theirs alone.\<close>

definition push_inv :: "'x ring_view \<Rightarrow> (request \<Rightarrow> bool) \<Rightarrow> nat set \<Rightarrow> ('x, 'z) thread_state \<Rightarrow> bool" where
  "push_inv V good T s \<longleftrightarrow>
     (\<forall>t. push_ok good (request_pool (queue s)) (pushing s t)) \<and>
     (\<forall>t p. held (pushing s t) = Some p \<longrightarrow> p \<notin># claimed V s) \<and>
     (\<forall>t u p. held (pushing s t) = Some p \<longrightarrow> held (pushing s u) = Some p \<longrightarrow> t = u) \<and>
     (\<forall>t. t \<notin> T \<longrightarrow> pushing s t = Outside)"

definition mutex_inv :: "('x, 'z) thread_state \<Rightarrow> bool" where
  "mutex_inv s \<longleftrightarrow> (\<forall>t. holds_mutex s t \<longleftrightarrow> pending_requests_mutex s = Some t) \<and> (pushing s 0 \<noteq> Outside \<longrightarrow> in_callback (at_loop s))"

definition thread_inv ::
    "'x sys \<Rightarrow> 'x ring_view \<Rightarrow> (request \<Rightarrow> bool) \<Rightarrow> (sqe_call list \<Rightarrow> cqe \<Rightarrow> bool) \<Rightarrow> nat set \<Rightarrow> ('x, 'z) thread_state \<Rightarrow> bool" where
  "thread_inv X V good fits T s \<longleftrightarrow>
     ring_contract X V fits \<and> loop_inv X V good fits s \<and> push_inv V good T s \<and> mutex_inv s"

section \<open>Mutual exclusion\<close>

lemma mutex_holder: "mutex_inv s \<Longrightarrow> holds_mutex s t \<Longrightarrow> holds_mutex s u \<Longrightarrow> t = u"
  by (auto simp: mutex_inv_def)

lemma mutex_push:
  assumes "mutex_inv s" "\<forall>u. u \<noteq> t \<longrightarrow> pushing s' u = pushing s u" "at_loop s' = at_loop s" "t = 0 \<longrightarrow> in_callback (at_loop s)"
    "pending_requests_mutex s' = (if push_locked (pushing s' t) then Some t else if push_locked (pushing s t) then None else pending_requests_mutex s)"
    "push_locked (pushing s' t) \<longrightarrow> \<not> push_locked (pushing s t) \<longrightarrow> pending_requests_mutex s = None"
  shows "mutex_inv s'"
proof -
  have apart: "loop_locked (at_loop s) \<Longrightarrow> t \<noteq> 0" using assms(4) by (cases "at_loop s") auto
  have others: "holds_mutex s' u = holds_mutex s u" if "u \<noteq> t" for u using that assms(2,3) by (simp add: holds_mutex_def)
  have this_one: "holds_mutex s' t = push_locked (pushing s' t)" "holds_mutex s t = push_locked (pushing s t)"
    using assms(3) apart by (auto simp: holds_mutex_def)
  have old: "holds_mutex s u = (pending_requests_mutex s = Some u)" for u using assms(1) by (simp add: mutex_inv_def)
  have "holds_mutex s' u \<longleftrightarrow> pending_requests_mutex s' = Some u" for u
    using assms(5,6) others [of u] this_one old [of u] old [of t] by (cases "u = t") (auto split: if_splits)
  moreover have "pushing s' 0 \<noteq> Outside \<Longrightarrow> in_callback (at_loop s')"
    using assms(1-4) by (cases "t = 0") (auto simp: mutex_inv_def)
  ultimately show ?thesis by (simp add: mutex_inv_def)
qed

lemma mutex_loop:
  assumes "mutex_inv s" "pushing s' = pushing s" "pushing s 0 \<noteq> Outside \<longrightarrow> in_callback (at_loop s')"
    "pending_requests_mutex s' = (if loop_locked (at_loop s') then Some 0 else if loop_locked (at_loop s) then None else pending_requests_mutex s)"
    "loop_locked (at_loop s') \<longrightarrow> \<not> loop_locked (at_loop s) \<longrightarrow> pending_requests_mutex s = None"
  shows "mutex_inv s'"
proof -
  have apart: "push_locked (pushing s 0) \<Longrightarrow> \<not> loop_locked (at_loop s') \<and> \<not> loop_locked (at_loop s)"
    using assms(1,3) unfolding mutex_inv_def by (cases "at_loop s"; cases "at_loop s'") auto
  have others: "holds_mutex s' u = holds_mutex s u" if "u \<noteq> 0" for u using that assms(2) by (simp add: holds_mutex_def)
  have this_one: "holds_mutex s' 0 = (push_locked (pushing s 0) \<or> loop_locked (at_loop s'))"
      "holds_mutex s 0 = (push_locked (pushing s 0) \<or> loop_locked (at_loop s))"
    using assms(2) by (simp_all add: holds_mutex_def)
  have old: "holds_mutex s u = (pending_requests_mutex s = Some u)" for u using assms(1) by (simp add: mutex_inv_def)
  have "holds_mutex s' u \<longleftrightarrow> pending_requests_mutex s' = Some u" for u
    using assms(4,5) others [of u] apart this_one old [of u] old [of 0] by (cases "u = 0") (auto split: if_splits)
  then show ?thesis using assms(2,3) by (simp add: mutex_inv_def)
qed

lemma mutex_step:
  assumes "mutex_inv s" "thread_step X V good fits T s s'"
  shows "mutex_inv s'"
proof -
  have in_push: "t = 0 \<longrightarrow> in_callback (at_loop s)" if "pushing s t \<noteq> Outside" for t using assms(1) that by (auto simp: mutex_inv_def)
  have at_zero: "pushing s 0 = Outside" if "\<not> in_callback (at_loop s)" using assms(1) that by (auto simp: mutex_inv_def)
  from assms(2) show ?thesis
  proof cases
    case thread_push
    then show ?thesis
    proof cases
      case (push_begin t r)
      then show ?thesis by (intro mutex_push [OF assms(1), of t]) simp_all
    next
      case (push_allocate t r p pool)
      then show ?thesis using in_push [of t] by (intro mutex_push [OF assms(1), of t]) simp_all
    next
      case (push_assign t r p pool)
      then show ?thesis using in_push [of t] by (intro mutex_push [OF assms(1), of t]) simp_all
    next
      case (push_lock t k p)
      then show ?thesis using in_push [of t] by (intro mutex_push [OF assms(1), of t]) simp_all
    next
      case (push_append t k p)
      have "pending_requests_mutex s = Some t" using assms(1) push_append(2) unfolding mutex_inv_def holds_mutex_def by fastforce
      then show ?thesis using push_append in_push [of t] by (intro mutex_push [OF assms(1), of t]) simp_all
    next
      case (push_unlock t)
      then show ?thesis using in_push [of t] by (intro mutex_push [OF assms(1), of t]) simp_all
    qed
  next
    case thread_submit
    then show ?thesis
    proof cases
      case (loop_prepare e es n st q)
      have "pending_requests_mutex s = Some 0" using assms(1) loop_prepare(2) unfolding mutex_inv_def holds_mutex_def by fastforce
      then show ?thesis using loop_prepare at_zero by (intro mutex_loop [OF assms(1)]) simp_all
    next
      case (loop_clear n)
      have "pending_requests_mutex s = Some 0" using assms(1) loop_clear(2) unfolding mutex_inv_def holds_mutex_def by fastforce
      then show ?thesis using loop_clear at_zero by (intro mutex_loop [OF assms(1)]) simp_all
    qed (use at_zero in \<open>intro mutex_loop [OF assms(1)]; simp\<close>)+
  next
    case thread_walk
    then show ?thesis by cases (use at_zero in \<open>intro mutex_loop [OF assms(1)]; simp\<close>)+
  next
    case (own_step q)
    then show ?thesis using assms(1) by (simp add: mutex_inv_def holds_mutex_def)
  next
    case (kernel_step x)
    then show ?thesis using assms(1) by (simp add: mutex_inv_def holds_mutex_def)
  qed
qed

section \<open>Claims\<close>

text \<open>The life-cycle invariant depends on the contents of the pool only; an address nobody claims can be claimed.\<close>

lemma life_contents:
  assumes "life good fits pool P E cs" "contents pool' = contents pool"
  shows "life good fits pool' P E cs"
proof -
  have "deref pool' a = Inr r \<longleftrightarrow> deref pool a = Inr r" for a r by (simp add: deref_contents assms(2))
  with assms(1) show ?thesis by (simp add: life_def)
qed

lemma life_claim:
  assumes "life good fits pool P E cs" "deref pool p = Inr r" "p \<notin># claims P E cs"
  shows "life good fits pool (add_mset p P) E cs"
proof (rule lifeI)
  show "count (claims (add_mset p P) E cs) a \<le> 1" if "deref pool a = Inr q" "single_shot (kind q)" for a q
    using life_once [OF assms(1) that] assms(3) by (cases "a = p") (simp_all add: not_in_iff)
qed (use lifeD(1-4) [OF assms(1)] assms(2) in auto)

text \<open>Nothing new is claimed when the kernel posts completions, and when a waiting request becomes an entry.\<close>

lemma posts_claims: "posts fits E ds E' \<Longrightarrow> set_mset (claims P E' (cs @ ds)) \<subseteq> set_mset (claims P E cs)"
proof (induction arbitrary: cs rule: posts.induct)
  case (post_last e E c ds E')
  have "set_mset (claims P (E - {#e#}) (cs @ [c])) \<subseteq> set_mset (claims P E cs)"
    using post_last.hyps(1,2) by (auto simp: claims_def dest: in_diffD)
  from subset_trans [OF post_last.IH [of "cs @ [c]"] this] show ?case by simp
next
  case (post_more e E c ds E')
  have "set_mset (claims P E (cs @ [c])) \<subseteq> set_mset (claims P E cs)" using post_more.hyps(1,3) by (auto simp: claims_def)
  from subset_trans [OF post_more.IH [of "cs @ [c]"] this] show ?case by simp
qed simp

lemma batch_one_claims:
  assumes "batch_effect X V fits pool [e] x x'" "life good fits pool (add_mset (snd e) P) (entries_of V x) cs"
  obtains ds where "cq_view V x' = cq_view V x @ ds" "life good fits pool P (entries_of V x') (cs @ ds)"
    "set_mset (claims P (entries_of V x') (cs @ ds)) \<subseteq> set_mset (claims (add_mset (snd e) P) (entries_of V x) cs)"
proof -
  obtain B ds where B: "B \<subseteq># {#e#}" "cq_view V x' = cq_view V x @ ds"
      "posts fits (entries_of V x + image_mset (entry_calls pool) B) ds (entries_of V x')"
    using assms(1) by (auto simp: batch_effect_def)
  obtain r where r: "deref pool (snd e) = Inr r" using life_waiting [OF assms(2)] by auto
  then have calls: "entry_calls pool e = request_calls (snd e) r" by (simp add: deref_contents)
  have "B = {#} \<or> B = {#e#}" using B(1) by (cases B) (auto simp: insert_subset_eq_iff)
  then have "life good fits pool P (entries_of V x + image_mset (entry_calls pool) B) cs \<and>
      set_mset (claims P (entries_of V x + image_mset (entry_calls pool) B) cs) \<subseteq> set_mset (claims (add_mset (snd e) P) (entries_of V x) cs)"
    using life_forget [OF assms(2)] life_prepare [OF assms(2) r] calls by (auto simp: claims_def)
  then show thesis
    using that [OF B(2)] life_posts [OF B(3)] posts_claims [OF B(3), of P cs] by blast
qed

section \<open>Steps of push\<close>

lemma held_live: "push_ok good pool pc \<Longrightarrow> held pc = Some p \<Longrightarrow> block_size pool p \<noteq> None"
  using pool.value_sized [of pool p] by (cases pc) (auto simp: deref_contents)

lemma push_ok_keep:
  assumes "push_ok good pool pc" "\<And>p. held pc = Some p \<Longrightarrow> contents pool' p = contents pool p \<and> block_size pool' p = block_size pool p"
  shows "push_ok good pool' pc"
  using assms by (cases pc) (auto simp: deref_contents)

text \<open>One thread moves; what the others hold is as it was.\<close>

lemma push_inv_move:
  assumes "push_inv V good T s" "pushing s' = (pushing s)(t := pc)" "push_ok good (request_pool (queue s')) pc" "pc \<noteq> Outside \<longrightarrow> t \<in> T"
    "\<And>u p. u \<noteq> t \<Longrightarrow> held (pushing s u) = Some p \<Longrightarrow> p \<notin># claimed V s' \<and> held pc \<noteq> Some p \<and>
       contents (request_pool (queue s')) p = contents (request_pool (queue s)) p \<and>
       block_size (request_pool (queue s')) p = block_size (request_pool (queue s)) p"
    "\<And>p. held pc = Some p \<Longrightarrow> p \<notin># claimed V s'"
  shows "push_inv V good T s'"
proof -
  have "push_ok good (request_pool (queue s')) (pushing s' u)" for u
    using assms(1-3,5) push_ok_keep [of good "request_pool (queue s)" "pushing s u" "request_pool (queue s')"]
    by (cases "u = t") (auto simp: push_inv_def)
  moreover have "p \<notin># claimed V s'" if "held (pushing s' u) = Some p" for u p
    using that assms(2,5,6) by (cases "u = t") auto
  moreover have "u = v" if "held (pushing s' u) = Some p" "held (pushing s' v) = Some p" for u v p
    using that assms(1,2) assms(5) [of u p] assms(5) [of v p] by (cases "u = t"; cases "v = t") (auto simp: push_inv_def)
  moreover have "pushing s' u = Outside" if "u \<notin> T" for u
    using that assms(1,2,4) by (cases "u = t") (auto simp: push_inv_def)
  ultimately show ?thesis unfolding push_inv_def by blast
qed

text \<open>The invariant of the loop depends on the queue and on where the loop is; what the loop does leaves the other threads alone.\<close>

lemma loop_inv_same:
  assumes "loop_inv X V good fits s" "queue s' = queue s" "at_loop s' = at_loop s"
  shows "loop_inv X V good fits s'"
  using assms by (simp add: loop_inv_def to_prepare_def unprocessed_def cong: loop_pc.case_cong)

lemma push_inv_same:
  assumes "push_inv V good T s" "pushing s' = pushing s" "set_mset (claimed V s') \<subseteq> set_mset (claimed V s)"
    "\<And>t p. held (pushing s t) = Some p \<Longrightarrow> contents (request_pool (queue s')) p = contents (request_pool (queue s)) p \<and>
       block_size (request_pool (queue s')) p = block_size (request_pool (queue s)) p"
  shows "push_inv V good T s'"
proof -
  have "push_ok good (request_pool (queue s')) (pushing s' t)" for t
    using assms(1,2,4) push_ok_keep [of good "request_pool (queue s)" "pushing s t" "request_pool (queue s')"]
    by (simp add: push_inv_def)
  moreover have "p \<notin># claimed V s'" if "held (pushing s' t) = Some p" for t p
    using that assms(1-3) unfolding push_inv_def by (simp add: subset_iff) blast
  ultimately show ?thesis using assms(1,2) unfolding push_inv_def by simp
qed

lemma push_invD:
  assumes "push_inv V good T s"
  shows "push_ok good (request_pool (queue s)) (pushing s t)" "held (pushing s t) = Some p \<Longrightarrow> p \<notin># claimed V s"
    "held (pushing s t) = Some p \<Longrightarrow> held (pushing s u) = Some p \<Longrightarrow> t = u" "pushing s t \<noteq> Outside \<Longrightarrow> t \<in> T"
  using assms unfolding push_inv_def by blast+

lemma loop_invD:
  assumes "loop_inv X V good fits s"
  shows "sq_inv (queue s)" "life good fits (request_pool (queue s)) (unprepared s) (entries_of V (env (queue s))) (unprocessed V s)"
    "walk_position (at_loop s) = Some (h, k) \<Longrightarrow> h = cq_khead X (env (queue s)) + k \<and> unat k \<le> length (cq_view V (env (queue s)))"
    "current (at_loop s) = Some c \<Longrightarrow> \<exists>cs. unprocessed V s = c # cs"
    "set (to_prepare s) \<subseteq> set (pending_entries (pending_requests (queue s)))"
  using assms unfolding loop_inv_def by blast+

text \<open>The pool changes under the loop.\<close>

lemma loop_inv_pool:
  assumes "loop_inv X V good fits s" "sq_inv ((queue s)\<lparr>request_pool := pool\<rparr>)"
    "life good fits pool (unprepared s) (entries_of V (env (queue s))) (unprocessed V s)"
    "queue s' = (queue s)\<lparr>request_pool := pool\<rparr>" "at_loop s' = at_loop s"
  shows "loop_inv X V good fits s' \<and> claimed V s' = claimed V s"
proof -
  have parts: "to_prepare s' = to_prepare s" "unprocessed V s' = unprocessed V s"
    using assms(4,5) by (simp_all add: to_prepare_def unprocessed_def split: loop_pc.split)
  with assms show ?thesis by (simp add: loop_inv_def)
qed

lemma push_allocate_inv:
  assumes "thread_inv X V good fits T s" "pushing s t = Allocating r" "allocate (sizeof_request (kind r)) (request_pool (queue s)) = (p, pool)"
  defines "s' \<equiv> s\<lparr>queue := (queue s)\<lparr>request_pool := pool\<rparr>, pushing := (pushing s)(t := Assigning r p)\<rparr>"
  shows "loop_inv X V good fits s' \<and> push_inv V good T s'"
proof -
  let ?pool = "request_pool (queue s)"
  have inv: "loop_inv X V good fits s" "push_inv V good T s" using assms(1) by (simp_all add: thread_inv_def)
  note sq = loop_invD(1) [OF inv(1)] and l = loop_invD(2) [OF inv(1)]
  have n: "p \<noteq> nullptr" "block_size ?pool p = None" "pool_inv pool" "block_size pool = (block_size ?pool)(p \<mapsto> sizeof_request (kind r))"
      "contents pool = (contents ?pool)(p := None)"
    using pool.alloc_new [OF _ sizeof_request_pos assms(3)] sq by (simp_all add: sq_inv_def)
  have none: "contents ?pool p = None" using n(2) pool.value_sized by fastforce
  have same: "contents pool = contents ?pool" using n(5) none by (simp add: fun_eq_iff)
  have "typed_pool pool" using sq n(2) by (auto simp: sq_inv_def typed_pool_def same n(4) dest: pool.value_sized)
  then have "sq_inv ((queue s)\<lparr>request_pool := pool\<rparr>)" using sq n(3) by (simp add: sq_inv_def entries_ok_def deref_contents same)
  then have loop: "loop_inv X V good fits s'" "claimed V s' = claimed V s"
    using loop_inv_pool [OF inv(1) _ life_contents [OF l same], of s'] by (simp_all add: s'_def)
  moreover have "push_inv V good T s'"
  proof (rule push_inv_move [OF inv(2), of _ t "Assigning r p"])
    show "push_ok good (request_pool (queue s')) (Assigning r p)"
      using push_invD(1) [OF inv(2), of t] assms(2) n none by (simp add: s'_def)
    have "p \<notin># claimed V s" using life_claims_live [OF l, of p] none by (auto simp: deref_contents)
    then show "q \<notin># claimed V s'" if "held (Assigning r p) = Some q" for q using that loop(2) by simp
    fix u q assume u: "u \<noteq> t" "held (pushing s u) = Some q"
    have "block_size ?pool q \<noteq> None" by (rule held_live [OF push_invD(1) [OF inv(2)] u(2)])
    then show "q \<notin># claimed V s' \<and> held (Assigning r p) \<noteq> Some q \<and>
        contents (request_pool (queue s')) q = contents ?pool q \<and> block_size (request_pool (queue s')) q = block_size ?pool q"
      using push_invD(2) [OF inv(2) u(2)] n(2) loop(2) by (auto simp: same n(4) s'_def)
  qed (use push_invD(4) [OF inv(2), of t] assms(2) in \<open>simp_all add: s'_def\<close>)
  ultimately show ?thesis by simp
qed

lemma push_assign_inv:
  assumes "thread_inv X V good fits T s" "pushing s t = Assigning r p" "store p r (request_pool (queue s)) = Inr pool"
  defines "s' \<equiv> s\<lparr>queue := (queue s)\<lparr>request_pool := pool\<rparr>, pushing := (pushing s)(t := Locking (kind r) p)\<rparr>"
  shows "loop_inv X V good fits s' \<and> push_inv V good T s'"
proof -
  let ?pool = "request_pool (queue s)"
  have inv: "loop_inv X V good fits s" "push_inv V good T s" using assms(1) by (simp_all add: thread_inv_def)
  note sq = loop_invD(1) [OF inv(1)] and l = loop_invD(2) [OF inv(1)]
  have r: "wf_request r" "good r" "p \<noteq> nullptr" "block_size ?pool p = Some (sizeof_request (kind r))" "contents ?pool p = None"
    using push_invD(1) [OF inv(2), of t] assms(2) by simp_all
  have n: "pool_inv pool" "block_size pool = block_size ?pool" "contents pool = (contents ?pool)(p \<mapsto> r)"
    using pool.put_live [OF _ r(4), of r] sq assms(3) by (auto simp: sq_inv_def)
  have "typed_pool pool" using sq r(1,4) by (auto simp: sq_inv_def typed_pool_def n)
  moreover have "p \<notin> snd ` set (pending_entries (pending_requests (queue s)))"
    using sq r(5) by (fastforce simp: sq_inv_def entries_ok_def deref_contents)
  ultimately have "sq_inv ((queue s)\<lparr>request_pool := pool\<rparr>)" using sq n(1) entries_ok_frame [OF _ _ n(3)] by (simp add: sq_inv_def)
  then have loop: "loop_inv X V good fits s'" "claimed V s' = claimed V s"
    using loop_inv_pool [OF inv(1) _ life_forget [OF life_add [OF l r(5,3) n(3) r(2)]], of s'] by (simp_all add: s'_def)
  moreover have "push_inv V good T s'"
  proof (rule push_inv_move [OF inv(2), of _ t "Locking (kind r) p"])
    show "q \<notin># claimed V s'" if "held (Locking (kind r) p) = Some q" for q
      using that push_invD(2) [OF inv(2), of t p] assms(2) loop(2) by simp
    fix u q assume u: "u \<noteq> t" "held (pushing s u) = Some q"
    then have "q \<noteq> p" using push_invD(3) [OF inv(2), of u p t] assms(2) by auto
    then show "q \<notin># claimed V s' \<and> held (Locking (kind r) p) \<noteq> Some q \<and>
        contents (request_pool (queue s')) q = contents ?pool q \<and> block_size (request_pool (queue s')) q = block_size ?pool q"
      using push_invD(2) [OF inv(2) u(2)] loop(2) by (auto simp: n(2,3) s'_def)
  qed (use push_invD(4) [OF inv(2), of t] assms(2) r(3) in \<open>simp_all add: s'_def deref_contents n(3)\<close>)
  ultimately show ?thesis by simp
qed

text \<open>The thread only goes on.\<close>

lemma push_moves_on:
  assumes "thread_inv X V good fits T s" "push_ok good (request_pool (queue s)) pc" "held pc = None \<or> held pc = held (pushing s t)"
    "pc \<noteq> Outside \<longrightarrow> t \<in> T" "queue s' = queue s" "at_loop s' = at_loop s" "pushing s' = (pushing s)(t := pc)"
  shows "loop_inv X V good fits s' \<and> push_inv V good T s'"
proof -
  have inv: "loop_inv X V good fits s" "push_inv V good T s" using assms(1) by (simp_all add: thread_inv_def)
  have same: "claimed V s' = claimed V s" using assms(5,6) by (simp add: to_prepare_def unprocessed_def cong: loop_pc.case_cong)
  have "push_inv V good T s'"
  proof (rule push_inv_move [OF inv(2) assms(7)])
    show "q \<notin># claimed V s'" if "held pc = Some q" for q
      using that assms(3) push_invD(2) [OF inv(2), of t q] same by auto
    fix u q assume u: "u \<noteq> t" "held (pushing s u) = Some q"
    then have "held pc \<noteq> Some q" using push_invD(3) [OF inv(2), of u q t] assms(3) by auto
    then show "q \<notin># claimed V s' \<and> held pc \<noteq> Some q \<and>
        contents (request_pool (queue s')) q = contents (request_pool (queue s)) q \<and>
        block_size (request_pool (queue s')) q = block_size (request_pool (queue s)) q"
      using push_invD(2) [OF inv(2) u(2)] same assms(5) by simp
  qed (use assms in simp_all)
  then show ?thesis using loop_inv_same [OF inv(1) assms(5,6)] by simp
qed

lemma appending_parts:
  assumes "mutex_inv s" "pushing s t = Appending k p"
  defines "s' \<equiv> s\<lparr>queue := (queue s)\<lparr>pending_requests := pending_push k p (pending_requests (queue s))\<rparr>, pushing := (pushing s)(t := Unlocking)\<rparr>"
  shows "to_prepare s = pending_entries (pending_requests (queue s))"
    "to_prepare s' = pending_entries (pending_push k p (pending_requests (queue s)))" "unprocessed V s' = unprocessed V s"
proof -
  have "holds_mutex s t" "pushing s 0 \<noteq> Outside \<Longrightarrow> in_callback (at_loop s)" using assms(2,1) by (simp_all add: holds_mutex_def mutex_inv_def)
  then have "\<not> loop_locked (at_loop s)"
    using mutex_holder [OF assms(1), of t 0] assms(2) by (cases "at_loop s") (auto simp: holds_mutex_def)
  then show "to_prepare s = pending_entries (pending_requests (queue s))"
      "to_prepare s' = pending_entries (pending_push k p (pending_requests (queue s)))" "unprocessed V s' = unprocessed V s"
    by (cases "at_loop s"; simp add: to_prepare_def unprocessed_def s'_def)+
qed

lemma push_append_inv:
  assumes "thread_inv X V good fits T s" "pushing s t = Appending k p"
  defines "s' \<equiv> s\<lparr>queue := (queue s)\<lparr>pending_requests := pending_push k p (pending_requests (queue s))\<rparr>, pushing := (pushing s)(t := Unlocking)\<rparr>"
  shows "loop_inv X V good fits s' \<and> push_inv V good T s'"
proof -
  have inv: "loop_inv X V good fits s" "push_inv V good T s" "mutex_inv s" using assms(1) by (simp_all add: thread_inv_def)
  note sq = loop_invD(1) [OF inv(1)] and l = loop_invD(2) [OF inv(1)]
  note pend = appending_parts [OF inv(3) assms(2), folded s'_def]
  obtain r where r: "deref (request_pool (queue s)) p = Inr r" "kind r = k"
    using push_invD(1) [OF inv(2), of t] assms(2) by auto
  have p: "p \<notin># claimed V s" using push_invD(2) [OF inv(2), of t p] assms(2) by simp
  then have notin: "p \<notin> snd ` set (pending_entries (pending_requests (queue s)))" by (auto simp: claims_def pend(1))
  have "entries_ok (request_pool (queue s)) (pending_entries (pending_push k p (pending_requests (queue s))))"
    using sq r unfolding sq_inv_def entries_ok_def pend.entries_add_set by auto
  then have "sq_inv (queue s')" using sq notin by (simp add: sq_inv_def s'_def distinct_pending_push)
  then have "loop_inv X V good fits s'"
    using inv(1) life_claim [OF l r(1) p] pend by (simp add: loop_inv_def pending_push_mset) (simp add: s'_def)
  moreover have "push_inv V good T s'"
  proof (rule push_inv_move [OF inv(2), of _ t Unlocking])
    fix u q assume u: "u \<noteq> t" "held (pushing s u) = Some q"
    then have "q \<noteq> p" using push_invD(3) [OF inv(2), of u p t] assms(2) by auto
    then show "q \<notin># claimed V s' \<and> held Unlocking \<noteq> Some q \<and>
        contents (request_pool (queue s')) q = contents (request_pool (queue s)) q \<and>
        block_size (request_pool (queue s')) q = block_size (request_pool (queue s)) q"
      using push_invD(2) [OF inv(2) u(2)] pend by (simp add: pending_push_mset) (simp add: s'_def)
  qed (use push_invD(4) [OF inv(2), of t] assms(2) in \<open>simp_all add: s'_def\<close>)
  ultimately show ?thesis by simp
qed

section \<open>Steps of the kernel and of the loop\<close>

lemma processed_le: "loop_inv X V good fits s \<Longrightarrow> processed (at_loop s) \<le> length (cq_view V (env (queue s)))"
  using loop_invD(3) [of X V good fits s] by (auto simp: processed_def split: option.split)

lemma rings_move_inv:
  assumes "loop_inv X V good fits s" "push_inv V good T s" "ring_moves X V fits n (env (queue s)) x"
    "queue s' = (queue s)\<lparr>env := x\<rparr>" "pushing s' = pushing s" "at_loop s' = at_loop s"
  shows "loop_inv X V good fits s' \<and> push_inv V good T s'"
proof -
  obtain ds where ds: "cq_view V x = cq_view V (env (queue s)) @ ds" "posts fits (entries_of V (env (queue s))) ds (entries_of V x)"
    by (rule ring_moves_entries [OF assms(3)])
  have khead: "cq_khead X x = cq_khead X (env (queue s))" using assms(3) by (simp add: ring_moves_def)
  have parts: "to_prepare s' = to_prepare s" "unprocessed V s' = unprocessed V s @ ds"
    using assms(4,6) ds(1) processed_le [OF assms(1)] by (simp_all add: to_prepare_def unprocessed_def split: loop_pc.split)
  have "life good fits (request_pool (queue s)) (unprepared s) (entries_of V x) (unprocessed V s @ ds)"
    by (rule life_posts [OF ds(2) loop_invD(2) [OF assms(1)]])
  then have "loop_inv X V good fits s'"
    using assms(1,4,6) parts khead ds(1) unfolding loop_inv_def by (auto simp: sq_inv_def)
  moreover have "push_inv V good T s'"
    by (rule push_inv_same [OF assms(2,5)]) (use posts_claims [OF ds(2)] assms(4) parts in auto)
  ultimately show ?thesis ..
qed

lemma same_rings_inv:
  assumes "loop_inv X V good fits s" "push_inv V good T s" "request_pool q = request_pool (queue s)"
    "pending_requests q = pending_requests (queue s)" "same_rings X V (env (queue s)) (env q)"
  shows "loop_inv X V good fits (s\<lparr>queue := q\<rparr>) \<and> push_inv V good T (s\<lparr>queue := q\<rparr>)"
proof -
  have rings: "entries_of V (env q) = entries_of V (env (queue s))" "cq_view V (env q) = cq_view V (env (queue s))"
      "cq_khead X (env q) = cq_khead X (env (queue s))"
    using same_rings_views [OF assms(5)] assms(5) by (simp_all add: same_rings_def)
  have parts: "to_prepare (s\<lparr>queue := q\<rparr>) = to_prepare s" "unprocessed V (s\<lparr>queue := q\<rparr>) = unprocessed V s"
    using rings assms(4) by (simp_all add: to_prepare_def unprocessed_def split: loop_pc.split)
  have "loop_inv X V good fits (s\<lparr>queue := q\<rparr>)"
    using assms(1,3,4) parts rings unfolding loop_inv_def by (simp add: sq_inv_def)
  moreover have "push_inv V good T (s\<lparr>queue := q\<rparr>)"
    by (rule push_inv_same [OF assms(2)]) (use rings parts assms(3) in simp_all)
  ultimately show ?thesis ..
qed

text \<open>The loop goes to its next point and neither the completions nor the requests before it change.\<close>

lemma loop_moves_on:
  assumes "loop_inv X V good fits s" "push_inv V good T s" "queue s' = queue s" "pushing s' = pushing s"
    "to_prepare s' = to_prepare s" "processed (at_loop s') = processed (at_loop s)"
    "\<And>h k. walk_position (at_loop s') = Some (h, k) \<Longrightarrow> h = cq_khead X (env (queue s)) + k \<and> unat k \<le> length (cq_view V (env (queue s)))"
    "\<And>c. current (at_loop s') = Some c \<Longrightarrow> \<exists>cs. unprocessed V s = c # cs"
  shows "loop_inv X V good fits s' \<and> push_inv V good T s'"
proof -
  have un: "unprocessed V s' = unprocessed V s" using assms(3,6) by (simp add: unprocessed_def)
  have "loop_inv X V good fits s'" using assms un unfolding loop_inv_def by simp
  moreover have "push_inv V good T s'" by (rule push_inv_same [OF assms(2,4)]) (use assms(3,5) un in simp_all)
  ultimately show ?thesis ..
qed

lemma loop_prepare_inv:
  assumes "thread_inv X V good fits T s" "at_loop s = Loop_preparing (e # es) n" "prepare (fst e) X (snd e) (queue s) = Inr (st, q)"
  defines "s' \<equiv> s\<lparr>queue := q, at_loop := Loop_preparing es (Suc n)\<rparr>"
  shows "loop_inv X V good fits s' \<and> push_inv V good T s'"
proof -
  have inv: "ring_contract X V fits" "loop_inv X V good fits s" "push_inv V good T s" using assms(1) by (simp_all add: thread_inv_def)
  have todo: "to_prepare s = e # es" and un: "unprocessed V s = cq_view V (env (queue s))"
    using assms(2) by (simp_all add: to_prepare_def unprocessed_def processed_def)
  have "e \<in> set (pending_entries (pending_requests (queue s)))" using loop_invD(5) [OF inv(2)] todo by simp
  then obtain r where r: "deref (request_pool (queue s)) (snd e) = Inr r" "kind r = fst e"
    using loop_invD(1) [OF inv(2)] by (auto simp: sq_inv_def entries_ok_def)
  obtain x where x: "q = (queue s)\<lparr>env := x\<rparr>" "batch_effect X V fits (request_pool (queue s)) [e] (env (queue s)) x"
    by (rule prepare_ring [OF inv(1) r]) (use assms(3) in auto)
  have "life good fits (request_pool (queue s)) (add_mset (snd e) (image_mset snd (mset es))) (entries_of V (env (queue s))) (cq_view V (env (queue s)))"
    using loop_invD(2) [OF inv(2)] todo un by simp
  then obtain ds where ds: "cq_view V x = cq_view V (env (queue s)) @ ds"
      "life good fits (request_pool (queue s)) (image_mset snd (mset es)) (entries_of V x) (cq_view V x)"
      "set_mset (claims (image_mset snd (mset es)) (entries_of V x) (cq_view V x)) \<subseteq> set_mset (claimed V s)"
    by (rule batch_one_claims [OF x(2)]) (simp add: todo un)
  have parts: "to_prepare s' = es" "unprocessed V s' = cq_view V x" "queue s' = (queue s)\<lparr>env := x\<rparr>"
    by (simp_all add: s'_def x(1) to_prepare_def unprocessed_def processed_def)
  have "loop_inv X V good fits s'"
    using ds(2) loop_invD(1,5) [OF inv(2)] todo parts unfolding loop_inv_def by (simp add: sq_inv_def) (simp add: s'_def)
  moreover have "push_inv V good T s'"
    by (rule push_inv_same [OF inv(3)]) (use ds(3) parts in \<open>simp_all add: s'_def\<close>)
  ultimately show ?thesis ..
qed

lemma loop_clear_inv:
  assumes "thread_inv X V good fits T s" "at_loop s = Loop_preparing [] n"
  defines "s' \<equiv> s\<lparr>queue := (queue s)\<lparr>pending_requests := pending_clear (pending_requests (queue s))\<rparr>, at_loop := Loop_unlocking n\<rparr>"
  shows "loop_inv X V good fits s' \<and> push_inv V good T s'"
proof -
  have inv: "loop_inv X V good fits s" "push_inv V good T s" using assms(1) by (simp_all add: thread_inv_def)
  have parts: "to_prepare s = []" "to_prepare s' = []" "unprocessed V s' = unprocessed V s"
    using assms(2) by (simp_all add: s'_def to_prepare_def unprocessed_def processed_def)
  have "loop_inv X V good fits s'"
    using inv(1) parts unfolding loop_inv_def by (simp add: sq_inv_def) (simp add: s'_def entries_ok_def)
  moreover have "push_inv V good T s'"
    by (rule push_inv_same [OF inv(2)]) (use parts in \<open>simp_all add: s'_def\<close>)
  ultimately show ?thesis ..
qed

lemma loop_enter_inv:
  assumes "thread_inv X V good fits T s" "at_loop s = Loop_entering n" "enter_ring X timeout n (queue s) = (st, q)"
  defines "s' \<equiv> s\<lparr>queue := q, at_loop := Loop_walking (cq_khead X (env q)) 0\<rparr>"
  shows "loop_inv X V good fits s' \<and> push_inv V good T s'"
proof -
  have inv: "ring_contract X V fits" "loop_inv X V good fits s" "push_inv V good T s" using assms(1) by (simp_all add: thread_inv_def)
  obtain y where y: "q = (queue s)\<lparr>env := y\<rparr>" "y = env (queue s) \<or> (\<exists>k. ring_moves X V fits k (env (queue s)) y) \<or>
      (\<exists>k z. ring_moves X V fits k (env (queue s)) z \<and> ring_moves X V fits 0 z y)"
    by (rule enter_ring_moves [OF inv(1), of timeout n "queue s"]) (use assms(3) in auto)
  let ?s1 = "s\<lparr>queue := q\<rparr>"
  have one: "loop_inv X V good fits (s\<lparr>queue := (queue s)\<lparr>env := z\<rparr>\<rparr>) \<and> push_inv V good T (s\<lparr>queue := (queue s)\<lparr>env := z\<rparr>\<rparr>)"
    if "ring_moves X V fits k (env (queue s)) z" for k z
    by (rule rings_move_inv [OF inv(2,3) that]) simp_all
  have two: "loop_inv X V good fits (s\<lparr>queue := (queue s)\<lparr>env := y\<rparr>\<rparr>) \<and> push_inv V good T (s\<lparr>queue := (queue s)\<lparr>env := y\<rparr>\<rparr>)"
    if "ring_moves X V fits k (env (queue s)) z" "ring_moves X V fits 0 z y" for k z
    by (rule rings_move_inv [OF conjunct1 [OF one [OF that(1)]] conjunct2 [OF one [OF that(1)]], of 0 y]) (use that(2) in simp_all)
  have s1: "loop_inv X V good fits ?s1" "push_inv V good T ?s1"
    using y inv(2,3) one two by auto
  show ?thesis
    by (rule loop_moves_on [OF s1]) (use assms(2) in \<open>simp_all add: s'_def to_prepare_def processed_def\<close>)
qed

text \<open>The completion under the loop's hands, and the step past it.\<close>

lemma current_request:
  assumes "loop_inv X V good fits s" "current (at_loop s) = Some c"
  obtains r where "deref (request_pool (queue s)) (cqe_user_data c) = Inr r" "wf_request r" "good r"
    "fits (request_calls (cqe_user_data c) r) c" "cqe_user_data c \<in># claimed V s"
proof -
  obtain cs where cs: "unprocessed V s = c # cs" using loop_invD(4) [OF assms] by blast
  note l = loop_invD(2) [OF assms(1)]
  obtain r where r: "deref (request_pool (queue s)) (cqe_user_data c) = Inr r" "fits (request_calls (cqe_user_data c) r) c"
    using life_completion [OF l, of c] cs by auto
  moreover have "wf_request r" using loop_invD(1) [OF assms(1)] r(1) by (auto simp: sq_inv_def typed_pool_def deref_contents)
  moreover have "good r" by (rule life_good [OF l r(1)])
  ultimately show thesis using cs by (intro that [of r]) simp_all
qed

lemma release_elsewhere:
  assumes "sq_inv q" "deref (request_pool q) (cqe_user_data c) = Inr r" "wf_request r" "release c q = Inr q'" "p \<noteq> cqe_user_data c"
  shows "contents (request_pool q') p = contents (request_pool q) p \<and> block_size (request_pool q') p = block_size (request_pool q) p"
proof (cases "single_shot (kind r)")
  case True
  obtain pool where "release c q = Inr (q\<lparr>request_pool := pool\<rparr>)"
      "contents pool = (contents (request_pool q))(cqe_user_data c := None)"
      "block_size pool = (block_size (request_pool q))(cqe_user_data c := None)"
    by (rule release_single_shot [OF assms(1,2) True])
  then show ?thesis using assms(4,5) by auto
next
  case False
  then show ?thesis using release_multishot [OF assms(2,3)] assms(4) by simp
qed

lemma unat_next: "unat k < n \<Longrightarrow> n < 2 ^ 32 \<Longrightarrow> unat (k + 1 :: 32 word) = Suc (unat k)"
  by (simp add: unat_word_ariths(1))

lemma release_parts:
  assumes "ring_contract X V fits" "loop_inv X V good fits s" "current (at_loop s) = Some c" "walk_position (at_loop s) = Some (h, k)"
    "release c (queue s) = Inr q"
  defines "s' \<equiv> s\<lparr>queue := q, at_loop := Loop_walking (h + 1) (k + 1)\<rparr>"
  obtains cs pool where "unprocessed V s = c # cs" "unprocessed V s' = cs" "q = (queue s)\<lparr>request_pool := pool\<rparr>"
    "to_prepare s = pending_entries (pending_requests (queue s))" "to_prepare s' = pending_entries (pending_requests (queue s))"
    "queue_life V good fits (queue s) (c # cs)" "queue_life V good fits q cs"
    "h = cq_khead X (env (queue s)) + k" "unat (k + 1) \<le> length (cq_view V (env (queue s)))"
proof -
  let ?cq = "cq_view V (env (queue s))"
  obtain cs where cs: "unprocessed V s = c # cs" using loop_invD(4) [OF assms(2,3)] by blast
  have todo: "to_prepare s = pending_entries (pending_requests (queue s))"
    using assms(3) by (cases "at_loop s") (simp_all add: to_prepare_def)
  have life: "queue_life V good fits (queue s) (c # cs)" using loop_invD(1,2) [OF assms(2)] cs todo by (simp add: queue_life_def)
  then obtain pool where q: "q = (queue s)\<lparr>request_pool := pool\<rparr>" "queue_life V good fits q cs"
    by (rule queue_life_release) (use assms(5) in auto)
  have walk: "drop (unat k) ?cq = c # cs" "h = cq_khead X (env (queue s)) + k"
    using cs assms(4) loop_invD(3) [OF assms(2,4)] by (simp_all add: unprocessed_def processed_def)
  have at: "unat k < length ?cq" "drop (Suc (unat k)) ?cq = cs"
    by (metis walk(1) drop_all list.discI not_less, metis walk(1) drop_Suc list.sel(3) drop_tl)
  moreover have "length ?cq < 2 ^ 32" using ring_cq [OF assms(1)] unfolding cq_contract_def by blast
  ultimately have k: "unat (k + 1) = Suc (unat k)" using unat_next by blast
  show thesis
    by (rule that [of cs pool])
      (use cs q life todo walk(2) k at in \<open>simp_all add: s'_def to_prepare_def unprocessed_def processed_def\<close>)
qed

lemma loop_release_inv:
  assumes "thread_inv X V good fits T s" "current (at_loop s) = Some c" "walk_position (at_loop s) = Some (h, k)" "release c (queue s) = Inr q"
  defines "s' \<equiv> s\<lparr>queue := q, at_loop := Loop_walking (h + 1) (k + 1)\<rparr>"
  shows "loop_inv X V good fits s' \<and> push_inv V good T s'"
proof -
  have inv: "ring_contract X V fits" "loop_inv X V good fits s" "push_inv V good T s" using assms(1) by (simp_all add: thread_inv_def)
  obtain cs pool where cs: "unprocessed V s = c # cs" "unprocessed V s' = cs" and q: "q = (queue s)\<lparr>request_pool := pool\<rparr>"
      and todo: "to_prepare s = pending_entries (pending_requests (queue s))" "to_prepare s' = pending_entries (pending_requests (queue s))"
      and life: "queue_life V good fits q cs" and k: "h = cq_khead X (env (queue s)) + k" "unat (k + 1) \<le> length (cq_view V (env (queue s)))"
    unfolding s'_def by (rule release_parts [OF inv(1,2) assms(2-4)])
  have "loop_inv X V good fits s'"
    using life cs todo k unfolding loop_inv_def queue_life_def by (simp add: s'_def) (simp add: q ac_simps)
  moreover obtain r where r: "deref (request_pool (queue s)) (cqe_user_data c) = Inr r" "wf_request r" "cqe_user_data c \<in># claimed V s"
    by (rule current_request [OF inv(2) assms(2)])
  have "push_inv V good T s'"
  proof (rule push_inv_same [OF inv(3)])
    fix t p assume p: "held (pushing s t) = Some p"
    have "p \<noteq> cqe_user_data c" using push_invD(2) [OF inv(3) p] r(3) by blast
    then show "contents (request_pool (queue s')) p = contents (request_pool (queue s)) p \<and>
        block_size (request_pool (queue s')) p = block_size (request_pool (queue s)) p"
      using release_elsewhere [OF loop_invD(1) [OF inv(2)] r(1,2) assms(4)] by (simp add: s'_def)
  qed (use cs todo in \<open>auto simp: s'_def q\<close>)
  ultimately show ?thesis by simp
qed

lemma loop_next_inv:
  assumes "thread_inv X V good fits T s" "at_loop s = Loop_walking h k" "cqe_at X (env (queue s)) h = Some c"
  shows "loop_inv X V good fits (s\<lparr>at_loop := Loop_calling h k c\<rparr>) \<and> push_inv V good T (s\<lparr>at_loop := Loop_calling h k c\<rparr>)"
proof -
  let ?cq = "cq_view V (env (queue s))"
  have inv: "ring_contract X V fits" "loop_inv X V good fits s" "push_inv V good T s" using assms(1) by (simp_all add: thread_inv_def)
  have walk: "h = cq_khead X (env (queue s)) + k" "unat k \<le> length ?cq" using loop_invD(3) [OF inv(2)] assms(2) by simp_all
  have "cqe_at X (env (queue s)) (cq_khead X (env (queue s)) + word_of_nat (unat k)) = (if unat k < length ?cq then Some (?cq ! unat k) else None)"
    using ring_cq [OF inv(1)] walk(2) unfolding cq_contract_def by blast
  then have "unat k < length ?cq" "c = ?cq ! unat k" using assms(3) walk(1) by (auto split: if_splits)
  then have "unprocessed V s = c # drop (Suc (unat k)) ?cq" using assms(2) by (simp add: unprocessed_def processed_def Cons_nth_drop_Suc)
  then show ?thesis
    by (intro loop_moves_on [OF inv(2,3)]) (use assms(2) walk in \<open>simp_all add: to_prepare_def processed_def\<close>)
qed

lemma advance_parts:
  assumes "ring_contract X V fits" "loop_inv X V good fits s" "at_loop s = Loop_walking h k"
  defines "s' \<equiv> s\<lparr>queue := (if k \<noteq> 0 then (queue s)\<lparr>env := io_uring_cq_advance X k (env (queue s))\<rparr> else queue s), at_loop := Loop_submit\<rparr>"
  shows "to_prepare s' = to_prepare s" "unprocessed V s' = unprocessed V s" "entries_of V (env (queue s')) = entries_of V (env (queue s))"
    "sq_view V (env (queue s')) = sq_view V (env (queue s))"
proof -
  let ?cq = "cq_view V (env (queue s))"
  have "unat k \<le> length ?cq" using loop_invD(3) [OF assms(2)] assms(3) by simp
  then have "cq_view V (io_uring_cq_advance X k (env (queue s))) = drop (unat k) ?cq"
    using ring_cq [OF assms(1)] unfolding cq_contract_def by blast
  then show "to_prepare s' = to_prepare s" "unprocessed V s' = unprocessed V s" "entries_of V (env (queue s')) = entries_of V (env (queue s))"
      "sq_view V (env (queue s')) = sq_view V (env (queue s))"
    using assms(3) ring_advance [OF assms(1)] by (simp_all add: s'_def to_prepare_def unprocessed_def processed_def entries_of_def)
qed

lemma loop_advance_inv:
  assumes "thread_inv X V good fits T s" "at_loop s = Loop_walking h k"
  defines "s' \<equiv> s\<lparr>queue := (if k \<noteq> 0 then (queue s)\<lparr>env := io_uring_cq_advance X k (env (queue s))\<rparr> else queue s), at_loop := Loop_submit\<rparr>"
  shows "loop_inv X V good fits s' \<and> push_inv V good T s'"
proof -
  have inv: "ring_contract X V fits" "loop_inv X V good fits s" "push_inv V good T s" using assms(1) by (simp_all add: thread_inv_def)
  note parts = advance_parts [OF inv(1,2) assms(2), folded s'_def]
  have E: "request_pool (queue s') = request_pool (queue s)" "pending_requests (queue s') = pending_requests (queue s)"
    by (simp_all add: s'_def)
  have "loop_inv X V good fits s'"
    using inv(2) parts E unfolding loop_inv_def by (simp add: sq_inv_def) (simp add: s'_def)
  moreover have "push_inv V good T s'"
    by (rule push_inv_same [OF inv(3)]) (use parts E in \<open>simp_all add: s'_def\<close>)
  ultimately show ?thesis ..
qed

section \<open>Every step keeps the invariant\<close>

lemma thread_step_inv:
  assumes "thread_inv X V good fits T s" "thread_step X V good fits T s s'"
  shows "thread_inv X V good fits T s'"
proof -
  have inv: "ring_contract X V fits" "loop_inv X V good fits s" "push_inv V good T s" "mutex_inv s"
    using assms(1) by (simp_all add: thread_inv_def)
  have "loop_inv X V good fits s' \<and> push_inv V good T s'"
    using assms(2)
  proof cases
    case thread_push
    then show ?thesis
    proof cases
      case (push_begin t r)
      then show ?thesis by (intro push_moves_on [OF assms(1), of "Allocating r" t]) simp_all
    next
      case (push_allocate t r p pool)
      then show ?thesis using push_allocate_inv [OF assms(1)] by simp
    next
      case (push_assign t r p pool)
      then show ?thesis using push_assign_inv [OF assms(1)] by simp
    next
      case (push_lock t k p)
      then show ?thesis using push_invD(1,4) [OF inv(3), of t] by (intro push_moves_on [OF assms(1), of "Appending k p" t]) auto
    next
      case (push_append t k p)
      then show ?thesis using push_append_inv [OF assms(1)] by simp
    next
      case (push_unlock t)
      then show ?thesis by (intro push_moves_on [OF assms(1), of Outside t]) auto
    qed
  next
    case thread_submit
    then show ?thesis
    proof cases
      case loop_lock
      then show ?thesis by (intro loop_moves_on [OF inv(2,3)]) (simp_all add: to_prepare_def processed_def)
    next
      case (loop_prepare e es n st q)
      then show ?thesis using loop_prepare_inv [OF assms(1)] by simp
    next
      case (loop_clear n)
      then show ?thesis using loop_clear_inv [OF assms(1)] by simp
    next
      case (loop_unlock n)
      then show ?thesis by (intro loop_moves_on [OF inv(2,3)]) (simp_all add: to_prepare_def processed_def)
    next
      case (loop_enter n timeout st q)
      then show ?thesis using loop_enter_inv [OF assms(1)] by simp
    qed
  next
    case thread_walk
    then show ?thesis
    proof cases
      case (loop_next h k c)
      then show ?thesis using loop_next_inv [OF assms(1)] by simp
    next
      case (loop_return h k c)
      then show ?thesis using loop_invD(3,4) [OF inv(2)]
        by (intro loop_moves_on [OF inv(2,3)]) (simp_all add: to_prepare_def processed_def)
    next
      case (loop_keep h k c r q)
      then show ?thesis using loop_release_inv [OF assms(1)] by simp
    next
      case (loop_free h k c r)
      then show ?thesis using loop_invD(3,4) [OF inv(2)]
        by (intro loop_moves_on [OF inv(2,3)]) (simp_all add: to_prepare_def processed_def)
    next
      case (loop_freed h k c q)
      then show ?thesis using loop_release_inv [OF assms(1)] by simp
    next
      case (loop_advance h k)
      then show ?thesis using loop_advance_inv [OF assms(1)] by simp
    qed
  next
    case (own_step q)
    then show ?thesis using same_rings_inv [OF inv(2,3)] by simp
  next
    case (kernel_step x)
    then show ?thesis by (intro rings_move_inv [OF inv(2,3), of 0 x]) simp_all
  qed
  then show ?thesis using inv(1) mutex_step [OF inv(4) assms(2)] by (simp add: thread_inv_def)
qed

interpretation threads: step_invariant "system_step X V good fits T" "thread_inv X V good fits T" for X V good fits T
  by unfold_locales (auto simp: system_step_def intro: thread_step_inv)

section \<open>What the invariant gives\<close>

text \<open>A queue nobody is using, in particular a new one.\<close>

definition idle_threads :: "('x, 'z) submission_queue_scheme \<Rightarrow> ('x, 'z) thread_state" where
  "idle_threads q = \<lparr>queue = q, pending_requests_mutex = None, pushing = (\<lambda>_. Outside), at_loop = Loop_submit\<rparr>"

lemma idle_threads_inv:
  assumes "ring_contract X V fits" "queue_life V good fits q (cq_view V (env q))"
  shows "thread_inv X V good fits T (idle_threads q)"
  using assms
  by (simp add: thread_inv_def loop_inv_def push_inv_def mutex_inv_def idle_threads_def queue_life_def to_prepare_def unprocessed_def
      processed_def holds_mutex_def)

lemma new_queue_empty:
  assumes "ring_setup_contract X V" "new_SubmissionQueue X n x = Inr q"
  shows "request_pool q = empty_pool" "pending_requests q = no_pending" "entries_of V (env q) = {#}" "cq_view V (env q) = []"
proof -
  obtain st x' where q: "io_uring_queue_init X (word_of_nat n) x = (st, x')" "0 \<le> st" "q = \<lparr>env = x', request_pool = empty_pool, pending_requests = no_pending\<rparr>"
    using assms(2) by (auto simp: new_SubmissionQueue_def res_simps throwOnError_def split: prod.splits if_splits)
  then have "sq_view V x' = [] \<and> flight_view V x' = {#} \<and> cq_view V x' = []" using assms(1) unfolding ring_setup_contract_def by blast
  then show "request_pool q = empty_pool" "pending_requests q = no_pending" "entries_of V (env q) = {#}" "cq_view V (env q) = []"
    using q(3) by (simp_all add: entries_of_def)
qed

lemma new_queue_idle:
  assumes "ring_contract X V fits" "ring_setup_contract X V" "new_SubmissionQueue X n x = Inr q"
  shows "thread_inv X V good fits T (idle_threads q)"
proof (rule idle_threads_inv [OF assms(1)])
  have "deref empty_pool a \<noteq> Inr r" for a and r :: request by (simp add: deref_contents contents_def empty_pool_def)
  then show "queue_life V good fits q (cq_view V (env q))"
    using new_SubmissionQueue_inv [OF assms(3)] new_queue_empty [OF assms(2,3)] by (simp add: queue_life_def life_def)
qed

lemma release_current:
  assumes "loop_inv X V good fits s" "current (at_loop s) = Some c"
  obtains q where "release c (queue s) = Inr q"
proof -
  obtain cs where cs: "unprocessed V s = c # cs" using loop_invD(4) [OF assms] by blast
  have "to_prepare s = pending_entries (pending_requests (queue s))"
    using assms(2) by (cases "at_loop s") (simp_all add: to_prepare_def)
  then have "queue_life V good fits (queue s) (c # cs)" using loop_invD(1,2) [OF assms(1)] cs by (simp add: queue_life_def)
  then show thesis by (rule queue_life_release) (use that in blast)
qed

lemma prepare_next:
  assumes "ring_contract X V fits" "loop_inv X V good fits s" "at_loop s = Loop_preparing (e # es) n"
  obtains st q where "prepare (fst e) X (snd e) (queue s) = Inr (st, q)"
proof -
  have "e \<in> set (pending_entries (pending_requests (queue s)))"
    using loop_invD(5) [OF assms(2)] assms(3) by (simp add: to_prepare_def)
  then obtain r where r: "deref (request_pool (queue s)) (snd e) = Inr r" "kind r = fst e"
    using loop_invD(1) [OF assms(2)] by (auto simp: sq_inv_def entries_ok_def)
  from prepare_ring [OF assms(1) r] show thesis using that by blast
qed

lemma assign_held:
  assumes "loop_inv X V good fits s" "push_inv V good T s" "pushing s t = Assigning r p"
  obtains pool where "store p r (request_pool (queue s)) = Inr pool"
proof -
  have "block_size (request_pool (queue s)) p = Some (sizeof_request (kind r))" using push_invD(1) [OF assms(2), of t] assms(3) by simp
  from pool.put_live [OF _ this, of r] show thesis using loop_invD(1) [OF assms(1)] that by (auto simp: sq_inv_def)
qed

text \<open>A thread in \<open>push\<close>, and the loop, can go on unless they wait: for the mutex, and the loop for the function it called.\<close>

lemma push_goes_on:
  assumes "thread_inv X V good fits T s" "pushing s t \<noteq> Outside" "\<And>k p. pushing s t = Locking k p \<Longrightarrow> pending_requests_mutex s = None"
  obtains s' where "thread_step X V good fits T s s'" "pushing s' t \<noteq> pushing s t"
proof -
  have inv: "loop_inv X V good fits s" "push_inv V good T s" using assms(1) by (simp_all add: thread_inv_def)
  show thesis
  proof (cases "pushing s t")
    case (Allocating r)
    obtain p pool where a: "allocate (sizeof_request (kind r)) (request_pool (queue s)) = (p, pool)"
      by (cases "allocate (sizeof_request (kind r)) (request_pool (queue s))")
    show ?thesis by (rule that [OF thread_push [OF push_allocate [OF Allocating a]]]) (simp add: Allocating)
  next
    case (Assigning r p)
    obtain pool where a: "store p r (request_pool (queue s)) = Inr pool" by (rule assign_held [OF inv Assigning])
    show ?thesis by (rule that [OF thread_push [OF push_assign [OF Assigning a]]]) (simp add: Assigning)
  next
    case (Locking k p)
    show ?thesis by (rule that [OF thread_push [OF push_lock [OF Locking assms(3) [OF Locking]]]]) (simp add: Locking)
  next
    case (Appending k p)
    show ?thesis by (rule that [OF thread_push [OF push_append [OF Appending]]]) (simp add: Appending)
  next
    case Unlocking
    show ?thesis by (rule that [OF thread_push [OF push_unlock [OF Unlocking]]]) (simp add: Unlocking)
  qed (use assms(2) in simp)
qed

lemma loop_goes_on:
  assumes "thread_inv X V good fits T s" "at_loop s = Loop_submit \<longrightarrow> pending_requests_mutex s = None" "in_callback (at_loop s) \<longrightarrow> pushing s 0 = Outside"
  obtains s' where "thread_step X V good fits T s s'" "at_loop s' \<noteq> at_loop s"
proof -
  have inv: "ring_contract X V fits" "loop_inv X V good fits s" using assms(1) by (simp_all add: thread_inv_def)
  show thesis
  proof (cases "at_loop s")
    case Loop_submit
    show ?thesis by (rule that [OF thread_submit [OF loop_lock [OF Loop_submit mp [OF assms(2) Loop_submit]]]]) (simp add: Loop_submit)
  next
    case (Loop_preparing es n)
    show ?thesis
    proof (cases es)
      case Nil
      show ?thesis by (rule that [OF thread_submit [OF loop_clear [OF Loop_preparing [unfolded Nil]]]]) (simp add: Loop_preparing)
    next
      case (Cons e es')
      obtain st q where a: "prepare (fst e) X (snd e) (queue s) = Inr (st, q)" by (rule prepare_next [OF inv Loop_preparing [unfolded Cons]])
      show ?thesis by (rule that [OF thread_submit [OF loop_prepare [OF Loop_preparing [unfolded Cons] a]]]) (simp add: Loop_preparing)
    qed
  next
    case (Loop_unlocking n)
    show ?thesis by (rule that [OF thread_submit [OF loop_unlock [OF Loop_unlocking]]]) (simp add: Loop_unlocking)
  next
    case (Loop_entering n)
    obtain st q where a: "enter_ring X 0 n (queue s) = (st, q)" by (cases "enter_ring X 0 n (queue s)")
    show ?thesis by (rule that [OF thread_submit [OF loop_enter [OF Loop_entering a]]]) (simp add: Loop_entering)
  next
    case (Loop_walking h k)
    show ?thesis
    proof (cases "cqe_at X (env (queue s)) h")
      case None
      show ?thesis by (rule that [OF thread_walk [OF loop_advance [OF Loop_walking None]]]) (simp add: Loop_walking)
    next
      case (Some c)
      show ?thesis by (rule that [OF thread_walk [OF loop_next [OF Loop_walking Some]]]) (simp add: Loop_walking)
    qed
  next
    case (Loop_calling h k c)
    show ?thesis by (rule that [OF thread_walk [OF loop_return [OF Loop_calling]]]) (use assms(3) in \<open>simp_all add: Loop_calling\<close>)
  next
    case (Loop_releasing h k c)
    obtain r where r: "deref (request_pool (queue s)) (cqe_user_data c) = Inr r"
      by (rule current_request [OF inv(2), of c]) (simp_all add: Loop_releasing)
    obtain q where q: "release c (queue s) = Inr q" by (rule release_current [OF inv(2), of c]) (simp_all add: Loop_releasing)
    show ?thesis
      by (cases "single_shot (kind r)")
        (rule that [OF thread_walk [OF loop_free [OF Loop_releasing r]]] that [OF thread_walk [OF loop_keep [OF Loop_releasing r _ q]]]; simp add: Loop_releasing)+
  next
    case (Loop_freeing h k c)
    obtain q where q: "release c (queue s) = Inr q" by (rule release_current [OF inv(2), of c]) (simp_all add: Loop_freeing)
    show ?thesis by (rule that [OF thread_walk [OF loop_freed [OF Loop_freeing q]]]) (simp add: Loop_freeing)
  qed
qed

lemma push_goes_on_or_waits:
  assumes "thread_inv X V good fits T s" "pushing s t \<noteq> Outside"
  shows "(\<exists>s'. thread_step X V good fits T s s' \<and> pushing s' t \<noteq> pushing s t) \<or>
    (\<exists>k p u. pushing s t = Locking k p \<and> pending_requests_mutex s = Some u \<and> u \<noteq> t)"
proof (cases "\<exists>k p u. pushing s t = Locking k p \<and> pending_requests_mutex s = Some u")
  case True
  then have "\<not> push_locked (pushing s t)" by auto
  moreover have "mutex_inv s" using assms(1) by (simp add: thread_inv_def)
  ultimately have "\<not> holds_mutex s t"
    using assms(2) unfolding mutex_inv_def by (cases "t = 0"; cases "at_loop s") (auto simp: holds_mutex_def)
  then show ?thesis using True \<open>mutex_inv s\<close> unfolding mutex_inv_def by blast
next
  case False
  then have "pending_requests_mutex s = None" if "pushing s t = Locking k p" for k p
    using that by (cases "pending_requests_mutex s") simp_all
  then show ?thesis using push_goes_on [OF assms] by blast
qed

lemma loop_goes_on_or_waits:
  assumes "thread_inv X V good fits T s"
  shows "(\<exists>s'. thread_step X V good fits T s s' \<and> at_loop s' \<noteq> at_loop s) \<or>
    at_loop s = Loop_submit \<and> (\<exists>u. pending_requests_mutex s = Some u \<and> u \<noteq> 0) \<or> in_callback (at_loop s) \<and> pushing s 0 \<noteq> Outside"
proof (cases "at_loop s = Loop_submit \<and> pending_requests_mutex s \<noteq> None")
  case True
  then obtain u where u: "pending_requests_mutex s = Some u" by blast
  have m: "mutex_inv s" using assms by (simp add: thread_inv_def)
  then have "pushing s 0 = Outside" using True by (auto simp: mutex_inv_def)
  then have "\<not> holds_mutex s 0" using True by (simp add: holds_mutex_def)
  then have "u \<noteq> 0" using m u by (cases "u = 0") (simp_all add: mutex_inv_def)
  then show ?thesis using u True by simp
next
  case False
  then have free: "at_loop s = Loop_submit \<longrightarrow> pending_requests_mutex s = None" by simp
  show ?thesis
  proof (cases "in_callback (at_loop s) \<and> pushing s 0 \<noteq> Outside")
    case False
    then have "in_callback (at_loop s) \<longrightarrow> pushing s 0 = Outside" by simp
    then obtain s' where "thread_step X V good fits T s s'" "at_loop s' \<noteq> at_loop s" by (rule loop_goes_on [OF assms free])
    then show ?thesis by blast
  qed simp
qed

section \<open>A run to apply the theorems to\<close>

text \<open>Thread 1 is about to store a write in a new queue; thread 2 has not begun.\<close>

definition new_queue :: "ref_env submission_queue" where
  "new_queue = \<lparr>env = ref_init, request_pool = empty_pool, pending_requests = no_pending\<rparr>"

definition one_allocating :: "(ref_env, unit) thread_state" where
  "one_allocating = (idle_threads new_queue)\<lparr>pushing := (\<lambda>_. Outside)(1 := Allocating sample_write)\<rparr>"

lemma new_queue_made: "new_SubmissionQueue (ref_sys 4) 4 ref_init = Inr new_queue"
  by (simp add: new_SubmissionQueue_def new_queue_def ref_sys_def ref_init_def throwOnError_def)

lemma one_begins: "1 \<in> T \<Longrightarrow> (system_step (ref_sys 4) ref_view any_request any_result T)\<^sup>*\<^sup>* (idle_threads new_queue) one_allocating"
  using thread_push [OF push_begin [of 1 T "idle_threads new_queue" sample_write any_request], of "ref_sys 4" ref_view any_result]
  by (intro r_into_rtranclp) (auto simp: system_step_def one_allocating_def idle_threads_def race_def in_pool_def)

section \<open>Properties\<close>

text \<open>C8. Safety of requests with threads inside the operations. Start from a new queue and let any number of threads
  add requests, one access to shared data at a time, while the loop prepares, enters the kernel, walks the completions
  and releases, and the kernel posts completions at any moment, also during the walk. Up to the first race in the pool no two
  threads hold the mutex, and no operation reads or writes through a dead pointer: the assignment in \<open>push\<close>
  finds its block, \<open>prepare\<close> its request, and the completion the loop has in its hands is that of a live, well-formed
  request which the result fits and which \<open>release\<close> can release.\<close>

theorem threads_never_touch_dead_requests:
  assumes "ring_contract X V fits" "ring_setup_contract X V" "new_SubmissionQueue X n x = Inr q"
    "(system_step X V good fits T)\<^sup>*\<^sup>* (idle_threads q) s"
  shows "(\<forall>t u. holds_mutex s t \<longrightarrow> holds_mutex s u \<longrightarrow> t = u) \<and>
    (\<forall>t r p. pushing s t = Assigning r p \<longrightarrow> (\<exists>pool. store p r (request_pool (queue s)) = Inr pool)) \<and>
    (\<forall>e es m. at_loop s = Loop_preparing (e # es) m \<longrightarrow> (\<exists>st q'. prepare (fst e) X (snd e) (queue s) = Inr (st, q'))) \<and>
    (\<forall>c. current (at_loop s) = Some c \<longrightarrow>
       (\<exists>r q'. deref (request_pool (queue s)) (cqe_user_data c) = Inr r \<and> wf_request r \<and> good r \<and>
          fits (request_calls (cqe_user_data c) r) c \<and> release c (queue s) = Inr q'))"
proof -
  have inv: "ring_contract X V fits" "loop_inv X V good fits s" "push_inv V good T s" "mutex_inv s"
    using threads.run_inv [OF assms(4) new_queue_idle [OF assms(1-3)]] by (simp_all add: thread_inv_def)
  have "\<exists>pool. store p r (request_pool (queue s)) = Inr pool" if "pushing s t = Assigning r p" for t r p
    using assign_held [OF inv(2,3) that] by blast
  moreover have "\<exists>st q'. prepare (fst e) X (snd e) (queue s) = Inr (st, q')" if "at_loop s = Loop_preparing (e # es) m" for e es m
    using prepare_next [OF inv(1,2) that] by blast
  moreover have "\<exists>r q'. deref (request_pool (queue s)) (cqe_user_data c) = Inr r \<and> wf_request r \<and> good r \<and>
      fits (request_calls (cqe_user_data c) r) c \<and> release c (queue s) = Inr q'" if "current (at_loop s) = Some c" for c
    using current_request [OF inv(2) that] release_current [OF inv(2) that] by metis
  ultimately show ?thesis using mutex_holder [OF inv(4)] by blast
qed

theorem threads_never_touch_dead_requests_witness:
  "\<exists>s pool. (system_step (ref_sys 4) ref_view any_request any_result {1, 2})\<^sup>*\<^sup>* (idle_threads new_queue) s \<and>
     pushing s 1 = Assigning sample_write 1 \<and> store 1 sample_write (request_pool (queue s)) = Inr pool"
proof -
  obtain pool where pool: "allocate (sizeof_request (kind sample_write)) (request_pool (queue one_allocating)) = (1, pool)"
    by (simp add: one_allocating_def idle_threads_def new_queue_def allocate_def empty_pool_def)
  let ?s = "one_allocating\<lparr>queue := (queue one_allocating)\<lparr>request_pool := pool\<rparr>, pushing := (pushing one_allocating)(1 := Assigning sample_write 1)\<rparr>"
  have "system_step (ref_sys 4) ref_view any_request any_result {1, 2} one_allocating ?s"
    using thread_push [OF push_allocate [OF _ pool, where t = 1]]
    by (auto simp: system_step_def race_def in_pool_def one_allocating_def idle_threads_def)
  with one_begins [of "{1, 2}"] have run: "(system_step (ref_sys 4) ref_view any_request any_result {1, 2})\<^sup>*\<^sup>* (idle_threads new_queue) ?s"
    by (simp add: rtranclp.rtrancl_into_rtrancl)
  have "\<exists>pool'. store 1 sample_write (request_pool (queue ?s)) = Inr pool'"
    using threads_never_touch_dead_requests [OF ref_ring_contract ref_ring_setup_contract new_queue_made run, THEN conjunct2, THEN conjunct1]
    by (rule allE [where x = 1]) simp
  with run show ?thesis by (intro exI [of _ ?s]) auto
qed

text \<open>C10. No deadlock. In every state the threads can reach, a thread in \<open>push\<close> can take its next step unless it waits for the mutex while another
  holds it, the loop can unless it waits for the mutex or for the function it called, and whoever holds the mutex
  is not waiting: whenever a thread waits, the thread it waits for can go on.\<close>

theorem threads_never_deadlock:
  assumes "ring_contract X V fits" "ring_setup_contract X V" "new_SubmissionQueue X n x = Inr q"
    "(system_step X V good fits T)\<^sup>*\<^sup>* (idle_threads q) s"
  shows "(\<forall>t. pushing s t \<noteq> Outside \<longrightarrow> (\<exists>s'. thread_step X V good fits T s s' \<and> pushing s' t \<noteq> pushing s t) \<or>
        (\<exists>k p u. pushing s t = Locking k p \<and> pending_requests_mutex s = Some u \<and> u \<noteq> t)) \<and>
    ((\<exists>s'. thread_step X V good fits T s s' \<and> at_loop s' \<noteq> at_loop s) \<or>
        at_loop s = Loop_submit \<and> (\<exists>u. pending_requests_mutex s = Some u \<and> u \<noteq> 0) \<or> in_callback (at_loop s) \<and> pushing s 0 \<noteq> Outside) \<and>
    (\<forall>u. pending_requests_mutex s = Some u \<longrightarrow>
        (\<exists>s'. thread_step X V good fits T s s' \<and> (pushing s' u \<noteq> pushing s u \<or> u = 0 \<and> at_loop s' \<noteq> at_loop s)))"
proof -
  have inv: "thread_inv X V good fits T s" by (rule threads.run_inv [OF assms(4) new_queue_idle [OF assms(1-3)]])
  note push = push_goes_on_or_waits [OF inv] and loop = loop_goes_on_or_waits [OF inv]
  have "\<exists>s'. thread_step X V good fits T s s' \<and> (pushing s' u \<noteq> pushing s u \<or> u = 0 \<and> at_loop s' \<noteq> at_loop s)"
    if "pending_requests_mutex s = Some u" for u
  proof -
    have "holds_mutex s u" using that inv by (simp add: thread_inv_def mutex_inv_def)
    then consider "push_locked (pushing s u)" | "u = 0" "loop_locked (at_loop s)" by (auto simp: holds_mutex_def)
    then show ?thesis
    proof cases
      case 1
      then have "pushing s u \<noteq> Outside" "\<not> (\<exists>k p. pushing s u = Locking k p)" by auto
      then show ?thesis using push by blast
    next
      case 2
      then have "at_loop s \<noteq> Loop_submit" "\<not> in_callback (at_loop s)" by (cases "at_loop s"; simp)+
      then show ?thesis using loop 2(1) by blast
    qed
  qed
  with push loop show ?thesis by blast
qed

theorem threads_never_deadlock_witness:
  "pushing one_allocating 1 \<noteq> Outside \<and>
   (\<exists>s'. thread_step (ref_sys 4) ref_view any_request any_result {1, 2} one_allocating s' \<and> pushing s' 1 \<noteq> pushing one_allocating 1)"
proof -
  have at: "pushing one_allocating 1 = Allocating sample_write" by (simp add: one_allocating_def)
  have "1 \<in> {1, 2 :: nat}" by simp
  from threads_never_deadlock [OF ref_ring_contract ref_ring_setup_contract new_queue_made one_begins [OF this], THEN conjunct1]
  show ?thesis by (rule allE [where x = 1]) (use at in auto)
qed

text \<open>C36. The pool is not protected. As long as only the loop's own thread adds requests, from the functions the loop calls,
  no two threads are ever in the pool together. With any other thread nothing prevents it: whenever a thread is
  in the pool, allocating or releasing, every other thread that may add requests can enter it too, whoever holds the mutex.\<close>

theorem pool_races_with_other_threads:
  assumes "ring_contract X V fits" "ring_setup_contract X V" "new_SubmissionQueue X n x = Inr q"
    "(system_step X V good fits T)\<^sup>*\<^sup>* (idle_threads q) s"
  shows "(T \<subseteq> {0} \<longrightarrow> \<not> race s) \<and>
    (\<forall>t u r. \<not> race s \<longrightarrow> in_pool s t \<longrightarrow> u \<in> T - {0, t} \<longrightarrow> pushing s u = Outside \<longrightarrow> wf_request r \<longrightarrow> good r \<longrightarrow>
       (\<exists>s'. system_step X V good fits T s s' \<and> race s' \<and> pending_requests_mutex s' = pending_requests_mutex s))"
proof -
  have inv: "push_inv V good T s"
    using threads.run_inv [OF assms(4) new_queue_idle [OF assms(1-3)]] by (simp add: thread_inv_def)
  have "\<not> race s" if "T \<subseteq> {0}"
  proof -
    have "pushing s t = Outside" if "t \<noteq> 0" for t using push_invD(4) [OF inv, of t] that \<open>T \<subseteq> {0}\<close> by blast
    then have "t = 0" if "in_pool s t" for t using that by (cases "t = 0") (simp_all add: in_pool_def)
    then show ?thesis unfolding race_def by metis
  qed
  moreover have "\<exists>s'. system_step X V good fits T s s' \<and> race s' \<and> pending_requests_mutex s' = pending_requests_mutex s"
    if "\<not> race s" "in_pool s t" "u \<in> T - {0, t}" "pushing s u = Outside" "wf_request r" "good r" for t u r
  proof -
    let ?s = "s\<lparr>pushing := (pushing s)(u := Allocating r)\<rparr>"
    have "in_pool ?s t" "in_pool ?s u" using that(2,3) by (simp_all add: in_pool_def)
    then have "race ?s" using that(3) unfolding race_def by blast
    moreover have "thread_step X V good fits T s ?s" using that by (intro thread_push push_begin) simp_all
    ultimately show ?thesis using that(1) by (intro exI [of _ ?s]) (simp add: system_step_def)
  qed
  ultimately show ?thesis by blast
qed

theorem pool_races_with_other_threads_witness:
  "\<exists>s. (system_step (ref_sys 4) ref_view any_request any_result {1, 2})\<^sup>*\<^sup>* (idle_threads new_queue) s \<and> race s"
proof -
  have "\<not> race one_allocating" "in_pool one_allocating 1" "2 \<in> {1, 2} - {0, 1 :: nat}" "pushing one_allocating 2 = Outside"
    by (simp_all add: race_def in_pool_def one_allocating_def idle_threads_def)
  then show ?thesis
    using pool_races_with_other_threads [OF ref_ring_contract ref_ring_setup_contract new_queue_made one_begins [of "{1, 2}"]] sample_wf(1)
      rtranclp.rtrancl_into_rtrancl [OF one_begins [of "{1, 2}"]] by blast
qed

end
