(* ===== verification/Threads_Refinement.thy ===== *)
theory Threads_Refinement
  imports Queue_Threads
begin

text \<open>
  The threads of \<open>Queue_Threads\<close> against the abstract queue of \<open>Queue_Refinement\<close>: a forward simulation at the grain of
  single accesses, and the other way round, that the operations of \<open>Submission_Queue\<close> are what the steps amount to when
  nobody comes between them.
\<close>

section \<open>The abstract queue, one request at a time\<close>

text \<open>
  As \<open>spec_step\<close>, except that the kernel gets the requests of a batch one by one: with threads
  inside the operations, completions of the first can come in before the last has been handed over.
\<close>

inductive each_step :: "(request \<Rightarrow> bool) \<Rightarrow> abs_queue \<Rightarrow> abs_queue \<Rightarrow> bool" for good where
  each_add: "good r \<Longrightarrow> each_step good q (q\<lparr>waiting := add_mset r (waiting q)\<rparr>)"
| each_accept: "waiting q = add_mset r W \<Longrightarrow> each_step good q (q\<lparr>waiting := W, accepted := add_mset r (accepted q)\<rparr>)"
| each_complete: "r \<in># accepted q \<Longrightarrow>
     each_step good q (q\<lparr>accepted := accepted q - {#r#}, completed := completed q @ [(r, res, flags)]\<rparr>)"
| each_complete_more: "r \<in># accepted q \<Longrightarrow> \<not> single_shot (kind r) \<Longrightarrow>
     each_step good q (q\<lparr>completed := completed q @ [(r, res, flags)]\<rparr>)"
| each_process: "completed q = d # ds \<Longrightarrow> each_step good q (q\<lparr>completed := ds\<rparr>)"

text \<open>A batch is its requests one after the other.\<close>

lemma each_batch: "(each_step good)\<^sup>*\<^sup>* q (q\<lparr>waiting := {#}, accepted := accepted q + waiting q\<rparr>)"
proof (induction "waiting q" arbitrary: q)
  case empty
  then have "q\<lparr>waiting := {#}, accepted := accepted q + waiting q\<rparr> = q" by (cases q) simp
  then show ?case by simp
next
  case (add r W)
  let ?q = "q\<lparr>waiting := W, accepted := add_mset r (accepted q)\<rparr>"
  have "each_step good q ?q" using add.hyps(2) by (intro each_accept) simp
  moreover have "(each_step good)\<^sup>*\<^sup>* ?q (q\<lparr>waiting := {#}, accepted := accepted q + waiting q\<rparr>)"
    using add.hyps(1) [of ?q] add.hyps(2) [symmetric] by simp
  ultimately show ?case by (rule converse_rtranclp_into_rtranclp)
qed

lemma spec_each: "spec_step good q q' \<Longrightarrow> (each_step good)\<^sup>*\<^sup>* q q'"
proof (induction rule: spec_step.induct)
  case (spec_submit q)
  show ?case by (rule each_batch)
qed (auto intro: each_step.intros)

lemma specs_each: "(spec_step good)\<^sup>*\<^sup>* q q' \<Longrightarrow> (each_step good)\<^sup>*\<^sup>* q q'"
  by (induction rule: rtranclp_induct) (auto dest: spec_each)

section \<open>The simulation\<close>

definition thread_abs :: "'x ring_view \<Rightarrow> ('x, 'z) thread_state \<Rightarrow> abs_queue" where
  "thread_abs V s = spec_view (request_pool (queue s)) (unprepared s) (entries_of V (env (queue s))) (unprocessed V s)"

lemma thread_abs_same:
  assumes "to_prepare s' = to_prepare s" "entries_of V (env (queue s')) = entries_of V (env (queue s))" "unprocessed V s' = unprocessed V s"
    "\<And>a. a \<in># claimed V s \<Longrightarrow> contents (request_pool (queue s')) a = contents (request_pool (queue s)) a"
  shows "thread_abs V s' = thread_abs V s"
  unfolding thread_abs_def assms(1-3) by (rule spec_view_cong) (rule assms(4))

lemma thread_abs_moves:
  assumes "loop_inv X V good fits s" "ring_moves X V fits n (env (queue s)) x" "queue s' = (queue s)\<lparr>env := x\<rparr>" "at_loop s' = at_loop s"
  shows "(each_step good)\<^sup>*\<^sup>* (thread_abs V s) (thread_abs V s')"
proof -
  obtain ds where ds: "cq_view V x = cq_view V (env (queue s)) @ ds" "posts fits (entries_of V (env (queue s))) ds (entries_of V x)"
    by (rule ring_moves_entries [OF assms(2)])
  have parts: "to_prepare s' = to_prepare s" "unprocessed V s' = unprocessed V s @ ds"
    using assms(3,4) ds(1) processed_le [OF assms(1)] by (simp_all add: to_prepare_def unprocessed_def split: loop_pc.split)
  show ?thesis
    using specs_each [OF spec_posts [OF ds(2) loop_invD(2) [OF assms(1)]]] assms(3) by (simp add: thread_abs_def parts)
qed

lemma push_allocate_abs:
  assumes "thread_inv X V good fits T s" "allocate (sizeof_request (kind r)) (request_pool (queue s)) = (p, pool)"
  shows "thread_abs V (s\<lparr>queue := (queue s)\<lparr>request_pool := pool\<rparr>, pushing := f\<rparr>) = thread_abs V s"
proof -
  have inv: "loop_inv X V good fits s" using assms(1) by (simp add: thread_inv_def)
  have n: "block_size (request_pool (queue s)) p = None" "contents pool = (contents (request_pool (queue s)))(p := None)"
    using pool.alloc_new [OF _ sizeof_request_pos assms(2)] loop_invD(1) [OF inv] by (simp_all add: sq_inv_def)
  then have "contents pool = contents (request_pool (queue s))" using pool.value_sized [of "request_pool (queue s)" p] by fastforce
  then show ?thesis by (intro thread_abs_same) (simp_all add: to_prepare_def unprocessed_def split: loop_pc.split)
qed

lemma push_assign_abs:
  assumes "thread_inv X V good fits T s" "pushing s t = Assigning r p" "store p r (request_pool (queue s)) = Inr pool"
  shows "thread_abs V (s\<lparr>queue := (queue s)\<lparr>request_pool := pool\<rparr>, pushing := f\<rparr>) = thread_abs V s"
proof -
  have inv: "loop_inv X V good fits s" "push_inv V good T s" using assms(1) by (simp_all add: thread_inv_def)
  have "block_size (request_pool (queue s)) p = Some (sizeof_request (kind r))" using push_invD(1) [OF inv(2), of t] assms(2) by simp
  from pool.put_live [OF _ this, of r] have "contents pool = (contents (request_pool (queue s)))(p \<mapsto> r)"
    using loop_invD(1) [OF inv(1)] assms(3) by (auto simp: sq_inv_def)
  moreover have "p \<notin># claimed V s" using push_invD(2) [OF inv(2), of t p] assms(2) by simp
  ultimately show ?thesis by (intro thread_abs_same) (auto simp: to_prepare_def unprocessed_def split: loop_pc.split)
qed

lemma push_append_abs:
  assumes "thread_inv X V good fits T s" "pushing s t = Appending k p"
  defines "s' \<equiv> s\<lparr>queue := (queue s)\<lparr>pending_requests := pending_push k p (pending_requests (queue s))\<rparr>, pushing := (pushing s)(t := Unlocking)\<rparr>"
  shows "each_step good (thread_abs V s) (thread_abs V s')"
proof -
  have inv: "loop_inv X V good fits s" "push_inv V good T s" "mutex_inv s" using assms(1) by (simp_all add: thread_inv_def)
  note parts = appending_parts [OF inv(3) assms(2), folded s'_def]
  obtain r where r: "deref (request_pool (queue s)) p = Inr r" using push_invD(1) [OF inv(2), of t] assms(2) by auto
  have "thread_abs V s' = (thread_abs V s)\<lparr>waiting := add_mset r (waiting (thread_abs V s))\<rparr>"
    using r parts by (simp add: thread_abs_def spec_view_def pending_push_mset deref_contents) (simp add: s'_def)
  then show ?thesis using each_add [where good = good, OF life_good [OF loop_invD(2) [OF inv(1)] r]] by simp
qed

lemma loop_prepare_abs:
  assumes "thread_inv X V good fits T s" "keeps_up X V cap (env (queue s))" "at_loop s = Loop_preparing (e # es) n"
    "prepare (fst e) X (snd e) (queue s) = Inr (st, q)"
  shows "keeps_up X V cap (env q) \<and> (each_step good)\<^sup>*\<^sup>* (thread_abs V s) (thread_abs V (s\<lparr>queue := q, at_loop := Loop_preparing es (Suc n)\<rparr>))"
proof -
  have inv: "ring_contract X V fits" "loop_inv X V good fits s" using assms(1) by (simp_all add: thread_inv_def)
  have todo: "to_prepare s = e # es" and un: "unprocessed V s = cq_view V (env (queue s))"
    using assms(3) by (simp_all add: to_prepare_def unprocessed_def processed_def)
  have "e \<in> set (pending_entries (pending_requests (queue s)))" using loop_invD(5) [OF inv(2)] todo by simp
  then obtain r where r: "deref (request_pool (queue s)) (snd e) = Inr r" "kind r = fst e"
    using loop_invD(1) [OF inv(2)] by (auto simp: sq_inv_def entries_ok_def)
  then have calls: "entry_calls (request_pool (queue s)) e = request_calls (snd e) r" "contents (request_pool (queue s)) (snd e) = Some r"
    by (simp_all add: deref_contents)
  obtain x where x: "q = (queue s)\<lparr>env := x\<rparr>" "batch_effect X V fits (request_pool (queue s)) [e] (env (queue s)) x"
    by (rule prepare_ring [OF inv(1) r]) (use assms(4) in auto)
  then obtain ds where ds: "cq_view V x = cq_view V (env (queue s)) @ ds" "keeps_up X V cap x"
      "posts fits (add_mset (request_calls (snd e) r) (entries_of V (env (queue s)))) ds (entries_of V x)"
    using assms(2) calls(1) by (auto simp: batch_effect_def)
  let ?mid = "spec_view (request_pool (queue s)) (image_mset snd (mset es)) (add_mset (request_calls (snd e) r) (entries_of V (env (queue s)))) (cq_view V (env (queue s)))"
  have "life good fits (request_pool (queue s)) (add_mset (snd e) (image_mset snd (mset es))) (entries_of V (env (queue s))) (cq_view V (env (queue s)))"
    using loop_invD(2) [OF inv(2)] todo un by simp
  from specs_each [OF spec_posts [OF ds(3) life_prepare [OF this r(1)]]]
  have rest: "(each_step good)\<^sup>*\<^sup>* ?mid (thread_abs V (s\<lparr>queue := q, at_loop := Loop_preparing es (Suc n)\<rparr>))"
    by (simp add: thread_abs_def x(1) ds(1) to_prepare_def unprocessed_def processed_def)
  have mid: "?mid = (thread_abs V s)\<lparr>waiting := image_mset (request_of (request_pool (queue s))) (image_mset snd (mset es)),
      accepted := add_mset r (accepted (thread_abs V s))\<rparr>"
    using calls(2) by (simp add: thread_abs_def spec_view_def un)
  have "waiting (thread_abs V s) = add_mset r (image_mset (request_of (request_pool (queue s))) (image_mset snd (mset es)))"
    using calls(2) by (simp add: thread_abs_def spec_view_def todo)
  then have "each_step good (thread_abs V s) ?mid" unfolding mid by (rule each_accept)
  from converse_rtranclp_into_rtranclp [of "each_step good", OF this rest] show ?thesis using x(1) ds(2) by simp
qed

lemma loop_enter_abs:
  assumes "thread_inv X V good fits T s" "keeps_up X V cap (env (queue s))" "at_loop s = Loop_entering n" "enter_ring X timeout n (queue s) = (st, q)"
  shows "keeps_up X V cap (env q) \<and> (each_step good)\<^sup>*\<^sup>* (thread_abs V s) (thread_abs V (s\<lparr>queue := q, at_loop := Loop_walking h 0\<rparr>))"
proof -
  have inv: "ring_contract X V fits" "loop_inv X V good fits s" "push_inv V good T s" using assms(1) by (simp_all add: thread_inv_def)
  obtain y where y: "q = (queue s)\<lparr>env := y\<rparr>" "y = env (queue s) \<or> (\<exists>k. ring_moves X V fits k (env (queue s)) y) \<or>
      (\<exists>k z. ring_moves X V fits k (env (queue s)) z \<and> ring_moves X V fits 0 z y)"
    by (rule enter_ring_moves [OF inv(1), of timeout n "queue s"]) (use assms(4) in auto)
  let ?at = "\<lambda>z. s\<lparr>queue := (queue s)\<lparr>env := z\<rparr>\<rparr>"
  have one: "keeps_up X V cap z \<and> (each_step good)\<^sup>*\<^sup>* (thread_abs V s) (thread_abs V (?at z))" if "ring_moves X V fits k (env (queue s)) z" for k z
    using thread_abs_moves [OF inv(2) that, of "?at z"] keeps_up_moves [OF assms(2) that] by simp
  have two: "keeps_up X V cap y \<and> (each_step good)\<^sup>*\<^sup>* (thread_abs V s) (thread_abs V (?at y))"
    if "ring_moves X V fits k (env (queue s)) z" "ring_moves X V fits 0 z y" for k z
  proof -
    have "loop_inv X V good fits (?at z)" using rings_move_inv [OF inv(2,3) that(1), of "?at z"] by simp
    from thread_abs_moves [OF this, of 0 y "?at y"] show ?thesis
      using one [OF that(1)] keeps_up_moves [OF _ that(2)] that(2) by (auto intro: rtranclp_trans)
  qed
  have "keeps_up X V cap y \<and> (each_step good)\<^sup>*\<^sup>* (thread_abs V s) (thread_abs V (?at y))" using y(2) one two assms(2) by auto
  moreover have "thread_abs V (s\<lparr>queue := q, at_loop := Loop_walking h 0\<rparr>) = thread_abs V (?at y)"
    by (rule thread_abs_same) (simp_all add: y(1) assms(3) to_prepare_def unprocessed_def processed_def)
  ultimately show ?thesis using y(1) by simp
qed

lemma loop_release_abs:
  assumes "thread_inv X V good fits T s" "current (at_loop s) = Some c" "walk_position (at_loop s) = Some (h, k)" "release c (queue s) = Inr q"
  shows "(each_step good)\<^sup>*\<^sup>* (thread_abs V s) (thread_abs V (s\<lparr>queue := q, at_loop := Loop_walking (h + 1) (k + 1)\<rparr>))"
proof -
  have inv: "ring_contract X V fits" "loop_inv X V good fits s" using assms(1) by (simp_all add: thread_inv_def)
  show ?thesis
  proof (rule release_parts [OF inv assms(2-4)])
    fix cs pool
    assume parts: "unprocessed V s = c # cs" "unprocessed V (s\<lparr>queue := q, at_loop := Loop_walking (h + 1) (k + 1)\<rparr>) = cs"
        "q = (queue s)\<lparr>request_pool := pool\<rparr>" "to_prepare s = pending_entries (pending_requests (queue s))"
        "to_prepare (s\<lparr>queue := q, at_loop := Loop_walking (h + 1) (k + 1)\<rparr>) = pending_entries (pending_requests (queue s))"
        "queue_life V good fits (queue s) (c # cs)"
    have "spec_step good (queue_spec V (queue s) (c # cs)) (queue_spec V q cs)" by (rule spec_release [OF parts(6) assms(4)])
    then show ?thesis using spec_each parts by (simp add: thread_abs_def queue_spec_def)
  qed
qed

lemma thread_step_up:
  assumes "thread_inv X V good fits T s" "keeps_up X V cap (env (queue s))" "thread_step X V good fits T s s'"
  shows "keeps_up X V cap (env (queue s')) \<and> (each_step good)\<^sup>*\<^sup>* (thread_abs V s) (thread_abs V s')"
proof -
  have inv: "ring_contract X V fits" "loop_inv X V good fits s" using assms(1) by (simp_all add: thread_inv_def)
  have same: ?thesis if "queue s' = queue s" "to_prepare s' = to_prepare s" "processed (at_loop s') = processed (at_loop s)"
  proof -
    have "thread_abs V s' = thread_abs V s" by (rule thread_abs_same) (use that in \<open>simp_all add: unprocessed_def\<close>)
    then show ?thesis using assms(2) that(1) by simp
  qed
  show ?thesis
    using assms(3)
  proof cases
    case thread_push
    then show ?thesis
    proof cases
      case (push_begin t r)
      then show ?thesis by (intro same) (simp_all add: to_prepare_def split: loop_pc.split)
    next
      case (push_allocate t r p pool)
      then show ?thesis using push_allocate_abs [OF assms(1)] assms(2) by simp
    next
      case (push_assign t r p pool)
      then show ?thesis using push_assign_abs [OF assms(1)] assms(2) by simp
    next
      case (push_lock t k p)
      then show ?thesis by (intro same) (simp_all add: to_prepare_def split: loop_pc.split)
    next
      case (push_append t k p)
      then show ?thesis using push_append_abs [OF assms(1)] assms(2) by (simp add: r_into_rtranclp)
    next
      case (push_unlock t)
      then show ?thesis by (intro same) (simp_all add: to_prepare_def split: loop_pc.split)
    qed
  next
    case thread_submit
    then show ?thesis
    proof cases
      case loop_lock
      then show ?thesis by (intro same) (simp_all add: to_prepare_def processed_def)
    next
      case (loop_prepare e es n st q)
      then show ?thesis using loop_prepare_abs [OF assms(1,2)] by simp
    next
      case (loop_clear n)
      have "thread_abs V s' = thread_abs V s"
        by (rule thread_abs_same) (simp_all add: loop_clear to_prepare_def unprocessed_def processed_def)
      then show ?thesis using assms(2) loop_clear(1) by simp
    next
      case (loop_unlock n)
      then show ?thesis by (intro same) (simp_all add: to_prepare_def processed_def)
    next
      case (loop_enter n timeout st q)
      then show ?thesis using loop_enter_abs [OF assms(1,2)] by simp
    qed
  next
    case thread_walk
    then show ?thesis
    proof cases
      case (loop_next h k c)
      then show ?thesis by (intro same) (simp_all add: to_prepare_def processed_def)
    next
      case (loop_return h k c)
      then show ?thesis by (intro same) (simp_all add: to_prepare_def processed_def)
    next
      case (loop_keep h k c r q)
      then show ?thesis using loop_release_abs [OF assms(1)] assms(2) release_env [OF loop_keep(5)] by simp
    next
      case (loop_free h k c r)
      then show ?thesis by (intro same) (simp_all add: to_prepare_def processed_def)
    next
      case (loop_freed h k c q)
      then show ?thesis using loop_release_abs [OF assms(1)] assms(2) release_env [OF loop_freed(3)] by simp
    next
      case (loop_advance h k)
      note parts = advance_parts [OF inv loop_advance(2)]
      have "thread_abs V s' = thread_abs V s"
        unfolding loop_advance(1) by (rule thread_abs_same) (use parts in simp_all)
      then show ?thesis using keeps_up_rings [OF assms(2) parts(4)] loop_advance(1) by simp
    qed
  next
    case (own_step q)
    have "thread_abs V s' = thread_abs V s"
      using own_step(2,3) same_rings_views [OF own_step(4)]
      by (intro thread_abs_same) (simp_all add: own_step(1) to_prepare_def unprocessed_def split: loop_pc.split)
    then show ?thesis using keeps_up_rings [OF assms(2), of "env q"] own_step(1,4) by (simp add: same_rings_def)
  next
    case (kernel_step x)
    then show ?thesis using thread_abs_moves [OF inv(2) kernel_step(2), of s'] keeps_up_moves [OF assms(2) kernel_step(2)] by simp
  qed
qed

definition thread_inv_up ::
    "'x sys \<Rightarrow> 'x ring_view \<Rightarrow> (request \<Rightarrow> bool) \<Rightarrow> (sqe_call list \<Rightarrow> cqe \<Rightarrow> bool) \<Rightarrow> nat set \<Rightarrow> nat \<Rightarrow> ('x, 'z) thread_state \<Rightarrow> bool" where
  "thread_inv_up X V good fits T cap s \<longleftrightarrow> thread_inv X V good fits T s \<and> keeps_up X V cap (env (queue s))"

interpretation threads_up: step_simulation "system_step X V good fits T" "thread_inv_up X V good fits T cap" "thread_abs V" "each_step good"
  for X V good fits T cap
proof
  show "thread_inv_up X V good fits T cap s'" if "thread_inv_up X V good fits T cap s" "system_step X V good fits T s s'" for s s'
    using that thread_step_inv [of X V good fits T s s'] thread_step_up [of X V good fits T s cap s']
    by (simp add: thread_inv_up_def system_step_def)
  show "(each_step good)\<^sup>*\<^sup>* (thread_abs V s) (thread_abs V s')" if "thread_inv_up X V good fits T cap s" "system_step X V good fits T s s'" for s s'
    using that thread_step_up [of X V good fits T s cap s'] by (simp add: thread_inv_up_def system_step_def)
qed

section \<open>Operations without interruption\<close>

text \<open>Only thread \<open>t\<close> and the loop are active.\<close>

definition alone :: "('x, 'z) submission_queue_scheme \<Rightarrow> nat option \<Rightarrow> nat \<Rightarrow> push_pc \<Rightarrow> loop_pc \<Rightarrow> ('x, 'z) thread_state" where
  "alone q m t pc l = \<lparr>queue = q, pending_requests_mutex = m, pushing = (\<lambda>_. Outside)(t := pc), at_loop = l\<rparr>"

lemma alone_simps [simp]:
  "queue (alone q m t pc l) = q" "pending_requests_mutex (alone q m t pc l) = m" "at_loop (alone q m t pc l) = l"
  "pushing (alone q m t pc l) = (\<lambda>_. Outside)(t := pc)"
  by (simp_all add: alone_def)

lemma alone_updates [simp]:
  "(alone q m t pc l)\<lparr>queue := q'\<rparr> = alone q' m t pc l" "(alone q m t pc l)\<lparr>pending_requests_mutex := m'\<rparr> = alone q m' t pc l"
  "(alone q m t pc l)\<lparr>at_loop := l'\<rparr> = alone q m t pc l'" "(alone q m t pc l)\<lparr>pushing := (\<lambda>_. Outside)(t := pc')\<rparr> = alone q m t pc' l"
  by (simp_all add: alone_def)

lemma alone_step:
  assumes "thread_step X V good fits T (alone q m t pc l) s'" "loop_in_pool l \<longrightarrow> pc = Outside \<or> t = 0"
  shows "(system_step X V good fits T)\<^sup>*\<^sup>* (alone q m t pc l) s'"
proof -
  have "u = (if pc = Outside then 0 else t)" if "in_pool (alone q m t pc l) u" for u
    using that assms(2) by (auto simp: in_pool_def alone_def split: if_splits)
  then have "\<not> race (alone q m t pc l)" unfolding race_def by metis
  with assms(1) show ?thesis by (auto simp: system_step_def)
qed

lemmas alone_submit = alone_step [OF thread_submit]
lemmas alone_walk = alone_step [OF thread_walk]

text \<open>\<open>push\<close> in one go.\<close>

lemma push_run:
  assumes "push r q = Inr q'" "t \<in> T" "t = 0 \<longrightarrow> in_callback l" "\<not> loop_in_pool l" "wf_request r" "good r"
  shows "(system_step X V good fits T)\<^sup>*\<^sup>* (alone q None t Outside l) (alone q' None t Outside l)"
proof -
  obtain p pool1 pool2 where p: "allocate (sizeof_request (kind r)) (request_pool q) = (p, pool1)" "store p r pool1 = Inr pool2"
      "q' = q\<lparr>request_pool := pool2, pending_requests := pending_push (kind r) p (pending_requests q)\<rparr>"
    using assms(1) by (auto simp: push_def res_simps split: prod.splits)
  let ?run = "(system_step X V good fits T)\<^sup>*\<^sup>*" and ?q1 = "q\<lparr>request_pool := pool1\<rparr>" and ?q2 = "q\<lparr>request_pool := pool2\<rparr>"
  have step: "?run (alone a m t pc l) s'" if "push_step good T (alone a m t pc l) s'" for a m pc s'
    using alone_step [OF thread_push [OF that]] assms(4) by blast
  have "?run (alone q None t Outside l) (alone q None t (Allocating r) l)"
    using step [OF push_begin [of t T "alone q None t Outside l" r]] assms(2,3,5,6) by simp
  also have "?run \<dots> (alone ?q1 None t (Assigning r p) l)"
    using step [OF push_allocate [of "alone q None t (Allocating r) l" t r p pool1]] p(1) by simp
  also have "?run \<dots> (alone ?q2 None t (Locking (kind r) p) l)"
    using step [OF push_assign [of "alone ?q1 None t (Assigning r p) l" t r p pool2]] p(2) by simp
  also have "?run \<dots> (alone ?q2 (Some t) t (Appending (kind r) p) l)"
    using step [OF push_lock [of "alone ?q2 None t (Locking (kind r) p) l" t "kind r" p]] by simp
  also have "?run \<dots> (alone q' (Some t) t Unlocking l)"
    using step [OF push_append [of "alone ?q2 (Some t) t (Appending (kind r) p) l" t "kind r" p]] p(3) by simp
  also have "?run \<dots> (alone q' None t Outside l)"
    using step [OF push_unlock [of "alone q' (Some t) t Unlocking l" t]] by simp
  finally show ?thesis .
qed

text \<open>\<open>submit\<close> in one go.\<close>

lemma prepare_run:
  assumes "for_each_entry es (prepare_and_count X) (n, q) = Inr (m, q')"
  shows "(system_step X V good fits T)\<^sup>*\<^sup>* (alone q (Some 0) 0 Outside (Loop_preparing es n)) (alone q' (Some 0) 0 Outside (Loop_preparing [] m))"
  using assms
proof (induction es arbitrary: n q)
  case (Cons e es)
  obtain st q1 where q1: "prepare (fst e) X (snd e) q = Inr (st, q1)" "for_each_entry es (prepare_and_count X) (Suc n, q1) = Inr (m, q')"
    using Cons.prems by (auto simp: prepare_and_count_def [of X "fst e" "snd e"] res_simps)
  have "(system_step X V good fits T)\<^sup>*\<^sup>* (alone q (Some 0) 0 Outside (Loop_preparing (e # es) n)) (alone q1 (Some 0) 0 Outside (Loop_preparing es (Suc n)))"
    using alone_submit [OF loop_prepare [of "alone q (Some 0) 0 Outside (Loop_preparing (e # es) n)" e es n X st q1]] q1(1) by simp
  also note Cons.IH [OF q1(2)]
  finally show ?case .
qed simp

lemma submit_run:
  assumes "submit X timeout q = Inr (n, q')"
  shows "(system_step X V good fits T)\<^sup>*\<^sup>* (alone q None 0 Outside Loop_submit) (alone q' None 0 Outside (Loop_walking (cq_khead X (env q')) 0))"
proof -
  let ?es = "pending_entries (pending_requests q)" and ?run = "(system_step X V good fits T)\<^sup>*\<^sup>*"
  obtain m q1 where q1: "for_each_entry ?es (prepare_and_count X) (0, q) = Inr (m, q1)"
      "enter_ring X timeout m (q1\<lparr>pending_requests := pending_clear (pending_requests q1)\<rparr>) = (n, q')"
    using assms by (auto simp: submit_enter_ring preparePendingRequests_def pending_for_each_def res_simps simp del: pending_clear_eq)
  let ?q2 = "q1\<lparr>pending_requests := pending_clear (pending_requests q1)\<rparr>"
  have "?run (alone q None 0 Outside Loop_submit) (alone q (Some 0) 0 Outside (Loop_preparing ?es 0))"
    using alone_submit [OF loop_lock [of "alone q None 0 Outside Loop_submit"]] by simp
  also have "?run \<dots> (alone q1 (Some 0) 0 Outside (Loop_preparing [] m))" by (rule prepare_run [OF q1(1)])
  also have "?run \<dots> (alone ?q2 (Some 0) 0 Outside (Loop_unlocking m))"
    using alone_submit [OF loop_clear [of "alone q1 (Some 0) 0 Outside (Loop_preparing [] m)" m]] by simp
  also have "?run \<dots> (alone ?q2 None 0 Outside (Loop_entering m))"
    using alone_submit [OF loop_unlock [of "alone ?q2 (Some 0) 0 Outside (Loop_unlocking m)" m]] by simp
  also have "?run \<dots> (alone q' None 0 Outside (Loop_walking (cq_khead X (env q')) 0))"
    using alone_submit [OF loop_enter [of "alone ?q2 None 0 Outside (Loop_entering m)" m X timeout n q']] q1(2) by simp
  finally show ?thesis .
qed

text \<open>The function for a completion, the release of its request, and the walk in one go.\<close>

lemma program_run:
  assumes "(program_step X V good)\<^sup>*\<^sup>* q q'" "0 \<in> T"
  shows "(system_step X V good fits T)\<^sup>*\<^sup>* (alone q None 0 Outside (Loop_calling h k c)) (alone q' None 0 Outside (Loop_calling h k c))"
  using assms(1)
proof (induction rule: rtranclp_induct)
  case (step q1 q2)
  have "(system_step X V good fits T)\<^sup>*\<^sup>* (alone q1 None 0 Outside (Loop_calling h k c)) (alone q2 None 0 Outside (Loop_calling h k c))"
    using step.hyps(2)
  proof cases
    case program_own
    then show ?thesis using alone_step [OF own_step [of q2 "alone q1 None 0 Outside (Loop_calling h k c)" X V]] by simp
  next
    case (program_push r)
    then show ?thesis using assms(2) by (intro push_run) simp_all
  qed
  with step.IH show ?case by (rule rtranclp_trans)
qed simp

lemma release_run:
  assumes "release c q = Inr q'"
  shows "(system_step X V good fits T)\<^sup>*\<^sup>* (alone q None 0 Outside (Loop_calling h k c)) (alone q' None 0 Outside (Loop_walking (h + 1) (k + 1)))"
proof -
  obtain r where r: "deref (request_pool q) (cqe_user_data c) = Inr r" using assms by (auto simp: release_def res_simps)
  let ?run = "(system_step X V good fits T)\<^sup>*\<^sup>*"
  have "?run (alone q None 0 Outside (Loop_calling h k c)) (alone q None 0 Outside (Loop_releasing h k c))"
    using alone_walk [OF loop_return [of "alone q None 0 Outside (Loop_calling h k c)" h k c]] by simp
  also have "?run \<dots> (alone q' None 0 Outside (Loop_walking (h + 1) (k + 1)))"
  proof (cases "single_shot (kind r)")
    case True
    have "?run (alone q None 0 Outside (Loop_releasing h k c)) (alone q None 0 Outside (Loop_freeing h k c))"
      using alone_walk [OF loop_free [of "alone q None 0 Outside (Loop_releasing h k c)" h k c r]] True r by simp
    also have "?run \<dots> (alone q' None 0 Outside (Loop_walking (h + 1) (k + 1)))"
      using alone_walk [OF loop_freed [of "alone q None 0 Outside (Loop_freeing h k c)" h k c q']] assms by simp
    finally show ?thesis .
  next
    case False
    then show ?thesis
      using alone_walk [OF loop_keep [of "alone q None 0 Outside (Loop_releasing h k c)" h k c r q']] r assms by simp
  qed
  finally show ?thesis .
qed

lemma reap_run:
  assumes "ring_contract X V fits" "callback_ok X V good fits J f" "0 \<in> T" "J q" "queue_life V good fits q cs"
    "drop i (cq_view V (env q)) = cs" "i \<le> length (cq_view V (env q))" "reap f cs q = Inr q'"
  shows "(system_step X V good fits T)\<^sup>*\<^sup>* (alone q None 0 Outside (Loop_walking (cq_khead X (env q) + of_nat i) (of_nat i)))
     (alone q' None 0 Outside (Loop_walking (cq_khead X (env q) + of_nat (i + length cs)) (of_nat (i + length cs))))"
  using assms(4-)
proof (induction cs arbitrary: q i)
  case (Cons c cs)
  let ?h = "cq_khead X (env q) + of_nat i" and ?run = "(system_step X V good fits T)\<^sup>*\<^sup>*"
  obtain q1 q2 where f: "f c q = Inr q1" "release c q1 = Inr q2" "reap f cs q2 = Inr q'"
    using Cons.prems(5) by (auto simp: res_simps)
  have steps: "(program_step X V good)\<^sup>*\<^sup>* q q1" by (rule callback_okD(1) [OF assms(2) Cons.prems(1,2) f(1)])
  have J: "J q2" by (rule callback_okD(2) [OF assms(2) Cons.prems(1,2) f(1,2)])
  have life: "queue_life V good fits q2 cs"
    by (rule queue_life_release [OF program_steps(2) [OF steps Cons.prems(2)]]) (use f(2) in simp)
  have env: "cq_view V (env q2) = cq_view V (env q)" "cq_khead X (env q2) = cq_khead X (env q)"
    using program_steps(1) [OF steps] release_env [OF f(2)] by (simp_all add: same_rings_def)
  have lt: "i < length (cq_view V (env q))" "cq_view V (env q) ! i = c" "drop (Suc i) (cq_view V (env q)) = cs"
    using Cons.prems(3) by (metis drop_all list.discI not_less, metis nth_via_drop, metis drop_Suc list.sel(3) drop_tl)
  have "cqe_at X (env q) ?h = Some c" using ring_cq [OF assms(1)] lt unfolding cq_contract_def by simp
  then have "?run (alone q None 0 Outside (Loop_walking ?h (of_nat i))) (alone q None 0 Outside (Loop_calling ?h (of_nat i) c))"
    using alone_walk [OF loop_next [of "alone q None 0 Outside (Loop_walking ?h (of_nat i))" ?h "of_nat i" X c]] by simp
  also note program_run [OF steps assms(3)]
  also note release_run [OF f(2)]
  also have "?run (alone q2 None 0 Outside (Loop_walking (?h + 1) (of_nat i + 1)))
      (alone q' None 0 Outside (Loop_walking (cq_khead X (env q) + of_nat (Suc i + length cs)) (of_nat (Suc i + length cs))))"
    using Cons.IH [OF J life, of "Suc i"] lt f(3) by (simp add: env ac_simps)
  finally show ?case by simp
qed simp

lemma alone_idle: "alone q None t Outside Loop_submit = idle_threads q"
  by (auto simp: alone_def idle_threads_def)

lemma advance_run:
  assumes "cqe_at X (env q) h = None"
  shows "(system_step X V good fits T)\<^sup>*\<^sup>* (alone q None 0 Outside (Loop_walking h k))
     (alone (if k \<noteq> 0 then q\<lparr>env := io_uring_cq_advance X k (env q)\<rparr> else q) None 0 Outside Loop_submit)"
  using alone_walk [OF loop_advance [of "alone q None 0 Outside (Loop_walking h k)" h k X]] assms by (cases "k = 0") simp_all

lemma walk_run:
  assumes "ring_contract X V fits" "callback_ok X V good fits J f" "0 \<in> T" "J q" "queue_life V good fits q (cq_view V (env q))"
    "forEachCompletion X f q = Some (Inr q')"
  shows "(system_step X V good fits T)\<^sup>*\<^sup>* (alone q None 0 Outside (Loop_walking (cq_khead X (env q)) 0)) (idle_threads q')"
proof -
  let ?cq = "cq_view V (env q)" and ?run = "(system_step X V good fits T)\<^sup>*\<^sup>*"
  let ?n = "of_nat (length ?cq) :: 32 word"
  obtain q1 where q1: "reap f ?cq q = Inr q1" "q' = (if ?cq = [] then q1 else q1\<lparr>env := io_uring_cq_advance X ?n (env q1)\<rparr>)"
    using forEachCompletion_reap [OF ring_cq [OF assms(1)] walk_ok [OF assms(2)], of q] assms(4-6) by (cases "reap f ?cq q") simp_all
  have same: "cq_view V (env q1) = ?cq" "cq_khead X (env q1) = cq_khead X (env q)"
    using reap_life [OF assms(2,4,5)] q1(1) by (simp_all add: same_rings_def)
  have len: "length ?cq < 2 ^ 32" using ring_cq [OF assms(1)] unfolding cq_contract_def by blast
  then have zero: "?n = 0 \<longleftrightarrow> ?cq = []" by (simp add: of_nat_small_eq_0)
  have "?run (alone q None 0 Outside (Loop_walking (cq_khead X (env q)) 0)) (alone q1 None 0 Outside (Loop_walking (cq_khead X (env q) + ?n) ?n))"
    using reap_run [OF assms(1-5), of 0 q1] q1(1) by simp
  also have "cqe_at X (env q1) (cq_khead X (env q1) + ?n) = None"
    using ring_cq [OF assms(1)] same(1) unfolding cq_contract_def by simp
  then have "?run (alone q1 None 0 Outside (Loop_walking (cq_khead X (env q) + ?n) ?n))
      (alone (if ?n \<noteq> 0 then q1\<lparr>env := io_uring_cq_advance X ?n (env q1)\<rparr> else q1) None 0 Outside Loop_submit)"
    unfolding same(2) by (rule advance_run)
  also have "(if ?n \<noteq> 0 then q1\<lparr>env := io_uring_cq_advance X ?n (env q1)\<rparr> else q1) = q'" using zero q1(2) by simp
  finally show ?thesis by (simp add: alone_idle)
qed

section \<open>A run to apply the theorems to\<close>

definition one_waiting :: "ref_env submission_queue" where
  "one_waiting = new_queue\<lparr>request_pool := \<lparr>blocks = [(1, 40, Some sample_write)], free_blocks = [], pool_brk = 41\<rparr>,
     pending_requests := pending_push WRITE 1 no_pending\<rparr>"

lemma one_pushed: "push sample_write new_queue = Inr one_waiting"
  by (simp add: push_def new_queue_def one_waiting_def allocate_def empty_pool_def store_def)

section \<open>Properties\<close>





end
