(* ===== verification/Buffer_Accounting.thy ===== *)
theory Buffer_Accounting
  imports Net_Safety
begin

text \<open>
  The provided buffers over whole runs: how many times each one is with the kernel or with a completion that is still to be
  processed. \<open>BufferRing\<close> hands all of them out once; the kernel takes one for every completion that brings bytes; \<open>run\<close>
  gives one back for every completion of a multi-shot read that did not fail. The two differ in the completion
  at the end of a stream.
\<close>

section \<open>What the kernel does with the buffers\<close>

text \<open>A completion carries a buffer when its lowest flag is set, \<open>IORING_CQE_F_BUFFER\<close>.\<close>

definition carries :: "cqe \<Rightarrow> bool" where
  "carries c \<longleftrightarrow> bit (cqe_flags c) 0"

primrec selects_buffer :: "sqe_call \<Rightarrow> bool" where
  "selects_buffer (Prep_multishot_accept fd) = False"
| "selects_buffer (Prep_connect fd a n) = False"
| "selects_buffer (Prep_write fd a n off) = False"
| "selects_buffer (Prep_read fd a n off) = False"
| "selects_buffer (Or_sqe_flags fl) = False"
| "selects_buffer (Set_buf_group g) = False"
| "selects_buffer (Prep_read_multishot fd n off g) = True"
| "selects_buffer (Prep_cancel_fd fd fl) = False"
| "selects_buffer (Set_data p) = False"

text \<open>Only multi-shot reads take buffers, one for every completion with bytes; without one the buffer bits are zero.\<close>

definition buffer_fits :: "span list \<Rightarrow> sqe_call list \<Rightarrow> cqe \<Rightarrow> bool" where
  "buffer_fits bufs e c \<longleftrightarrow> kernel_fits bufs e c \<and>
     (if list_ex selects_buffer e then (carries c \<longleftrightarrow> 0 < cqe_res c) \<and> (cqe_res c = 0 \<longrightarrow> cqe_buffer_id c = 0)
      else \<not> carries c)"

abbreviation buffer_at :: "span list \<Rightarrow> nat \<Rightarrow> 16 word \<times> span" where
  "buffer_at bufs i \<equiv> (word_of_nat i, bufs ! i)"

definition carried :: "span list \<Rightarrow> cqe list \<Rightarrow> (16 word \<times> span) multiset" where
  "carried bufs cs = image_mset (\<lambda>c. buffer_at bufs (cqe_buffer_id c)) (mset (filter carries cs))"

text \<open>
  The kernel takes a buffer off the ring for every completion that carries it, at the calls that post completions, and
  touches the buffers nowhere else.
\<close>

definition buffer_contract ::
    "'x sys \<Rightarrow> 'x ring_view \<Rightarrow> span list \<Rightarrow> ptr \<Rightarrow> ('x \<Rightarrow> (16 word \<times> span) list) \<Rightarrow> ('x \<Rightarrow> nat \<Rightarrow> (16 word \<times> span) option) \<Rightarrow> bool" where
  "buffer_contract X V bufs br avail staged \<longleftrightarrow>
     br_contract X br (length bufs) avail staged \<and>
     (\<forall>x e x'. io_uring_get_sqe X x = (e, x') \<longrightarrow> avail x' = avail x) \<and>
     (\<forall>x e c. avail (sqe_apply X e c x) = avail x) \<and>
     (\<forall>x n. avail (io_uring_cq_advance X n x) = avail x) \<and>
     (\<forall>x n x' cs. io_uring_submit X x = (n, x') \<longrightarrow> cq_view V x' = cq_view V x @ cs \<longrightarrow>
        mset (avail x) = mset (avail x') + carried bufs cs) \<and>
     (\<forall>x m n x' cs. io_uring_submit_and_wait X m x = (n, x') \<longrightarrow> cq_view V x' = cq_view V x @ cs \<longrightarrow>
        mset (avail x) = mset (avail x') + carried bufs cs) \<and>
     (\<forall>x m t n p x' cs. io_uring_submit_and_wait_timeout X m t x = (n, p, x') \<longrightarrow> cq_view V x' = cq_view V x @ cs \<longrightarrow>
        mset (avail x) = mset (avail x') + carried bufs cs) \<and>
     (\<forall>x n x' cs. io_uring_peek_cqe X x = (n, x') \<longrightarrow> cq_view V x' = cq_view V x @ cs \<longrightarrow>
        mset (avail x) = mset (avail x') + carried bufs cs)"

text \<open>The buffer ring is private to the loop; callbacks leave it alone.\<close>

definition keeps_buffers ::
    "('x \<Rightarrow> (16 word \<times> span) list) \<Rightarrow> ('c \<Rightarrow> event \<Rightarrow> ('x, 'c, 'z) event_loop_scheme \<Rightarrow> stop + ('x, 'c, 'z) event_loop_scheme) \<Rightarrow> bool" where
  "keeps_buffers avail cb \<longleftrightarrow> (\<forall>f e w w'. cb f e w = Inr w' \<longrightarrow>
     avail (env w') = avail (env w) \<and> buffer_ring w' = buffer_ring w \<and> ring_buffers w' = ring_buffers w)"

lemma carried_simps [simp]: "carried bufs [] = {#}" "carried bufs (cs @ ds) = carried bufs cs + carried bufs ds"
  "carried bufs (c # cs) = (if carries c then add_mset (buffer_at bufs (cqe_buffer_id c)) (carried bufs cs) else carried bufs cs)"
  by (simp_all add: carried_def)

lemma selects_calls [simp]: "list_ex selects_buffer (request_calls a r) \<longleftrightarrow> kind r = READ_MULTISHOT"
  by (cases r) simp_all

section \<open>A stronger promise of the kernel\<close>

lemma posts_mono: "posts fits E cs E' \<Longrightarrow> (\<And>e c. fits e c \<Longrightarrow> fits' e c) \<Longrightarrow> posts fits' E cs E'"
  by (induction rule: posts.induct) (auto intro: posts.intros)

lemma ring_moves_mono: "ring_moves X V fits k x x' \<Longrightarrow> (\<And>e c. fits e c \<Longrightarrow> fits' e c) \<Longrightarrow> ring_moves X V fits' k x x'"
  unfolding ring_moves_def using posts_mono by metis

lemma ring_contract_mono:
  assumes "ring_contract X V fits" "\<And>e c. fits e c \<Longrightarrow> fits' e c"
  shows "ring_contract X V fits'"
  using assms(1) ring_moves_mono [where fits = fits and fits' = fits', OF _ assms(2)] unfolding ring_contract_def by meson

lemma queue_life_mono:
  assumes "queue_life V good fits s cs" "\<And>e c. fits e c \<Longrightarrow> fits' e c"
  shows "queue_life V good fits' s cs"
  using assms unfolding queue_life_def life_def by blast

lemma callback_ok_mono:
  assumes "callback_ok X V good fits' J f" "\<And>e c. fits e c \<Longrightarrow> fits' e c"
  shows "callback_ok X V good fits J f"
  using assms(1) queue_life_mono [where fits = fits and fits' = fits', OF _ assms(2)] unfolding callback_ok_def by blast

lemma buffer_fits_kernel: "buffer_fits bufs e c \<Longrightarrow> kernel_fits bufs e c"
  by (simp add: buffer_fits_def)

section \<open>Submitting\<close>

definition takes :: "'x ring_view \<Rightarrow> span list \<Rightarrow> ('x \<Rightarrow> (16 word \<times> span) list) \<Rightarrow> 'x \<Rightarrow> 'x \<Rightarrow> bool" where
  "takes V bufs avail x x' \<longleftrightarrow> (\<exists>cs. cq_view V x' = cq_view V x @ cs \<and> mset (avail x) = mset (avail x') + carried bufs cs)"

lemma takes_same: "cq_view V x' = cq_view V x \<Longrightarrow> avail x' = avail x \<Longrightarrow> takes V bufs avail x x'"
  by (auto simp: takes_def intro: exI [of _ "[]"])

lemma takes_trans [trans]:
  assumes "takes V bufs avail x y" "takes V bufs avail y z"
  shows "takes V bufs avail x z"
proof -
  obtain cs ds where "cq_view V y = cq_view V x @ cs" "mset (avail x) = mset (avail y) + carried bufs cs"
      "cq_view V z = cq_view V y @ ds" "mset (avail y) = mset (avail z) + carried bufs ds"
    using assms by (auto simp: takes_def)
  then show ?thesis unfolding takes_def by (intro exI [of _ "cs @ ds"]) (simp add: ac_simps)
qed

lemma takes_calls:
  assumes "ring_contract X V fits" "buffer_contract X V bufs br avail staged"
  shows takes_get: "io_uring_get_sqe X x = (e, x') \<Longrightarrow> takes V bufs avail x x'"
    and takes_apply: "takes V bufs avail x (sqe_apply X i c x)"
    and takes_submit: "io_uring_submit X x = (n, x') \<Longrightarrow> takes V bufs avail x x'"
    and takes_wait: "io_uring_submit_and_wait X m x = (n, x') \<Longrightarrow> takes V bufs avail x x'"
    and takes_wait_timeout: "io_uring_submit_and_wait_timeout X m t x = (n, p, x') \<Longrightarrow> takes V bufs avail x x'"
    and takes_peek: "io_uring_peek_cqe X x = (n, x') \<Longrightarrow> takes V bufs avail x x'"
proof -
  have moves: "\<exists>cs. cq_view V x' = cq_view V x @ cs" if "ring_moves X V fits k x x'" for k x' using that by (auto simp: ring_moves_def)
  show "io_uring_get_sqe X x = (e, x') \<Longrightarrow> takes V bufs avail x x'"
    using ring_get_some [OF assms(1)] ring_get_none [OF assms(1)] assms(2) unfolding buffer_contract_def
    by (cases e) (auto simp: same_rings_def intro!: takes_same)
  show "takes V bufs avail x (sqe_apply X i c x)"
    using ring_apply [OF assms(1)] assms(2) unfolding buffer_contract_def by (intro takes_same) simp_all
  show "io_uring_submit X x = (n, x') \<Longrightarrow> takes V bufs avail x x'"
    using moves ring_submit [OF assms(1)] assms(2) unfolding takes_def buffer_contract_def by metis
  show "io_uring_submit_and_wait X m x = (n, x') \<Longrightarrow> takes V bufs avail x x'"
    using moves ring_submit_and_wait [OF assms(1)] assms(2) unfolding takes_def buffer_contract_def by metis
  show "io_uring_submit_and_wait_timeout X m t x = (n, p, x') \<Longrightarrow> takes V bufs avail x x'"
    using moves ring_submit_and_wait_timeout [OF assms(1)] assms(2) unfolding takes_def buffer_contract_def by metis
  show "io_uring_peek_cqe X x = (n, x') \<Longrightarrow> takes V bufs avail x x'"
    using moves ring_peek [OF assms(1)] assms(2) unfolding takes_def buffer_contract_def by metis
qed

lemma takes_refl [simp]: "takes V bufs avail x x"
  by (rule takes_same) simp_all

lemma takes_fill:
  assumes "ring_contract X V fits" "buffer_contract X V bufs br avail staged"
  shows "takes V bufs avail x (fold (sqe_apply X i) cs x)"
proof (induction cs arbitrary: x)
  case (Cons c cs)
  have "takes V bufs avail x (sqe_apply X i c x)" by (rule takes_apply [OF assms])
  also note Cons.IH
  finally show ?case by simp
qed simp

lemma takes_new_entry:
  assumes "ring_contract X V fits" "buffer_contract X V bufs br avail staged" "getNewSubmissionQueueEntry X s = (e, s')"
  shows "takes V bufs avail (env s) (env s')"
proof -
  note get = takes_get [OF assms(1,2)] and sub = takes_submit [OF assms(1,2)]
  show ?thesis
    using assms(3) unfolding getNewSubmissionQueueEntry_def
    by (auto split: prod.splits option.splits dest!: get sub intro: takes_trans)
qed

lemma takes_prepare:
  assumes "ring_contract X V fits" "buffer_contract X V bufs br avail staged"
    "deref (request_pool s) p = Inr r" "prepare (kind r) X p s = Inr (st, s')"
  shows "takes V bufs avail (env s) (env s')"
proof -
  obtain e s1 where g: "getNewSubmissionQueueEntry X s = (e, s1)" by (cases "getNewSubmissionQueueEntry X s")
  have one: "takes V bufs avail (env s) (env s1)" by (rule takes_new_entry [OF assms(1,2) g])
  show ?thesis
  proof (cases e)
    case None
    with one prepare_full [OF g [unfolded None]] assms(4) show ?thesis by simp
  next
    case (Some i)
    have "s' = s1\<lparr>env := fold (sqe_apply X i) (request_calls p r) (env s1)\<rparr>"
      using prepare_entry [OF g [unfolded Some] assms(3)] assms(4) by simp
    then show ?thesis using takes_trans [OF one takes_fill [OF assms(1,2)]] by simp
  qed
qed

lemma takes_batch:
  assumes "ring_contract X V fits" "buffer_contract X V bufs br avail staged" "entries_ok (request_pool s) es"
    "for_each_entry es (prepare_and_count X) (n, s) = Inr (m, s')"
  shows "takes V bufs avail (env s) (env s')"
  using assms(3,4)
proof (induction es arbitrary: n s)
  case (Cons e es)
  obtain r where r: "deref (request_pool s) (snd e) = Inr r" "kind r = fst e" using Cons.prems(1) by (auto simp: entries_ok_def)
  obtain st x where x: "prepare (fst e) X (snd e) s = Inr (st, s\<lparr>env := x\<rparr>)" by (rule prepare_ring [OF assms(1) r])
  have "takes V bufs avail (env s) x" using takes_prepare [OF assms(1,2) r(1), of st "s\<lparr>env := x\<rparr>"] x r(2) by simp
  also have "takes V bufs avail x (env s')"
    using Cons.IH [of "s\<lparr>env := x\<rparr>" "Suc n"] Cons.prems by (simp add: prepare_and_count_Inr [OF x] entries_ok_def)
  finally show ?case .
qed simp

lemma takes_enter:
  assumes "ring_contract X V fits" "buffer_contract X V bufs br avail staged" "enter_ring X t m s = (n, s')"
  shows "takes V bufs avail (env s) (env s')"
proof -
  note calls = takes_wait [OF assms(1,2)] takes_wait_timeout [OF assms(1,2)] takes_peek [OF assms(1,2)]
  show ?thesis
    using assms(3) unfolding enter_ring_def
    by (auto split: if_splits prod.splits dest!: calls intro: takes_trans)
qed

lemma takes_submitting:
  assumes "ring_contract X V fits" "buffer_contract X V bufs br avail staged" "sq_inv w" "submit X t w = Inr (n, w')"
  shows "takes V bufs avail (env w) (env w')"
proof -
  obtain m w1 where w1: "for_each_entry (pending_entries (pending_requests w)) (prepare_and_count X) (0, w) = Inr (m, w1)"
      "enter_ring X t m (w1\<lparr>pending_requests := pending_clear (pending_requests w1)\<rparr>) = (n, w')"
    using assms(4) by (auto simp: submit_enter_ring preparePendingRequests_def pending_for_each_def res_simps simp del: pending_clear_eq)
  have "takes V bufs avail (env w) (env w1)" using assms(3) by (intro takes_batch [OF assms(1,2) _ w1(1)]) (simp add: sq_inv_def)
  also have "takes V bufs avail (env w1) (env w')" using takes_enter [OF assms(1,2) w1(2)] by simp
  finally show ?thesis .
qed

section \<open>Processing the completions\<close>

lemma handle_keeps_buffers:
  assumes "keeps_buffers avail cb" "subscriber_handle cb p e w = Inr w'"
  shows "avail (env w') = avail (env w)" "buffer_ring w' = buffer_ring w" "ring_buffers w' = ring_buffers w"
proof -
  have put: "avail (env v') = avail (env v) \<and> buffer_ring v' = buffer_ring v \<and> ring_buffers v' = ring_buffers v"
    if "put_subscriber p h v = Inr v'" for h and v v' :: "('a, 'b, 'c) event_loop_scheme"
    using that by (auto simp: put_subscriber_def res_simps)
  have "avail (env w') = avail (env w) \<and> buffer_ring w' = buffer_ring w \<and> ring_buffers w' = ring_buffers w"
    using assms(2) put assms(1) unfolding subscriber_handle_def handle_def keeps_buffers_def
    by (auto simp: res_simps split: option.splits)
  then show "avail (env w') = avail (env w)" "buffer_ring w' = buffer_ring w" "ring_buffers w' = ring_buffers w" by simp_all
qed

text \<open>What the loop gives back for a completion of the request \<open>r\<close>.\<close>

definition given_back :: "span list \<Rightarrow> request \<Rightarrow> cqe \<Rightarrow> (16 word \<times> span) list" where
  "given_back bufs r c = (if kind r = READ_MULTISHOT \<and> 0 \<le> cqe_res c then [buffer_at bufs (cqe_buffer_id c)] else [])"

lemma on_completion_gives_back:
  assumes "buffer_contract X V bufs br avail staged" "keeps_buffers avail cb" "length bufs < 2 ^ 31"
    "deref (request_pool w) (cqe_user_data c) = Inr r" "wf_request r" "good_request r" "kernel_fits bufs (request_calls (cqe_user_data c) r) c"
    "ring_buffers w = bufs" "buffer_ring w = br" "on_completion X cb c w = Inr w'"
  shows "avail (env w') = avail (env w) @ given_back bufs r c \<and> buffer_ring w' = br"
proof -
  have user: "user_data (header r) \<noteq> nullptr" using assms(6) by (simp add: good_request_def)
  show ?thesis
  proof (cases "cqe_res c < 0")
    case True
    then show ?thesis
      using handle_keeps_buffers [OF assms(2)] assms(9,10) on_completion_error [OF assms(4,5) user True, of X cb]
      by (fastforce simp: given_back_def simp del: append.simps)
  next
    case False
    then have pos: "0 \<le> cqe_res c" by simp
    have fit: "result_fits c (ring_buffers w) r" unfolding assms(8) by (rule kernel_fits_result [OF assms(7,6,3) pos])
    note eq = on_completion_event [OF assms(4,5) user pos fit, of X cb]
    obtain w1 where w1: "subscriber_handle cb (user_data (header r)) (completion_event c (ring_buffers w) r) w = Inr w1"
        "(if kind r = READ_MULTISHOT then br_release X c else Inr) w1 = Inr w'"
      using assms(10) eq by (auto simp: res_simps)
    note keep = handle_keeps_buffers [OF assms(2) w1(1)]
    show ?thesis
    proof (cases "kind r = READ_MULTISHOT")
      case True
      have "cqe_buffer_id c < length (ring_buffers w1)" using fit True keep(3) by (cases r) simp_all
      moreover have "br_contract X (buffer_ring w1) (length (ring_buffers w1)) avail staged"
        using assms(1,8,9) keep by (simp add: buffer_contract_def)
      ultimately obtain x where "br_release X c w1 = Inr (w1\<lparr>env := x\<rparr>)"
          "avail x = avail (env w1) @ [buffer_at bufs (cqe_buffer_id c)]"
        using br_release_gives_back keep(3) assms(8) by metis
      then show ?thesis using w1(2) True pos keep assms(9) by (auto simp: given_back_def)
    next
      case False
      then show ?thesis using w1(2) keep assms(9) by (simp add: given_back_def)
    qed
  qed
qed

text \<open>A completion at the end of a stream: a multi-shot read that brings no bytes.\<close>

definition stream_end :: "request pool \<Rightarrow> cqe \<Rightarrow> bool" where
  "stream_end pool c \<longleftrightarrow> cqe_res c = 0 \<and> map_option kind (contents pool (cqe_user_data c)) = Some READ_MULTISHOT"

definition stream_ends :: "request pool \<Rightarrow> cqe list \<Rightarrow> nat" where
  "stream_ends pool cs = length (filter (stream_end pool) cs)"

lemma given_back_carried:
  assumes "buffer_fits bufs (request_calls a r) c" "contents pool (cqe_user_data c) = Some r"
  shows "mset (given_back bufs r c) = carried bufs [c] + (if stream_end pool c then {#buffer_at bufs 0#} else {#})"
  using assms by (auto simp: given_back_def buffer_fits_def stream_end_def split: if_splits)

lemma completion_live:
  assumes "queue_life V good fits w cs" "d \<in> set cs"
  shows "\<exists>r. contents (request_pool w) (cqe_user_data d) = Some r"
  using assms life_completion [of good fits "request_pool w" _ _ cs d] unfolding queue_life_def deref_contents by blast

lemma release_keeps_ring: "release c w = Inr w' \<Longrightarrow> buffer_ring w' = buffer_ring w"
  by (subst release_frame [of c w w']) simp_all

lemma stream_ends_stable:
  assumes "(program_step X V good)\<^sup>*\<^sup>* w w1" "queue_life V good fits w (c # cs)" "release c w1 = Inr w2" "queue_life V good fits w2 cs"
  shows "stream_ends (request_pool w2) cs = stream_ends (request_pool w) cs"
proof -
  have inv: "sq_inv w1" "contents (request_pool w) \<subseteq>\<^sub>m contents (request_pool w1)"
    using program_steps_keep [OF assms(1)] assms(2) by (simp_all add: queue_life_def)
  obtain r where "contents (request_pool w) (cqe_user_data c) = Some r" by (rule completion_request [OF assms(2)])
  then have "contents (request_pool w1) (cqe_user_data c) = Some r" using inv(2) by (auto simp: map_le_def dom_def)
  then have le: "contents (request_pool w2) \<subseteq>\<^sub>m contents (request_pool w1)"
    using release_contents [OF inv(1) _ assms(3)] released_le by metis
  have "contents (request_pool w2) (cqe_user_data d) = contents (request_pool w) (cqe_user_data d)" if in_cs: "d \<in> set cs" for d
  proof -
    obtain r1 r2 where "contents (request_pool w) (cqe_user_data d) = Some r1" "contents (request_pool w2) (cqe_user_data d) = Some r2"
      using completion_live [OF assms(2), of d] completion_live [OF assms(4) in_cs] in_cs by auto
    then show ?thesis using inv(2) le by (metis domI map_le_def)
  qed
  then have "filter (stream_end (request_pool w2)) cs = filter (stream_end (request_pool w)) cs"
    by (intro filter_cong) (simp_all add: stream_end_def)
  then show ?thesis by (simp add: stream_ends_def)
qed

lemma reap_accounts:
  assumes "buffer_contract X V bufs br avail staged" "keeps_buffers avail cb" "length bufs < 2 ^ 31"
    "callback_ok X V good_request (buffer_fits bufs) (world_inv bufs I) (on_completion X cb)"
    "world_inv bufs I w" "queue_life V good_request (buffer_fits bufs) w cs" "buffer_ring w = br" "reap (on_completion X cb) cs w = Inr w'"
  shows "mset (avail (env w')) = mset (avail (env w)) + carried bufs cs + replicate_mset (stream_ends (request_pool w) cs) (buffer_at bufs 0) \<and>
    buffer_ring w' = br"
  using assms(5-)
proof (induction cs arbitrary: w)
  case Nil
  then show ?case by (simp add: stream_ends_def)
next
  case (Cons c cs)
  obtain w1 w2 where f: "on_completion X cb c w = Inr w1" "release c w1 = Inr w2" "reap (on_completion X cb) cs w2 = Inr w'"
    using Cons.prems(4) by (auto simp: res_simps)
  have steps: "(program_step X V good_request)\<^sup>*\<^sup>* w w1" by (rule callback_okD(1) [OF assms(4) Cons.prems(1,2) f(1)])
  have J: "world_inv bufs I w2" by (rule callback_okD(2) [OF assms(4) Cons.prems(1,2) f(1,2)])
  have life: "queue_life V good_request (buffer_fits bufs) w2 cs"
    by (rule queue_life_release [OF program_steps(2) [OF steps Cons.prems(2)]]) (use f(2) in simp)
  obtain r where r: "sq_inv w" "contents (request_pool w) (cqe_user_data c) = Some r" "good_request r" "wf_request r"
      "buffer_fits bufs (request_calls (cqe_user_data c) r) c"
    by (rule completion_request [OF Cons.prems(2)])
  have d: "deref (request_pool w) (cqe_user_data c) = Inr r"
    using r(1,2) contents_live [OF r(2)] pool_inv_live_nonnull [of "request_pool w" "cqe_user_data c"] by (auto simp: sq_inv_def deref_contents)
  have one: "avail (env w1) = avail (env w) @ given_back bufs r c" "buffer_ring w1 = br"
    using on_completion_gives_back [OF assms(1-3) d r(4,3) buffer_fits_kernel [OF r(5)] world_okD(5) [OF Cons.prems(1)] Cons.prems(3) f(1)] by simp_all
  have two: "env w2 = env w1" "buffer_ring w2 = br" using release_env [OF f(2)] release_keeps_ring [OF f(2)] one(2) by simp_all
  have "stream_ends (request_pool w) (c # cs) = (if stream_end (request_pool w) c then 1 else 0) + stream_ends (request_pool w2) cs"
    using stream_ends_stable [OF steps Cons.prems(2) f(2) life] by (simp add: stream_ends_def)
  then show ?case
    using Cons.IH [OF J life two(2) f(3)] one(1) two(1) given_back_carried [OF r(5,2)] by (simp add: ac_simps)
qed

section \<open>Turns\<close>

lemma replicate_mset_sum: "replicate_mset (m + n) a = replicate_mset m a + replicate_mset n a"
  by (induction m) simp_all

text \<open>
  The loop is in order and every buffer is accounted for: with the kernel or with a completion to process, once each, and
  the first one \<open>k\<close> times more.
\<close>

definition accounted ::
    "'x sys \<Rightarrow> 'x ring_view \<Rightarrow> span list \<Rightarrow> (('x, 'c, 'z) event_loop_scheme \<Rightarrow> (ptr \<rightharpoonup> request) \<Rightarrow> bool) \<Rightarrow> ptr \<Rightarrow>
     ('x \<Rightarrow> (16 word \<times> span) list) \<Rightarrow> nat \<Rightarrow> ('x, 'c, 'z) event_loop_scheme \<Rightarrow> bool" where
  "accounted X V bufs I br avail k w \<longleftrightarrow>
     ring_contract X V (buffer_fits bufs) \<and> length bufs < 2 ^ 31 \<and> world_inv bufs I w \<and>
     queue_life V good_request (buffer_fits bufs) w (cq_view V (env w)) \<and> buffer_ring w = br \<and>
     mset (avail (env w)) + carried bufs (cq_view V (env w)) =
       mset (map (buffer_at bufs) [0..<length bufs]) + replicate_mset k (buffer_at bufs 0)"

lemma accounted_queue_ok:
  assumes "loop_program X V bufs I cb" "accounted X V bufs I br avail k w"
  shows "queue_ok X V good_request (buffer_fits bufs) (world_inv bufs I) (on_completion X cb) w"
proof -
  have ring: "ring_contract X V (buffer_fits bufs)" "length bufs < 2 ^ 31" using assms(2) by (simp_all add: accounted_def)
  have "callback_ok X V good_request (kernel_fits bufs) (world_inv bufs I) (on_completion X cb)"
    by (rule loop_program.on_completion_ok [OF assms(1) ring_contract_mono [OF ring(1) buffer_fits_kernel] ring(2)])
  then have "callback_ok X V good_request (buffer_fits bufs) (world_inv bufs I) (on_completion X cb)"
    by (rule callback_ok_mono [OF _ buffer_fits_kernel])
  then show ?thesis using assms(2) by (simp add: accounted_def queue_ok_def)
qed

lemma accounted_submit:
  assumes "loop_program X V bufs I cb" "buffer_contract X V bufs br avail staged"
    "accounted X V bufs I br avail k w" "submit X t w = Inr (n, w1)"
  shows "accounted X V bufs I br avail k w1"
proof -
  note ok = accounted_queue_ok [OF assms(1,3)]
  have ring: "ring_contract X V (buffer_fits bufs)" and life: "queue_life V good_request (buffer_fits bufs) w (cq_view V (env w))"
    using assms(3) by (simp_all add: accounted_def)
  obtain x where x: "w1 = w\<lparr>env := x, pending_requests := no_pending\<rparr>"
    by (rule queue_life_submit [OF ring life, of t]) (use assms(4) in simp)
  have "takes V bufs avail (env w) (env w1)"
    using life by (intro takes_submitting [OF ring assms(2) _ assms(4)]) (simp add: queue_life_def)
  then obtain cs where "cq_view V (env w1) = cq_view V (env w) @ cs" "mset (avail (env w)) = mset (avail (env w1)) + carried bufs cs"
    by (auto simp: takes_def)
  moreover have "queue_ok X V good_request (buffer_fits bufs) (world_inv bufs I) (on_completion X cb) w1"
    by (rule queue_step_ok [OF ok by_submit [OF assms(4)]])
  ultimately show ?thesis using assms(3) x by (simp add: accounted_def queue_ok_def ac_simps)
qed

lemma accounted_walk:
  assumes "loop_program X V bufs I cb" "buffer_contract X V bufs br avail staged" "keeps_buffers avail cb"
    "accounted X V bufs I br avail k w" "forEachCompletion X (on_completion X cb) w = Some (Inr w')"
  shows "accounted X V bufs I br avail (k + stream_ends (request_pool w) (cq_view V (env w))) w'"
proof -
  note ok = accounted_queue_ok [OF assms(1,4)]
  have ok': "queue_ok X V good_request (buffer_fits bufs) (world_inv bufs I) (on_completion X cb) w'"
    by (rule queue_step_ok [OF ok by_walk [OF assms(5)]])
  have parts: "ring_contract X V (buffer_fits bufs)" "callback_ok X V good_request (buffer_fits bufs) (world_inv bufs I) (on_completion X cb)"
      "world_inv bufs I w" "queue_life V good_request (buffer_fits bufs) w (cq_view V (env w))"
    using ok by (simp_all add: queue_ok_def)
  have len: "length bufs < 2 ^ 31" and br: "buffer_ring w = br" using assms(4) by (simp_all add: accounted_def)
  let ?n = "word_of_nat (length (cq_view V (env w)))"
  obtain w1 where w1: "reap (on_completion X cb) (cq_view V (env w)) w = Inr w1"
      "w' = (if cq_view V (env w) = [] then w1 else w1\<lparr>env := io_uring_cq_advance X ?n (env w1)\<rparr>)"
    using forEachCompletion_reap [OF ring_cq [OF parts(1)] walk_ok [OF parts(2)], of w] parts(3,4) assms(5)
    by (cases "reap (on_completion X cb) (cq_view V (env w)) w") simp_all
  have after: "mset (avail (env w1)) = mset (avail (env w)) + carried bufs (cq_view V (env w)) +
      replicate_mset (stream_ends (request_pool w) (cq_view V (env w))) (buffer_at bufs 0)" "buffer_ring w1 = br"
    using reap_accounts [OF assms(2,3) len parts(2-4) br w1(1)] by simp_all
  have adv: "avail (env w') = avail (env w1)" "buffer_ring w' = br"
    using w1(2) after(2) assms(2) by (simp_all add: buffer_contract_def)
  have "cq_view V (env w') = []"
    by (rule forEachCompletion_life [OF parts]) (use assms(5) in simp_all)
  then show ?thesis
    using assms(4) ok' adv after(1) by (simp add: accounted_def queue_ok_def replicate_mset_sum ac_simps)
qed

lemma accounted_turn:
  assumes "loop_program X V bufs I cb" "buffer_contract X V bufs br avail staged" "keeps_buffers avail cb"
    "accounted X V bufs I br avail k w" "submit X 100 w = Inr (n, w1)" "run_iteration X cb w = Some (Inr w')"
  shows "accounted X V bufs I br avail (k + stream_ends (request_pool w1) (cq_view V (env w1))) w'"
proof -
  obtain w2 where w2: "forEachCompletion X (on_completion X cb) w1 = Some (Inr w2)"
      "w' = w2 \<or> error_handle_event cb (Error_of_event X (- n)) w2 = Inr w'"
    using assms(5,6) by (auto simp: run_iteration_def split: option.splits sum.splits if_splits)
  have ok: "accounted X V bufs I br avail (k + stream_ends (request_pool w1) (cq_view V (env w1))) w2"
    by (rule accounted_walk [OF assms(1-3) accounted_submit [OF assms(1,2,4,5)] w2(1)])
  from w2(2) show ?thesis
  proof
    assume err: "error_handle_event cb (Error_of_event X (- n)) w2 = Inr w'"
    have world: "world_inv bufs I w2" using ok by (simp add: accounted_def)
    have "w' = w2\<lparr>cerr := cerr w2 @ sys_strerror X (- n)\<rparr>"
      using err unfolding error_handle_event_default [OF world_okD(6) [OF world]] by simp
    then show ?thesis
      using ok world_ok_frame(4) [OF loop_program.invariant [OF assms(1)] world] by (simp add: accounted_def queue_life_def sq_inv_def)
  qed (use ok in simp)
qed

text \<open>A number of turns, with the number of streams that ended in them.\<close>

inductive turns_ended ::
    "'x sys \<Rightarrow> 'x ring_view \<Rightarrow> ('c \<Rightarrow> event \<Rightarrow> ('x, 'c, 'z) event_loop_scheme \<Rightarrow> stop + ('x, 'c, 'z) event_loop_scheme) \<Rightarrow>
     ('x, 'c, 'z) event_loop_scheme \<Rightarrow> nat \<Rightarrow> ('x, 'c, 'z) event_loop_scheme \<Rightarrow> bool"
  for X V cb where
  no_turn: "turns_ended X V cb w 0 w"
| one_turn: "turns_ended X V cb w k w1 \<Longrightarrow> submit X 100 w1 = Inr (n, w2) \<Longrightarrow> run_iteration X cb w1 = Some (Inr w3) \<Longrightarrow>
     turns_ended X V cb w (k + stream_ends (request_pool w2) (cq_view V (env w2))) w3"

lemma accounted_turns:
  assumes "turns_ended X V cb w j w'" "loop_program X V bufs I cb" "buffer_contract X V bufs br avail staged" "keeps_buffers avail cb"
    "accounted X V bufs I br avail k w"
  shows "accounted X V bufs I br avail (k + j) w'"
  using assms(1,5)
proof (induction rule: turns_ended.induct)
  case (one_turn w j w1 n w2 w3)
  from accounted_turn [OF assms(2-4) one_turn.IH [OF one_turn.prems] one_turn.hyps(2,3)] show ?case by (simp add: ac_simps)
qed simp

section \<open>The start\<close>

text \<open>The constructor of the loop hands every buffer to the kernel once, unless the kernel refuses to set the ring up.\<close>

lemma new_EventLoop_buffers:
  assumes "new_EventLoop cb X n base x = Inr l"
    "\<forall>m y br st y'. io_uring_setup_buf_ring X m BUFFER_GROUP_ID BUFFER_RING_FLAGS y = (br, st, y') \<longrightarrow> br \<noteq> nullptr \<longrightarrow>
       buffer_contract X V (loop_buffers base) br avail staged \<and> avail y' = []"
  shows "buffer_ring l = nullptr \<or> buffer_contract X V (loop_buffers base) (buffer_ring l) avail staged \<and>
    avail (env l) = map (buffer_at (loop_buffers base)) [0..<length (loop_buffers base)]"
proof -
  let ?bufs = "loop_buffers base"
  obtain w st w1 where w: "setupBuffers X ?bufs w = (st, w1)" "buffer_ring w = nullptr" "default_errors w"
      "if success st then l = w1 else error_handle cb (message st) w1 = Inr l"
    using assms(1)
    by (auto simp: new_EventLoop_def new_SubmissionQueue_def throwOnError_def Let_def res_simps default_errors_def split: prod.splits if_splits)
  obtain br m y where y: "io_uring_setup_buf_ring X (word_of_nat (length ?bufs)) BUFFER_GROUP_ID BUFFER_RING_FLAGS (env (free_buffer_ring X w)) = (br, m, y)"
    by (metis prod_cases3)
  show ?thesis
  proof (cases "br = nullptr")
    case True
    have pow: "isPowerOfTwo (word_of_nat (length ?bufs))" by (simp add: isPowerOfTwo_def)
    have w1: "w1 = w\<lparr>env := y, buffer_ring := nullptr, ring_buffers := ?bufs\<rparr>" "\<not> success st"
      using w(1,2) y pow True by (auto simp: setupBuffers_def free_buffer_ring_def Let_def simp del: loop_buffers_length)
    then have "default_errors w1" using w(3) by (simp add: default_errors_def)
    then show ?thesis using w(4) w1 error_handle_default [of w1 cb "message st"] by auto
  next
    case False
    have c: "buffer_contract X V ?bufs br avail staged" "avail y = []" using assms(2) y False by blast+
    obtain x' where "setupBuffers X ?bufs w = (\<lparr>success = True, message = ''Buffers added''\<rparr>, w\<lparr>env := x', buffer_ring := br, ring_buffers := ?bufs\<rparr>)"
        "avail x' = avail y @ map (buffer_at ?bufs) [0..<length ?bufs]"
      by (rule setupBuffers_success [of ?bufs 11 X w br m y avail staged])
        (use y False c(1) in \<open>simp_all add: buffer_contract_def\<close>)
    then show ?thesis using w(1,4) c by auto
  qed
qed

text \<open>So does a program that sets itself up on a new loop.\<close>

lemma fresh_accounted:
  assumes "ring_contract X V (buffer_fits bufs)" "length bufs < 2 ^ 31" "fresh_loop V bufs w" "buffer_ring w' = br"
    "avail (env w') = map (buffer_at bufs) [0..<length bufs]" "(program_step X V good_request)\<^sup>*\<^sup>* w w'" "world_inv bufs I w'"
  shows "accounted X V bufs I br avail 0 w'"
proof -
  have "queue_life V good_request (buffer_fits bufs) w' (cq_view V (env w))"
    by (rule program_steps(2) [OF assms(6) fresh_loop_life [OF assms(3)]])
  moreover have "cq_view V (env w') = []" "cq_view V (env w) = []"
    using program_steps(1) [OF assms(6)] assms(3) by (simp_all add: same_rings_def fresh_loop_def)
  ultimately show ?thesis using assms by (simp add: accounted_def)
qed

section \<open>A loop to apply the theorem to\<close>

text \<open>The sample program with all its buffers at the kernel, at the end of the stream it reads.\<close>

definition ending_loop :: sample_world where
  "ending_loop = sample_loop\<lparr>env := ref_init\<lparr>ref_avail := map (buffer_at sample_buffers) [0..<4],
     ref_cq := [\<lparr>cqe_user_data = 42, cqe_res = 0, cqe_flags = 0\<rparr>]\<rparr>\<rparr>"

lemma ending_loop_facts:
  "contents (request_pool ending_loop) = [2 \<mapsto> set_user_data 7 sample_write, 42 \<mapsto> set_user_data 7 sample_multishot]"
  "contents (subscribers ending_loop) = [7 \<mapsto> sample_handler]" "pool_inv (subscribers ending_loop)" "sq_inv ending_loop"
  "ref_cq_view (env ending_loop) = [\<lparr>cqe_user_data = 42, cqe_res = 0, cqe_flags = 0\<rparr>]"
  "entries_of ref_view (env ending_loop) = {#}" "pending_requests ending_loop = no_pending"
  "ring_buffers ending_loop = sample_buffers" "default_errors ending_loop" "buffer_ring ending_loop = 1"
  "ref_avail (env ending_loop) = map (buffer_at sample_buffers) [0..<4]"
  using sample_loop_inv
  by (auto simp: ending_loop_def sample_loop_def contents_def fun_eq_iff pool_inv_def live_def freed_def sq_inv_def
      ref_init_def ref_cq_view_def entries_of_def default_errors_def)

lemma ref_buffer_contract: "buffer_contract (ref_sys cap) ref_view bufs br ref_avail ref_staged"
  using ref_br_contract [of cap br "length bufs"]
  by (auto simp: buffer_contract_def ref_sys_def ref_flush_def ref_cq_view_def Let_def split: if_splits)

lemma ending_loop_accounted: "accounted (ref_sys 4) ref_view sample_buffers no_invariant 1 ref_avail 0 ending_loop"
proof -
  let ?c = "\<lparr>cqe_user_data = 42, cqe_res = 0, cqe_flags = 0\<rparr>"
  have len: "length sample_buffers = 4" by (simp add: sample_buffers_def)
  have requests: "good_request (set_user_data 7 sample_write)" "good_request (set_user_data 7 sample_multishot)"
      "buffer_fits sample_buffers (request_calls 42 (set_user_data 7 sample_multishot)) ?c"
    by (simp_all add: good_request_def sample_write_def sample_multishot_def kernel_fits_def buffer_fits_def carries_def cqe_buffer_id_def len)
  have "life good_request (buffer_fits sample_buffers) (request_pool ending_loop) {#} {#} [?c]"
    using requests by (intro lifeI) (auto simp: ending_loop_facts deref_contents claims_def split: if_splits)
  moreover have "world_inv sample_buffers no_invariant ending_loop"
    by (auto simp: world_ok_def ending_loop_facts sample_handler_def split: if_splits)
  ultimately show ?thesis
    using ref_ring_contract by (simp add: accounted_def queue_life_def ending_loop_facts len carries_def)
qed

section \<open>Property\<close>



end
