(* ===== verification/Type_Traits.thy ===== *)
theory Type_Traits
  imports Requests
begin

text \<open>
  \<open>include/ringnet/traits/reinterpretable.hpp\<close> and \<open>traits/movable.hpp\<close>, and the static assertions of
  \<open>uring/requests.hpp\<close>. The compiler evaluates them on the layout of the structures, so the layout is
  computed here: members in the order of their declaration, each at the next multiple of its alignment
  (the rules of the Itanium C++ ABI for classes without virtual functions and bit fields, on an LP64
  target). The bytes of a structure are then its members in little-endian order with padding, and the
  \<open>reinterpret_cast\<close>s of the library are reads of these bytes.
\<close>

section \<open>Types and their layout\<close>

text \<open>
  A class has, beside its members, two properties the traits ask for: whether its special member
  functions allow copying as bytes (each copy or move operation is trivial or deleted, at least one is
  not deleted, and the destructor is trivial), and whether its members have one access control and no
  virtual function.
\<close>

datatype cpp_type =
    Scalar nat
  | Class (trivial_specials: bool) (plain_members: bool) (members: "cpp_type list")

primrec alignof :: "cpp_type \<Rightarrow> nat" where
  "alignof (Scalar n) = n"
| "alignof (Class b c ts) = foldr max (map alignof ts) 1"

definition round_up :: "nat \<Rightarrow> nat \<Rightarrow> nat" where
  "round_up a n = (n + a - 1) div a * a"

text \<open>Offsets of members given by size and alignment, from the offset \<open>n\<close> on, and the end of the last.\<close>

fun place :: "nat \<Rightarrow> (nat \<times> nat) list \<Rightarrow> nat list \<times> nat" where
  "place n [] = ([], n)"
| "place n ((sz, al) # ms) =
     (let k = round_up al n in case place (k + sz) ms of (ks, e) \<Rightarrow> (k # ks, e))"

primrec sizeof :: "cpp_type \<Rightarrow> nat" where
  "sizeof (Scalar n) = n"
| "sizeof (Class b c ts) = round_up (alignof (Class b c ts)) (max 1 (snd (place 0 (zip (map sizeof ts) (map alignof ts)))))"

definition offsets :: "cpp_type list \<Rightarrow> nat list" where
  "offsets ts = fst (place 0 (zip (map sizeof ts) (map alignof ts)))"

section \<open>The traits\<close>

primrec is_trivially_copyable :: "cpp_type \<Rightarrow> bool" where
  "is_trivially_copyable (Scalar n) = True"
| "is_trivially_copyable (Class b c ts) = (b \<and> list_all id (map is_trivially_copyable ts))"

primrec is_standard_layout :: "cpp_type \<Rightarrow> bool" where
  "is_standard_layout (Scalar n) = True"
| "is_standard_layout (Class b c ts) = (c \<and> list_all id (map is_standard_layout ts))"

definition is_safe_for_reinterpret_cast :: "cpp_type \<Rightarrow> bool" where
  "is_safe_for_reinterpret_cast t \<longleftrightarrow> is_trivially_copyable t \<and> is_standard_layout t"

text \<open>\<open>NonMovable\<close>: its move operations are deleted, so its copy operations are implicitly deleted too.\<close>

definition NonMovable :: cpp_type where
  "NonMovable = Class False True []"

section \<open>The structures of the library\<close>

definition uint32_layout :: cpp_type where "uint32_layout = Scalar 4"
definition int_layout :: cpp_type where "int_layout = Scalar 4"
definition uint16_layout :: cpp_type where "uint16_layout = Scalar 2"
definition pointer_layout :: cpp_type where "pointer_layout = Scalar 8"

text \<open>\<open>std::span\<close>: a pointer and a \<open>size_t\<close>.\<close>

definition span_layout :: cpp_type where
  "span_layout = Class True True [pointer_layout, Scalar 8]"

definition header_layout :: cpp_type where
  "header_layout = Class True True [uint32_layout, uint32_layout, pointer_layout]"

primrec request_layout :: "Operation \<Rightarrow> cpp_type" where
  "request_layout ACCEPT = Class True True [header_layout, int_layout]"
| "request_layout CONNECT = Class True True [header_layout, int_layout, pointer_layout, uint32_layout]"
| "request_layout READ = Class True True [header_layout, int_layout, span_layout]"
| "request_layout READ_MULTISHOT = Class True True [header_layout, int_layout, uint16_layout]"
| "request_layout WRITE = Class True True [header_layout, int_layout, span_layout]"

text \<open>
  \<open>Subscriber\<close> (\<open>EventHandler\<close> of five events): the base class, which is empty and takes no room of its own,
  five \<open>std::function\<close>s of 32 bytes (a buffer of two words and a manager in its base class, an invoker of its
  own) and a mutex of 40 bytes, as in libstdc++. None of the three can be copied as bytes.
\<close>

definition function_layout :: cpp_type where
  "function_layout = Class False False [pointer_layout, pointer_layout, pointer_layout, pointer_layout]"

definition mutex_layout :: cpp_type where
  "mutex_layout = Class False True (replicate 5 (Scalar 8))"

definition subscriber_layout :: cpp_type where
  "subscriber_layout =
     Class (trivial_specials NonMovable) True (members NonMovable @ replicate 5 function_layout @ [mutex_layout])"

lemmas layout_defs = uint32_layout_def int_layout_def uint16_layout_def pointer_layout_def span_layout_def
  header_layout_def function_layout_def mutex_layout_def NonMovable_def

section \<open>Little-endian bytes\<close>

primrec le_bytes :: "nat \<Rightarrow> nat \<Rightarrow> 8 word list" where
  "le_bytes 0 n = []"
| "le_bytes (Suc k) n = word_of_nat (n mod 256) # le_bytes k (n div 256)"

primrec le_nat :: "8 word list \<Rightarrow> nat" where
  "le_nat [] = 0"
| "le_nat (b # bs) = unat b + 256 * le_nat bs"

lemma length_le_bytes [simp]: "length (le_bytes k n) = k"
  by (induction k arbitrary: n) simp_all

lemma le_nat_le_bytes: "n < 256 ^ k \<Longrightarrow> le_nat (le_bytes k n) = n"
proof (induction k arbitrary: n)
  case (Suc k)
  then have "n div 256 < 256 ^ k" by (simp add: less_mult_imp_div_less mult.commute)
  with Suc.IH [of "n div 256"] show ?case by (simp add: unat_of_nat)
qed simp

text \<open>The value of a member at an offset: its bytes in two's complement.\<close>

definition bytes_nat :: "nat \<Rightarrow> nat \<Rightarrow> 8 word list \<Rightarrow> nat" where
  "bytes_nat off n b = le_nat (take n (drop off b))"

definition bytes_int :: "nat \<Rightarrow> 8 word list \<Rightarrow> int" where
  "bytes_int off b = sint (word_of_nat (bytes_nat off 4 b) :: 32 word)"

definition int_bytes :: "int \<Rightarrow> 8 word list" where
  "int_bytes i = le_bytes 4 (unat (word_of_int i :: 32 word))"

section \<open>Requests as bytes\<close>

text \<open>A structure in memory: each member's bytes at its offset, with unspecified bytes \<open>pad\<close> in the gaps.\<close>

fun struct_bytes :: "8 word \<Rightarrow> nat \<Rightarrow> nat \<Rightarrow> (nat \<times> 8 word list) list \<Rightarrow> 8 word list" where
  "struct_bytes pad sz n [] = replicate (sz - n) pad"
| "struct_bytes pad sz n ((off, b) # ms) = replicate (off - n) pad @ b @ struct_bytes pad sz (off + length b) ms"

definition class_bytes :: "8 word \<Rightarrow> cpp_type \<Rightarrow> 8 word list list \<Rightarrow> 8 word list" where
  "class_bytes pad t bs = struct_bytes pad (sizeof t) 0 (zip (offsets (members t)) bs)"

definition header_bytes :: "8 word \<Rightarrow> RequestHeader \<Rightarrow> 8 word list" where
  "header_bytes pad h = class_bytes pad header_layout
     [le_bytes 4 (unat (magic h)), le_bytes 4 (unat (op h)), le_bytes 8 (user_data h)]"

definition span_bytes :: "8 word \<Rightarrow> span \<Rightarrow> 8 word list" where
  "span_bytes pad s = class_bytes pad span_layout [le_bytes 8 (sp_base s), le_bytes 8 (sp_len s)]"

primrec request_members :: "8 word \<Rightarrow> request \<Rightarrow> 8 word list list" where
  "request_members pad (AcceptR r) = [header_bytes pad (accept_header r), int_bytes (listening_socket_fd r)]"
| "request_members pad (ConnectR r) =
     [header_bytes pad (connect_header r), int_bytes (connect_fd r), le_bytes 8 (connect_addr r), le_bytes 4 (connect_addrlen r)]"
| "request_members pad (ReadR r) =
     [header_bytes pad (read_header r), int_bytes (read_fd r), span_bytes pad (reception_buffer r)]"
| "request_members pad (MultiShotReadR r) =
     [header_bytes pad (multishot_header r), int_bytes (multishot_fd r), le_bytes 2 (unat (buffer_group_id r))]"
| "request_members pad (WriteR r) =
     [header_bytes pad (write_header r), int_bytes (write_fd r), span_bytes pad (bytes_written r)]"

definition request_bytes :: "8 word \<Rightarrow> request \<Rightarrow> 8 word list" where
  "request_bytes pad r = class_bytes pad (request_layout (kind r)) (request_members pad r)"

text \<open>
  The reads through a cast pointer: the header first, then the structure its tag names. \<open>at i\<close> is the
  offset of the \<open>i\<close>-th member of the structure.
\<close>

definition member_offset :: "cpp_type \<Rightarrow> nat \<Rightarrow> nat" where
  "member_offset t i = offsets (members t) ! i"

definition header_at :: "nat \<Rightarrow> 8 word list \<Rightarrow> RequestHeader" where
  "header_at off b =
     \<lparr>magic = word_of_nat (bytes_nat (off + member_offset header_layout 0) 4 b),
      op = word_of_nat (bytes_nat (off + member_offset header_layout 1) 4 b),
      user_data = bytes_nat (off + member_offset header_layout 2) 8 b\<rparr>"

definition span_at :: "nat \<Rightarrow> 8 word list \<Rightarrow> span" where
  "span_at off b =
     \<lparr>sp_base = bytes_nat (off + member_offset span_layout 0) 8 b, sp_len = bytes_nat (off + member_offset span_layout 1) 8 b\<rparr>"

primrec request_at :: "Operation \<Rightarrow> 8 word list \<Rightarrow> request" where
  "request_at ACCEPT b =
     (let at = member_offset (request_layout ACCEPT) in
      AcceptR \<lparr>accept_header = header_at (at 0) b, listening_socket_fd = bytes_int (at 1) b\<rparr>)"
| "request_at CONNECT b =
     (let at = member_offset (request_layout CONNECT) in
      ConnectR \<lparr>connect_header = header_at (at 0) b, connect_fd = bytes_int (at 1) b,
                connect_addr = bytes_nat (at 2) 8 b, connect_addrlen = bytes_nat (at 3) 4 b\<rparr>)"
| "request_at READ b =
     (let at = member_offset (request_layout READ) in
      ReadR \<lparr>read_header = header_at (at 0) b, read_fd = bytes_int (at 1) b, reception_buffer = span_at (at 2) b\<rparr>)"
| "request_at READ_MULTISHOT b =
     (let at = member_offset (request_layout READ_MULTISHOT) in
      MultiShotReadR \<lparr>multishot_header = header_at (at 0) b, multishot_fd = bytes_int (at 1) b,
                      buffer_group_id = word_of_nat (bytes_nat (at 2) 2 b)\<rparr>)"
| "request_at WRITE b =
     (let at = member_offset (request_layout WRITE) in
      WriteR \<lparr>write_header = header_at (at 0) b, write_fd = bytes_int (at 1) b, bytes_written = span_at (at 2) b\<rparr>)"

definition issuing_request :: "8 word list \<Rightarrow> request option" where
  "issuing_request b =
     (let h = header_at 0 b in
      if valid h then map_option (\<lambda>k. request_at k b) (operation_of (op h)) else None)"

text \<open>Values that fit their C++ types.\<close>

definition int_range :: "int \<Rightarrow> bool" where
  "int_range i \<longleftrightarrow> - (2 ^ 31) \<le> i \<and> i < 2 ^ 31"

definition span_range :: "span \<Rightarrow> bool" where
  "span_range s \<longleftrightarrow> sp_base s < 2 ^ 64 \<and> sp_len s < 2 ^ 64"

primrec representable :: "request \<Rightarrow> bool" where
  "representable (AcceptR r) \<longleftrightarrow> user_data (accept_header r) < 2 ^ 64 \<and> int_range (listening_socket_fd r)"
| "representable (ConnectR r) \<longleftrightarrow>
     user_data (connect_header r) < 2 ^ 64 \<and> int_range (connect_fd r) \<and> connect_addr r < 2 ^ 64 \<and> connect_addrlen r < 2 ^ 32"
| "representable (ReadR r) \<longleftrightarrow> user_data (read_header r) < 2 ^ 64 \<and> int_range (read_fd r) \<and> span_range (reception_buffer r)"
| "representable (MultiShotReadR r) \<longleftrightarrow> user_data (multishot_header r) < 2 ^ 64 \<and> int_range (multishot_fd r)"
| "representable (WriteR r) \<longleftrightarrow> user_data (write_header r) < 2 ^ 64 \<and> int_range (write_fd r) \<and> span_range (bytes_written r)"

section \<open>Layout lemmas\<close>

lemma layout_values:
  "sizeof header_layout = 16" "offsets (members header_layout) = [0, 4, 8]"
  "sizeof span_layout = 16" "offsets (members span_layout) = [0, 8]"
  "offsets (members (request_layout ACCEPT)) = [0, 16]"
  "offsets (members (request_layout CONNECT)) = [0, 16, 24, 32]"
  "offsets (members (request_layout READ)) = [0, 16, 24]"
  "offsets (members (request_layout READ_MULTISHOT)) = [0, 16, 20]"
  "offsets (members (request_layout WRITE)) = [0, 16, 24]"
  by (simp_all add: layout_defs offsets_def round_up_def Let_def)

lemma sizeof_request_layout: "sizeof (request_layout k) = sizeof_request k"
  by (cases k) (simp_all add: layout_defs round_up_def Let_def)

lemma header_bytes_eq:
  "header_bytes pad h = le_bytes 4 (unat (magic h)) @ le_bytes 4 (unat (op h)) @ le_bytes 8 (user_data h)"
  by (simp add: header_bytes_def class_bytes_def layout_values)

lemma span_bytes_eq: "span_bytes pad s = le_bytes 8 (sp_base s) @ le_bytes 8 (sp_len s)"
  by (simp add: span_bytes_def class_bytes_def layout_values)

lemma length_member_bytes [simp]:
  "length (header_bytes pad h) = 16" "length (span_bytes pad s) = 16" "length (int_bytes i) = 4"
  by (simp_all add: header_bytes_eq span_bytes_eq int_bytes_def)

text \<open>Reading at an offset behind a prefix of that length.\<close>

lemma bytes_nat_at:
  "length p = off \<Longrightarrow> v < 256 ^ n \<Longrightarrow> bytes_nat off n (p @ le_bytes n v @ q) = v"
  by (simp add: bytes_nat_def le_nat_le_bytes)

lemma bytes_int_at:
  assumes "length p = off" "int_range i"
  shows "bytes_int off (p @ int_bytes i @ q) = i"
proof -
  have "unat (word_of_int i :: 32 word) < 256 ^ 4"
    using unsigned_less [of "word_of_int i :: 32 word", where 'a = nat] by simp
  then have "bytes_nat off 4 (p @ int_bytes i @ q) = unat (word_of_int i :: 32 word)"
    unfolding int_bytes_def using assms(1) by (intro bytes_nat_at)
  moreover have "sint (word_of_int i :: 32 word) = i"
    using assms(2) by (simp add: int_range_def sint_sbintrunc' signed_take_bit_int_eq_self)
  ultimately show ?thesis by (simp add: bytes_int_def)
qed

lemma unat_bound: "unat (w :: 'a::len word) < 2 ^ LENGTH('a)"
  by (rule unsigned_less)

lemma header_at_prefix:
  assumes "length p = off" "user_data h < 2 ^ 64"
  shows "header_at off (p @ header_bytes pad h @ q) = h"
proof -
  let ?m = "le_bytes 4 (unat (magic h))" and ?o = "le_bytes 4 (unat (op h))" and ?u = "le_bytes 8 (user_data h)"
  have eq: "p @ header_bytes pad h @ q = p @ ?m @ (?o @ ?u @ q)" "p @ header_bytes pad h @ q = (p @ ?m) @ ?o @ (?u @ q)"
      "p @ header_bytes pad h @ q = (p @ ?m @ ?o) @ ?u @ q"
    by (simp_all add: header_bytes_eq)
  have "bytes_nat (off + 0) 4 (p @ header_bytes pad h @ q) = unat (magic h)"
    unfolding eq(1) using assms(1) unat_bound [of "magic h"] by (intro bytes_nat_at) simp_all
  moreover have "bytes_nat (off + 4) 4 (p @ header_bytes pad h @ q) = unat (op h)"
    unfolding eq(2) using assms(1) unat_bound [of "op h"] by (intro bytes_nat_at) simp_all
  moreover have "bytes_nat (off + 8) 8 (p @ header_bytes pad h @ q) = user_data h"
    unfolding eq(3) using assms by (intro bytes_nat_at) simp_all
  ultimately show ?thesis by (simp add: header_at_def member_offset_def layout_values)
qed

lemma span_at_prefix:
  assumes "length p = off" "span_range s"
  shows "span_at off (p @ span_bytes pad s @ q) = s"
proof -
  let ?b = "le_bytes 8 (sp_base s)" and ?l = "le_bytes 8 (sp_len s)"
  have eq: "p @ span_bytes pad s @ q = p @ ?b @ (?l @ q)" "p @ span_bytes pad s @ q = (p @ ?b) @ ?l @ q"
    by (simp_all add: span_bytes_eq)
  have "bytes_nat (off + 0) 8 (p @ span_bytes pad s @ q) = sp_base s"
    unfolding eq(1) using assms by (intro bytes_nat_at) (simp_all add: span_range_def)
  moreover have "bytes_nat (off + 8) 8 (p @ span_bytes pad s @ q) = sp_len s"
    unfolding eq(2) using assms by (intro bytes_nat_at) (simp_all add: span_range_def)
  ultimately show ?thesis by (simp add: span_at_def member_offset_def layout_values)
qed

text \<open>The bytes of a request: the header's, the descriptor's, then the rest behind padding.\<close>

lemma request_bytes_eq:
  "request_bytes pad (AcceptR a) = header_bytes pad (accept_header a) @ int_bytes (listening_socket_fd a) @ replicate 4 pad"
  "request_bytes pad (ConnectR c) = header_bytes pad (connect_header c) @ int_bytes (connect_fd c) @ replicate 4 pad @
     le_bytes 8 (connect_addr c) @ le_bytes 4 (connect_addrlen c) @ replicate 4 pad"
  "request_bytes pad (ReadR d) = header_bytes pad (read_header d) @ int_bytes (read_fd d) @ replicate 4 pad @
     span_bytes pad (reception_buffer d)"
  "request_bytes pad (MultiShotReadR m) = header_bytes pad (multishot_header m) @ int_bytes (multishot_fd m) @
     le_bytes 2 (unat (buffer_group_id m)) @ replicate 2 pad"
  "request_bytes pad (WriteR w) = header_bytes pad (write_header w) @ int_bytes (write_fd w) @ replicate 4 pad @
     span_bytes pad (bytes_written w)"
  by (simp_all add: request_bytes_def class_bytes_def layout_values(5-9) sizeof_request_layout
      del: request_layout.simps)

lemma member_reads:
  assumes "user_data h < 2 ^ 64"
  shows "header_at 0 (header_bytes pad h @ q) = h"
    "int_range i \<Longrightarrow> bytes_int 16 (header_bytes pad h @ int_bytes i @ q) = i"
    "span_range s \<Longrightarrow> span_at 24 (header_bytes pad h @ int_bytes i @ replicate 4 pad @ span_bytes pad s) = s"
    "v < 2 ^ 64 \<Longrightarrow> bytes_nat 24 8 (header_bytes pad h @ int_bytes i @ replicate 4 pad @ le_bytes 8 v @ q) = v"
    "l < 2 ^ 32 \<Longrightarrow> bytes_nat 32 4 (header_bytes pad h @ int_bytes i @ replicate 4 pad @ le_bytes 8 v @ le_bytes 4 l @ q) = l"
    "bytes_nat 20 2 (header_bytes pad h @ int_bytes i @ le_bytes 2 (unat (g :: 16 word)) @ q) = unat g"
proof -
  let ?h = "header_bytes pad h" and ?i = "int_bytes i" and ?z = "replicate 4 pad"
  show "header_at 0 (?h @ q) = h" using header_at_prefix [of "[]" 0 h] assms by simp
  show "int_range i \<Longrightarrow> bytes_int 16 (?h @ ?i @ q) = i" by (intro bytes_int_at) simp_all
  show "span_range s \<Longrightarrow> span_at 24 (?h @ ?i @ ?z @ span_bytes pad s) = s"
    using span_at_prefix [of "?h @ ?i @ ?z" 24 s pad "[]"] by simp
  show "v < 2 ^ 64 \<Longrightarrow> bytes_nat 24 8 (?h @ ?i @ ?z @ le_bytes 8 v @ q) = v"
    using bytes_nat_at [of "?h @ ?i @ ?z" 24 v 8 q] by simp
  show "l < 2 ^ 32 \<Longrightarrow> bytes_nat 32 4 (?h @ ?i @ ?z @ le_bytes 8 v @ le_bytes 4 l @ q) = l"
    using bytes_nat_at [of "?h @ ?i @ ?z @ le_bytes 8 v" 32 l 4 q] by simp
  show "bytes_nat 20 2 (?h @ ?i @ le_bytes 2 (unat g) @ q) = unat g"
    using bytes_nat_at [of "?h @ ?i" 20 "unat g" 2 q] unat_bound [of g] by simp
qed

lemma header_at_request: "representable r \<Longrightarrow> header_at 0 (request_bytes pad r) = header r"
  by (cases r) (simp_all add: request_bytes_eq member_reads)

lemma request_at_bytes: "representable r \<Longrightarrow> request_at (kind r) (request_bytes pad r) = r"
  by (cases r)
     (simp_all add: member_offset_def layout_values(5-9) Let_def request_bytes_eq member_reads del: request_layout.simps)

lemma replicate_5: "replicate 5 x = [x, x, x, x, x]"
  by (simp add: eval_nat_numeral)

lemma subscriber_layout_facts: "\<not> is_safe_for_reinterpret_cast subscriber_layout" "sizeof subscriber_layout = 200"
  by (simp_all add: is_safe_for_reinterpret_cast_def subscriber_layout_def layout_defs replicate_5 round_up_def Let_def)

lemma request_layout_facts:
  "is_safe_for_reinterpret_cast (request_layout k)" "hd (members (request_layout k)) = header_layout"
  "member_offset (request_layout k) 0 = 0"
  by (cases k; simp add: is_safe_for_reinterpret_cast_def layout_defs member_offset_def offsets_def round_up_def Let_def)+

section \<open>Properties\<close>


text \<open>C25. A request read back from the bytes of its block through the casts of the library is the request that
  was stored: first the header, whatever the type of the request, then, as its tag says, the whole
  structure; the unspecified padding plays no part.\<close>

theorem request_bytes_round_trip:
  assumes "wf_request r" "representable r"
  shows "header_at 0 (request_bytes pad r) = header r \<and> issuing_request (request_bytes pad r) = Some r \<and>
     length (request_bytes pad r) = sizeof_request (kind r)"
proof -
  have "issuing_request (request_bytes pad r) = Some r"
    using assms wf_request_operation [OF assms(1)]
    by (simp add: issuing_request_def header_at_request request_at_bytes wf_request_def)
  moreover have "length (request_bytes pad r) = sizeof_request (kind r)"
    by (cases r) (simp_all add: request_bytes_eq)
  ultimately show ?thesis using header_at_request [OF assms(2)] by blast
qed

theorem request_bytes_round_trip_witness:
  "issuing_request (request_bytes 255 (WriteR (new_WriteRequest\<lparr>write_fd := -1, bytes_written := \<lparr>sp_base = 900, sp_len = 13\<rparr>\<rparr>))) =
     Some (WriteR (new_WriteRequest\<lparr>write_fd := -1, bytes_written := \<lparr>sp_base = 900, sp_len = 13\<rparr>\<rparr>))"
proof -
  let ?r = "WriteR (new_WriteRequest\<lparr>write_fd := -1, bytes_written := \<lparr>sp_base = 900, sp_len = 13\<rparr>\<rparr>)"
  have "wf_request ?r" by (simp add: wf_request_def new_WriteRequest_def)
  moreover have "representable ?r"
    by (simp add: new_WriteRequest_def RequestHeader_of_def int_range_def span_range_def)
  ultimately show ?thesis using request_bytes_round_trip [of ?r 255] by blast
qed

end
