(* ===== verification/Spec2Isabelle.thy ===== *)
theory Spec2Isabelle
  imports Ringnet_Mains Readers_Agree Asio_Echo_Run Threads_Refinement Buffer_Accounting Type_Traits
begin

text \<open>
  A verification library for ringnet, a C++20 networking library on Linux io_uring.

  The program. An \<open>EventLoop\<close> owns a \<open>SubmissionQueue\<close> and a \<open>BufferRing\<close>. A resource (a \<open>Connection\<close>, an
  \<open>Acceptor\<close>, a \<open>Connector\<close>) adds requests to the loop on behalf of its \<open>Subscriber\<close>, the \<open>EventHandler\<close> that
  holds its callbacks. The queue copies a request into a pool and remembers its address in a list per
  request type; a turn of the loop turns the waiting requests into submission entries whose user data
  is that address, submits them, walks the posted completions, finds the request again through the user
  data, hands its subscriber one event and releases the request. Multi-shot reads take their buffers
  from the buffer ring.

  The theories, in the order of the layers (files under \<open>src/include/ringnet\<close> and \<open>src/src/ringnet\<close>):
  \<^item> \<open>Ringnet_Prelude\<close>: addresses, the ways a run can stop, the error monad, decimal printing, words.
  \<^item> \<open>Chrono_Utils\<close> (\<open>time/chronoUtils.hpp\<close>): durations as kernel timespecs.
  \<^item> \<open>Requests\<close> (\<open>uring/requests.hpp\<close>): the request structures and the type invariant \<open>wf_request\<close>.
  \<^item> \<open>Type_Traits\<close> (\<open>traits/reinterpretable.hpp\<close>, \<open>traits/movable.hpp\<close>, the static assertions): the layouts of the
    structures and the casts on user data as reads of bytes.
  \<^item> \<open>Request_Pool\<close> (\<open>uring/requestPool.hpp\<close>): the pool, its invariant \<open>pool_inv\<close>, the locales \<open>object_store\<close> (a
    store of objects), \<open>memory_cell\<close> (one object) and \<open>object_heap\<close> (a pool in a field of a state).
  \<^item> \<open>Pending_Requests\<close> (\<open>uring/pendingRequests.hpp\<close>) with the locale \<open>request_batch\<close>.
  \<^item> \<open>Sys_Env\<close>: liburing and POSIX, which ringnet calls and does not contain, as the parameter \<open>X :: 'x sys\<close>
    acting on an environment state \<open>'x\<close>; their documented behaviour as the predicates \<open>sq_contract\<close>,
    \<open>cq_contract\<close>, \<open>br_contract\<close> and \<open>inet6_bind_needs_full_address\<close>, which the theorems that need them assume.
    \<open>Reference_Env\<close> is an executable environment that satisfies them, for the instances.
  \<^item> \<open>Submission_Queue\<close> (\<open>uring/submissionQueue.*\<close>): every operation, the invariant \<open>sq_inv\<close>, the batch as a
    list of entries (\<open>request_calls\<close>) and the walk over completions as the reference \<open>reap\<close>.
  \<^item> \<open>Buffer_Ring\<close> (\<open>uring/bufferRing.hpp\<close>).
  \<^item> \<open>Event_Handler\<close> (\<open>eventHandler.hpp\<close>, \<open>errorHandler.hpp\<close>, \<open>events.hpp\<close>, \<open>status.hpp\<close>): callbacks under a mutex,
    with the locale \<open>handler_cell\<close>, an extension of \<open>memory_cell\<close>.
  \<^item> \<open>Event_Loop\<close> (\<open>eventLoop.*\<close>): the dispatch \<open>on_completion\<close> and its meaning \<open>completion_event\<close>; one turn
    (\<open>run_iteration\<close>) and the loop (\<open>run\<close>).
  \<^item> \<open>Sockets\<close> (\<open>net/sockets.*\<close>, \<open>net/endpoint.hpp\<close>), \<open>Connection\<close> (\<open>net/connection.*\<close>), \<open>Acceptor\<close>
    (\<open>net/acceptor.hpp\<close>), \<open>Connector\<close> (\<open>net/connector.hpp\<close>).
  \<^item> \<open>Connection_Map\<close>: the part of \<open>std::map<Endpoint, Connection>\<close> the sample servers use, with the locale
    \<open>ordered_registry\<close>; \<open>App_World\<close>: what the sample programs share.
  \<^item> The programs under \<open>src/app/samples/benchmarks\<close>: \<open>Tcp_Reader\<close> (\<open>ringnetTcpReaderServer.*\<close>), \<open>Tcp_Writer\<close>
    (\<open>ringnetTcpWriterClient.*\<close>), \<open>Echo_Server\<close> and \<open>Echo_Client\<close> (\<open>ringnetEchoServer.hpp\<close>,
    \<open>ringnetEchoClient.hpp\<close>), each with the set-up of its \<open>main\<close>. Their lambdas are the constructors of a
    datatype, which the library keeps as callbacks, and \<open>run_closure\<close> runs them. The echo programs have
    a memory, because the server's one buffer is shared by all writes.
  \<^item> \<open>Command_Line\<close> (\<open>echoCLI.h\<close>, \<open>readerCLI.h\<close>, \<open>writerCLI.h\<close>): the options of the programs over the option parser
    cxxopts, a parameter \<open>C :: 'r cxxopts\<close> with the contract \<open>cxxopts_contract\<close>.
  \<^item> \<open>Asio_Env\<close>: Asio, on which the other samples are built, as a parameter \<open>A :: ('x, 'c) asio\<close> with the contract
    \<open>asio_contract\<close>; \<open>io_context::run\<close> over it, and the locale \<open>asio_program\<close> for invariants of the programs.
    \<open>Asio_Reader\<close> (\<open>asioTcpReaderServer.*\<close>, \<open>asioTcpReader.cpp\<close>) and \<open>Asio_Echo\<close> (\<open>asioEchoServer.*\<close>,
    \<open>asioEchoClient.*\<close>, \<open>asioEchoBenchmark.cpp\<close>): the throughput reader and the echo pair on Asio.

  Whole runs. These theories put the operations together:
  \<^item> \<open>Transition_Systems\<close>: the locales \<open>step_invariant\<close> and \<open>step_simulation\<close>; \<open>Ring_Contract\<close>: what the kernel
    does with an entry between its submission and its completions (\<open>ring_contract\<close>, \<open>posts\<close>), and that the
    socket calls leave the rings alone (\<open>posix_keeps_rings\<close>).
  \<^item> \<open>Request_Life\<close>: the step relation \<open>queue_step\<close>, in which threads that add requests, the loop that submits,
    the kernel and the walk over completions act in any order, its invariant \<open>queue_life\<close>, and the memory
    safety of requests. \<open>Queue_Refinement\<close>: the queue implements the abstract cycle \<open>spec_step\<close> of waiting,
    flying and completed requests that the comment in \<open>submissionQueue.hpp\<close> describes.
  \<^item> \<open>Queue_Threads\<close>: the same with threads inside the operations. \<open>push\<close>, \<open>submit\<close> and \<open>forEachCompletion\<close> are split
    at every access to shared data (\<open>push_step\<close>, \<open>submit_step\<close>, \<open>walk_step\<close>), the mutex is part of the state and the
    kernel moves at any time; invariant, mutual exclusion, progress, and the race in the pool.
    \<open>Threads_Refinement\<close>: this system implements the abstract queue as well, and its steps, uninterrupted, are the operations.
  \<^item> \<open>Loop_Safety\<close>: the contract between the loop and a program as the locale \<open>loop_program\<close>, and that under it
    only a callback of the program can stop \<open>run\<close>. \<open>Net_Safety\<close>: what the operations of the network layer mean
    for that contract; \<open>App_Safety\<close>: what the set-up and the connections of the sample programs mean for it.
    \<open>Buffer_Accounting\<close>: where the provided buffers are after any number of turns.
    \<open>Writer_Safety\<close>: the throughput writer keeps it, from \<open>main\<close> on. \<open>Breakpoints\<close>: runs up to a situation, for
    programs that keep the contract only until something happens to them; \<open>Reader_Safety\<close>: the throughput reader
    is one, until a connection fails or a registered descriptor is accepted again; \<open>Echo_Safety\<close>: so are the
    echo server and the echo client on one loop, until a registered descriptor is accepted again.
  \<^item> \<open>Ringnet_Mains\<close> (\<open>ringnetTcpWriter.cpp\<close>, \<open>ringnetTcpReader.cpp\<close>, \<open>ringnetEchoBenchmark.cpp\<close>): the processes of the
    ringnet samples, from the command line to the end of \<open>loop.run()\<close>.
  \<^item> \<open>Asio_Echo_Run\<close>: the invariant of the echo pair on Asio, one operation per client. \<open>Readers_Agree\<close>: the
    two throughput readers count alike.

  State. The members of the objects are fields of one extensible record: \<open>submission_queue\<close>, extended by
  \<open>buffer_ring_state\<close>, \<open>event_loop\<close> and \<open>net_world\<close>, so the operations of a layer work on the states of the
  layers above and of a program that extends \<open>net_world\<close>. Objects whose address matters (requests,
  subscribers, acceptors, connectors) live in pools; using one that was freed stops the run. The
  callbacks of a program are closures of a type \<open>'c\<close>; what they do is the parameter \<open>cb\<close>, and for the
  network layer the parameters \<open>uev\<close> and \<open>ucon\<close>, which the sample programs instantiate.

  Loops. \<open>forEachCompletion\<close> and \<open>run\<close> may not end, because the kernel can always post more completions and
  the flag can stay up; they are partial functions whose value \<open>None\<close> is a run that does not come back.
  \<open>run\<close> is characterised by numbers of turns (\<open>turns\<close>), so no bound is chosen anywhere.

  What is shown. The life of a request from \<open>add\<close> to the event, for one request and for all of them under
  every interleaving, of operations and of single accesses; the batch and the walk over completions against their references; the invariants
  of queue and pool; that a program which keeps the documented contract can not be crashed by the
  kernel's answers, that the throughput writer is such a program, and the reader and the echo pair up to the situations they can not take; who owns a descriptor, a
  connection, a buffer, and that no buffer leaks; the state machines of acceptor and connector on every branch; and, as theorems
  too, where the code does something its authors can not have meant: the buffer flag test, completions
  without user data, cancellations that stay unsubmitted, dropped requests, dangling subscribers, stale
  \<open>errno\<close>, IPv6 addresses cut short, a connector stuck after a failure, deadlock of re-entrant registration.
  For the programs: how many bytes the reader, the writer and the echo client count and when they leave,
  what happens to a new client, that the echo server sends back what it read, and that it mixes up
  clients whose reads follow each other; that the reader frees a subscriber while it runs. For the
  processes: how the writer's, the reader's and the echo pair's can end; that the reader's hangs when its port is taken;
  and for the samples on Asio, how their processes can end, and that their echo server keeps its clients apart, which the one on ringnet does not.

  Not modelled. What two threads do to the pool once they use it together: runs end there. Threads inside the
  operations of the layers above the queue: the network layer and the programs run on the loop's thread.
  \<open>cancel\<close> is modelled and excluded from the step relations, since its completion stops the loop. The text of a
  \<open>MessagedStatus\<close> is a string where the code keeps a view of a possibly dead temporary. The contents of buffers
  outside the echo programs. Asio and cxxopts themselves, which are third-party code and parameters here, and the
  tests. The clock and the printing of floating-point rates are parameters of the echo clients.

  Destroying an open connection queues a cancellation, whose completion has no user data and stops the loop
  (shown in \<open>Event_Loop\<close>); so the whole-run theorems cover programs that keep their connections, or destroy
  moved-from ones, and the reader up to the error that makes it erase one.
\<close>

section \<open>Properties that span the components\<close>


definition sample_server :: "(ref_env, nat) net_world" where
  "sample_server = sample_net\<lparr>
     request_pool := \<lparr>blocks = [(2, 24, Some (set_user_data 7 (AcceptR (new_AcceptRequest\<lparr>listening_socket_fd := 3\<rparr>))))],
        free_blocks = [], pool_brk = 26\<rparr>,
     subscribers := \<lparr>blocks = [(7, 200, Some \<lparr>handlers = [AcceptEventT \<mapsto> AcceptThen 3 0], mutex_held = False\<rparr>)], free_blocks = [], pool_brk = 207\<rparr>\<rparr>"


end
